(* ===== verification/Prelude.thy ===== *)
theory Prelude
  imports "HOL-Library.Word" "HOL-Library.Code_Target_Nat"
begin

text \<open>
  The vocabulary every component shares.

  \<^item> Go's unsigned integers are natural numbers; every conversion or sum that can
    wrap in the source is written with \<open>w16\<close>, \<open>w32\<close> or \<open>w64\<close>.  An \<open>int64\<close> is an
    \<open>int\<close>, wrapped by \<open>i64\<close>.
  \<^item> A byte slice is a list of 8-bit words.  \<open>bytes_at\<close> is \<open>buf[off:off+n]\<close>, \<open>put_bytes\<close> is
    \<open>copy(buf[off:], data)\<close> with room for the data, \<open>le_nat\<close> and \<open>le_bytes\<close> are
    \<open>encoding/binary\<close>'s little-endian codec.
  \<^item> A fallible function returns \<open>err + 'a\<close>: one constructor of \<open>err\<close> per error the
    code can return (what \<open>errors.Is\<close> observes, the \<open>fmt.Errorf\<close> decoration dropped),
    and \<open>Panic\<close> for a run-time panic.
  \<^item> Code that writes to the device is \<open>'s \<Rightarrow> (err + 'a) \<times> 's\<close>, so that a failure in
    the middle keeps the writes made before it.
\<close>

unbundle bit_operations_syntax

named_theorems wrap_simps
named_theorems codec_simps
named_theorems io_defs

section \<open>Numbers\<close>

type_synonym byte = "8 word"
type_synonym u8 = nat
type_synonym u16 = nat
type_synonym u32 = nat
type_synonym u64 = nat

definition w16 :: "nat \<Rightarrow> u16" where
  "w16 x = x mod 65536"

definition w32 :: "nat \<Rightarrow> u32" where
  "w32 x = x mod 4294967296"

definition w64 :: "nat \<Rightarrow> u64" where
  "w64 x = x mod 18446744073709551616"

definition i64 :: "int \<Rightarrow> int" where
  "i64 x = signed_take_bit 63 x"

definition sub32 :: "u32 \<Rightarrow> u32 \<Rightarrow> u32" where
  "sub32 x y = w32 (x + 4294967296 - y)"

definition sub64 :: "u64 \<Rightarrow> u64 \<Rightarrow> u64" where
  "sub64 x y = w64 (x + 18446744073709551616 - y)"

definition not32 :: "u32 \<Rightarrow> u32" where
  "not32 x = 4294967295 - x"

definition has_flag :: "nat \<Rightarrow> nat \<Rightarrow> bool" where
  "has_flag x m \<longleftrightarrow> x AND m \<noteq> 0"

definition join32 :: "u32 \<Rightarrow> u32 \<Rightarrow> u64" where
  "join32 hi lo = push_bit 32 hi OR lo"

definition join16 :: "u16 \<Rightarrow> u16 \<Rightarrow> u32" where
  "join16 hi lo = push_bit 16 hi OR lo"

lemma w16_id [simp, wrap_simps]: "x < 65536 \<Longrightarrow> w16 x = x"
  by (simp add: w16_def)

lemma w32_id [simp, wrap_simps]: "x < 4294967296 \<Longrightarrow> w32 x = x"
  by (simp add: w32_def)

lemma w64_id [simp, wrap_simps]: "x < 18446744073709551616 \<Longrightarrow> w64 x = x"
  by (simp add: w64_def)

lemma w16_less [simp]: "w16 x < 65536"
  by (simp add: w16_def)

lemma w32_less [simp]: "w32 x < 4294967296"
  by (simp add: w32_def)

lemma w64_less [simp]: "w64 x < 18446744073709551616"
  by (simp add: w64_def)

lemma w32_le: "w32 x \<le> x"
  by (simp add: w32_def)

lemma w64_le: "w64 x \<le> x"
  by (simp add: w64_def)

lemma i64_id [simp, wrap_simps]:
  "- 9223372036854775808 \<le> x \<Longrightarrow> x < 9223372036854775808 \<Longrightarrow> i64 x = x"
  by (simp add: i64_def signed_take_bit_int_eq_self)

lemma i64_nat: "n < 9223372036854775808 \<Longrightarrow> i64 (int n) = int n"
  by simp

lemma i64_less: "i64 x < 9223372036854775808"
  using signed_take_bit_int_less_exp [of 63 x] by (simp add: i64_def)

lemma i64_ge: "- 9223372036854775808 \<le> i64 x"
  using signed_take_bit_int_greater_eq_minus_exp [of 63 x] by (simp add: i64_def)

lemma i64_mod [code]: "i64 x = (x + 9223372036854775808) mod 18446744073709551616 - 9223372036854775808"
  by (simp add: i64_def signed_take_bit_eq_take_bit_shift take_bit_eq_mod)

lemma i64_nonneg:
  assumes "0 \<le> i64 (int n)" "n < 18446744073709551616"
  shows "i64 (int n) = int n"
proof (cases "n < 9223372036854775808")
  case False
  then have "(int n + 9223372036854775808) mod 18446744073709551616 = int n - 9223372036854775808"
    using assms(2) mod_add_self2 [of "int n - 9223372036854775808" 18446744073709551616]
    by (simp add: add.commute)
  with assms show ?thesis
    by (simp add: i64_mod)
qed simp

lemma sub32_ge: "y \<le> x \<Longrightarrow> x < 4294967296 \<Longrightarrow> sub32 x y = x - y"
  by (simp add: sub32_def w32_def mod_if)

lemma sub64_ge: "y \<le> x \<Longrightarrow> x < 18446744073709551616 \<Longrightarrow> sub64 x y = x - y"
  by (simp add: sub64_def w64_def mod_if)

lemma not32_less [simp]: "not32 x < 4294967296"
  by (simp add: not32_def)

lemma not32_not32 [simp]: "x < 4294967296 \<Longrightarrow> not32 (not32 x) = x"
  by (simp add: not32_def)

lemma push_or_add:
  fixes lo hi :: nat
  assumes "lo < 2 ^ n"
  shows "push_bit n hi OR lo = hi * 2 ^ n + lo"
proof -
  have "\<not> bit (push_bit n hi) i \<or> \<not> bit lo i" for i
    using assms
    by (auto simp: bit_simps) (metis (no_types) bit_take_bit_iff leD take_bit_nat_eq_self)
  then have "push_bit n hi + lo = push_bit n hi OR lo"
    by (intro disjunctive_add) blast
  then show ?thesis
    by (simp add: push_bit_eq_mult)
qed

lemma join32_eq: "lo < 4294967296 \<Longrightarrow> join32 hi lo = hi * 4294967296 + lo"
  using push_or_add [of lo 32 hi] by (simp add: join32_def)

lemma join16_eq: "lo < 65536 \<Longrightarrow> join16 hi lo = hi * 65536 + lo"
  using push_or_add [of lo 16 hi] by (simp add: join16_def)

lemma join32_split [simp]: "join32 (x div 4294967296) (x mod 4294967296) = x"
  by (simp add: join32_eq)

lemma join16_split [simp]: "join16 (x div 65536) (x mod 65536) = x"
  by (simp add: join16_eq)

section \<open>Byte slices\<close>

definition bytes_at :: "'a list \<Rightarrow> nat \<Rightarrow> nat \<Rightarrow> 'a list" where
  "bytes_at buf off n = take n (drop off buf)"

definition put_bytes :: "'a list \<Rightarrow> nat \<Rightarrow> 'a list \<Rightarrow> 'a list" where
  "put_bytes buf off d = take off buf @ d @ drop (off + length d) buf"

definition zeros :: "nat \<Rightarrow> byte list" where
  "zeros n = replicate n 0"

lemma length_zeros [simp]: "length (zeros n) = n"
  by (simp add: zeros_def)

lemma length_bytes_at [simp]: "length (bytes_at buf off n) = min n (length buf - off)"
  by (simp add: bytes_at_def min.commute)

lemma length_put_bytes [simp]:
  "off + length d \<le> length buf \<Longrightarrow> length (put_bytes buf off d) = length buf"
  by (simp add: put_bytes_def)

lemma nth_put_bytes:
  assumes "off + length d \<le> length buf" "i < length buf"
  shows "put_bytes buf off d ! i
    = (if off \<le> i \<and> i < off + length d then d ! (i - off) else buf ! i)"
proof -
  have [simp]: "min (length buf) off = off"
    using assms by simp
  have "buf ! (off + length d + (i - off - length d)) = buf ! i"
    if "\<not> i - off < length d" "\<not> i < off"
  proof -
    from that have "off + length d + (i - off - length d) = i"
      by arith
    then show ?thesis
      by simp
  qed
  with assms show ?thesis
    by (auto simp: put_bytes_def nth_append add.assoc)
qed

lemma nth_bytes_at [simp]:
  "i < n \<Longrightarrow> off + i < length buf \<Longrightarrow> bytes_at buf off n ! i = buf ! (off + i)"
  by (simp add: bytes_at_def)

lemma bytes_at_put_bytes_same [simp]:
  assumes "off + length d \<le> length buf"
  shows "bytes_at (put_bytes buf off d) off (length d) = d"
  using assms by (simp add: bytes_at_def put_bytes_def)

lemma bytes_at_put_bytes_other:
  assumes "off + length d \<le> length buf" "o' + n \<le> off \<or> off + length d \<le> o'"
  shows "bytes_at (put_bytes buf off d) o' n = bytes_at buf o' n"
  by (rule nth_equalityI) (use assms in \<open>auto simp: nth_put_bytes\<close>)

lemma bytes_at_all: "n = length buf \<Longrightarrow> bytes_at buf 0 n = buf"
  by (simp add: bytes_at_def)

section \<open>Little-endian integers\<close>

primrec le_nat :: "byte list \<Rightarrow> nat" where
  "le_nat [] = 0"
| "le_nat (b # bs) = unat b + 256 * le_nat bs"

primrec le_bytes :: "nat \<Rightarrow> nat \<Rightarrow> byte list" where
  "le_bytes 0 v = []"
| "le_bytes (Suc n) v = of_nat (v mod 256) # le_bytes n (v div 256)"

definition u8_at :: "byte list \<Rightarrow> nat \<Rightarrow> u8" where
  "u8_at buf off = le_nat (bytes_at buf off 1)"

definition u16_at :: "byte list \<Rightarrow> nat \<Rightarrow> u16" where
  "u16_at buf off = le_nat (bytes_at buf off 2)"

definition u32_at :: "byte list \<Rightarrow> nat \<Rightarrow> u32" where
  "u32_at buf off = le_nat (bytes_at buf off 4)"

definition u64_at :: "byte list \<Rightarrow> nat \<Rightarrow> u64" where
  "u64_at buf off = le_nat (bytes_at buf off 8)"

definition put_u8 :: "byte list \<Rightarrow> nat \<Rightarrow> u8 \<Rightarrow> byte list" where
  "put_u8 buf off v = put_bytes buf off (le_bytes 1 v)"

definition put_u16 :: "byte list \<Rightarrow> nat \<Rightarrow> u16 \<Rightarrow> byte list" where
  "put_u16 buf off v = put_bytes buf off (le_bytes 2 v)"

definition put_u32 :: "byte list \<Rightarrow> nat \<Rightarrow> u32 \<Rightarrow> byte list" where
  "put_u32 buf off v = put_bytes buf off (le_bytes 4 v)"

definition put_u64 :: "byte list \<Rightarrow> nat \<Rightarrow> u64 \<Rightarrow> byte list" where
  "put_u64 buf off v = put_bytes buf off (le_bytes 8 v)"

lemma length_le_bytes [simp]: "length (le_bytes n v) = n"
  by (induction n arbitrary: v) auto

lemma le_nat_le_bytes [simp]: "le_nat (le_bytes n v) = v mod 256 ^ n"
proof (induction n arbitrary: v)
  case (Suc n)
  have "unat (of_nat (v mod 256) :: byte) = v mod 256"
    by (simp add: unat_of_nat)
  with Suc show ?case
    by (simp add: mod_mult2_eq)
qed simp

lemma le_nat_less: "le_nat bs < 256 ^ length bs"
proof (induction bs)
  case (Cons b bs)
  have "unat b < 256"
    using unsigned_less [of b] by simp
  with Cons show ?case
    by simp
qed simp

lemma le_bytes_le_nat [simp]: "n = length bs \<Longrightarrow> le_bytes n (le_nat bs) = bs"
proof (induction bs arbitrary: n)
  case (Cons b bs)
  have "unat b < 256"
    using unsigned_less [of b] by simp
  with Cons show ?case
    by simp
qed simp

lemma le_nat_bytes_at_less: "le_nat (bytes_at buf off n) < 256 ^ n"
  by (rule less_le_trans [OF le_nat_less]) simp

lemma u8_at_less [simp]: "u8_at buf off < 256"
  using le_nat_bytes_at_less [of buf off 1] by (simp add: u8_at_def)

lemma u16_at_less [simp]: "u16_at buf off < 65536"
  using le_nat_bytes_at_less [of buf off 2] by (simp add: u16_at_def)

lemma u32_at_less [simp]: "u32_at buf off < 4294967296"
  using le_nat_bytes_at_less [of buf off 4] by (simp add: u32_at_def)

lemma u64_at_less [simp]: "u64_at buf off < 18446744073709551616"
  using le_nat_bytes_at_less [of buf off 8] by (simp add: u64_at_def)

lemma length_put [simp]:
  "off + 1 \<le> length buf \<Longrightarrow> length (put_u8 buf off v) = length buf"
  "off + 2 \<le> length buf \<Longrightarrow> length (put_u16 buf off v) = length buf"
  "off + 4 \<le> length buf \<Longrightarrow> length (put_u32 buf off v) = length buf"
  "off + 8 \<le> length buf \<Longrightarrow> length (put_u64 buf off v) = length buf"
  by (simp_all add: put_u8_def put_u16_def put_u32_def put_u64_def)

lemma bytes_at_put_le_bytes:
  "off + n \<le> length buf \<Longrightarrow> bytes_at (put_bytes buf off (le_bytes n v)) off n = le_bytes n v"
  using bytes_at_put_bytes_same [of off "le_bytes n v" buf] by simp

lemma get_put_same [simp, codec_simps]:
  "off + 1 \<le> length buf \<Longrightarrow> u8_at (put_u8 buf off v) off = v mod 256"
  "off + 2 \<le> length buf \<Longrightarrow> u16_at (put_u16 buf off v) off = v mod 65536"
  "off + 4 \<le> length buf \<Longrightarrow> u32_at (put_u32 buf off v) off = v mod 4294967296"
  "off + 8 \<le> length buf \<Longrightarrow> u64_at (put_u64 buf off v) off = v mod 18446744073709551616"
  by (simp_all only: u8_at_def put_u8_def u16_at_def put_u16_def u32_at_def put_u32_def
      u64_at_def put_u64_def bytes_at_put_le_bytes le_nat_le_bytes) simp_all

lemma bytes_at_put_other [codec_simps]:
  "off + 1 \<le> length buf \<Longrightarrow> o' + n \<le> off \<or> off + 1 \<le> o' \<Longrightarrow>
     bytes_at (put_u8 buf off v) o' n = bytes_at buf o' n"
  "off + 2 \<le> length buf \<Longrightarrow> o' + n \<le> off \<or> off + 2 \<le> o' \<Longrightarrow>
     bytes_at (put_u16 buf off v) o' n = bytes_at buf o' n"
  "off + 4 \<le> length buf \<Longrightarrow> o' + n \<le> off \<or> off + 4 \<le> o' \<Longrightarrow>
     bytes_at (put_u32 buf off v) o' n = bytes_at buf o' n"
  "off + 8 \<le> length buf \<Longrightarrow> o' + n \<le> off \<or> off + 8 \<le> o' \<Longrightarrow>
     bytes_at (put_u64 buf off v) o' n = bytes_at buf o' n"
  by (simp_all add: put_u8_def put_u16_def put_u32_def put_u64_def bytes_at_put_bytes_other)

lemma get16_put_other [codec_simps]:
  "off + 1 \<le> length buf \<Longrightarrow> o' + 2 \<le> off \<or> off + 1 \<le> o' \<Longrightarrow>
     u16_at (put_u8 buf off v) o' = u16_at buf o'"
  "off + 2 \<le> length buf \<Longrightarrow> o' + 2 \<le> off \<or> off + 2 \<le> o' \<Longrightarrow>
     u16_at (put_u16 buf off v) o' = u16_at buf o'"
  "off + 4 \<le> length buf \<Longrightarrow> o' + 2 \<le> off \<or> off + 4 \<le> o' \<Longrightarrow>
     u16_at (put_u32 buf off v) o' = u16_at buf o'"
  by (simp_all add: u16_at_def bytes_at_put_other)

lemma get32_put_other [codec_simps]:
  "off + 1 \<le> length buf \<Longrightarrow> o' + 4 \<le> off \<or> off + 1 \<le> o' \<Longrightarrow>
     u32_at (put_u8 buf off v) o' = u32_at buf o'"
  "off + 2 \<le> length buf \<Longrightarrow> o' + 4 \<le> off \<or> off + 2 \<le> o' \<Longrightarrow>
     u32_at (put_u16 buf off v) o' = u32_at buf o'"
  "off + 4 \<le> length buf \<Longrightarrow> o' + 4 \<le> off \<or> off + 4 \<le> o' \<Longrightarrow>
     u32_at (put_u32 buf off v) o' = u32_at buf o'"
  by (simp_all add: u32_at_def bytes_at_put_other)

lemma get8_put_other [codec_simps]:
  "off + 1 \<le> length buf \<Longrightarrow> o' + 1 \<le> off \<or> off + 1 \<le> o' \<Longrightarrow>
     u8_at (put_u8 buf off v) o' = u8_at buf o'"
  "off + 2 \<le> length buf \<Longrightarrow> o' + 1 \<le> off \<or> off + 2 \<le> o' \<Longrightarrow>
     u8_at (put_u16 buf off v) o' = u8_at buf o'"
  "off + 4 \<le> length buf \<Longrightarrow> o' + 1 \<le> off \<or> off + 4 \<le> o' \<Longrightarrow>
     u8_at (put_u32 buf off v) o' = u8_at buf o'"
  by (simp_all add: u8_at_def bytes_at_put_other)

section \<open>Errors and results\<close>

datatype err =
    ErrIO
  | ErrReadOnlyReader
  | ErrTooLarge
  | ErrOutOfBounds
  | ErrNotExist
  | ErrBadMagic
  | ErrLogBlockSize
  | ErrBlocksPerGroup
  | ErrInodesPerGroup
  | ErrInodeSize
  | ErrUnstable
  | ErrInodeInvalid
  | ErrInodeRange
  | ErrExtentShort
  | ErrExtentDepth
  | ErrExtentMagic
  | ErrExtentIndexRange
  | ErrTooManyExtents
  | ErrInlineUnsupported
  | ErrBlockMapUnsupported
  | ErrNoExtents
  | ErrDataBlockRange
  | ErrBlockMapSize
  | ErrClosed
  | ErrEOF
  | ErrNegOffset
  | ErrNegSize
  | ErrOverflow
  | ErrUnmapped
  | ErrEAInode
  | ErrXattrRange
  | ErrNoSystemData
  | ErrInlineOverflow
  | ErrNotRegular
  | ErrNotDir
  | ErrNotSymlink
  | ErrSymlinkLoop
  | ErrInvalidPath
  | ErrTrailingSlash
  | ErrExist
  | ErrNoFreeInode
  | ErrNoFreeBlocks
  | ErrAllocTable
  | ErrSizeRange
  | ErrNotSupported
  | ErrResize
  | ErrMkdirExists
  | ErrEmptyTarget
  | ErrTargetTooLong
  | ErrLinkDir
  | ErrReplaceNonDir
  | ErrReplaceDir
  | ErrLabelTooLong
  | ErrNoTable
  | ErrPartition
  | ErrNoPartition
  | ErrTxBlockSize
  | ErrTxState
  | ErrJournalClosed
  | ErrJournalFormat
  | ErrUnexpectedEOF
  | Panic

type_synonym 'a result = "err + 'a"
type_synonym ('s, 'a) io = "'s \<Rightarrow> 'a result \<times> 's"

definition res_bind :: "'a result \<Rightarrow> ('a \<Rightarrow> 'b result) \<Rightarrow> 'b result" where
  "res_bind m k = (case m of Inl e \<Rightarrow> Inl e | Inr x \<Rightarrow> k x)"

definition io_bind :: "('s, 'a) io \<Rightarrow> ('a \<Rightarrow> ('s, 'b) io) \<Rightarrow> ('s, 'b) io" where
  "io_bind m k s = (case m s of (Inl e, s') \<Rightarrow> (Inl e, s') | (Inr x, s') \<Rightarrow> k x s')"

definition io_return :: "'a \<Rightarrow> ('s, 'a) io" where
  "io_return x s = (Inr x, s)"

definition io_fail :: "err \<Rightarrow> ('s, 'a) io" where
  "io_fail e s = (Inl e, s)"

definition io_lift :: "('s \<Rightarrow> 'a result) \<Rightarrow> ('s, 'a) io" where
  "io_lift f s = (f s, s)"

lemma res_bind_simps [simp]:
  "res_bind (Inl e) k = Inl e"
  "res_bind (Inr x) k = k x"
  by (simp_all add: res_bind_def)

lemma res_bind_Inr_iff:
  "res_bind m k = Inr y \<longleftrightarrow> (\<exists>x. m = Inr x \<and> k x = Inr y)"
  by (cases m) auto

lemma res_bind_Inl_iff:
  "res_bind m k = Inl e \<longleftrightarrow> m = Inl e \<or> (\<exists>x. m = Inr x \<and> k x = Inl e)"
  by (cases m) auto

lemma io_bind_Inr_iff:
  "io_bind m k s = (Inr y, s') \<longleftrightarrow> (\<exists>x s1. m s = (Inr x, s1) \<and> k x s1 = (Inr y, s'))"
  by (auto simp: io_bind_def split: prod.splits sum.splits)

lemma io_simps [simp]:
  "io_return x s = (Inr x, s)"
  "io_fail e s = (Inl e, s)"
  "io_lift f s = (f s, s)"
  by (simp_all add: io_return_def io_fail_def io_lift_def)

lemma io_bind_simps [simp]:
  "m s = (Inr x, s1) \<Longrightarrow> io_bind m k s = k x s1"
  "m s = (Inl e, s1) \<Longrightarrow> io_bind m k s = (Inl e, s1)"
  by (simp_all add: io_bind_def)

text \<open>
  A predicate on the state that the steps of a program keep is kept by their sequence,
  whether or not a step fails.
\<close>

definition io_keeps :: "('s \<Rightarrow> bool) \<Rightarrow> ('s, 'a) io \<Rightarrow> bool" where
  "io_keeps P m \<longleftrightarrow> (\<forall>s. P s \<longrightarrow> P (snd (m s)))"

lemma io_keeps_bind [intro]:
  "io_keeps P m \<Longrightarrow> (\<And>x. io_keeps P (k x)) \<Longrightarrow> io_keeps P (io_bind m k)"
  by (fastforce simp: io_keeps_def io_bind_def split: prod.splits sum.splits)

lemma io_keeps_basic [intro, simp]:
  "io_keeps P (io_return x)"
  "io_keeps P (io_fail e)"
  "io_keeps P (io_lift f)"
  by (simp_all add: io_keeps_def)

end
