(* ===== verification/Device.thy ===== *)
theory Device
  imports Prelude
begin

text \<open>
  The block device below the driver: \<open>blockdevice.go\<close> (\<open>osFileDevice\<close>) and
  \<open>openreader.go\<close> (\<open>readerDevice\<close>, \<open>ErrReadOnlyReader\<close>).  A device is a size, the bytes
  below it, and what its write side is.  \<open>ReadAt\<close> of \<open>os.File\<close> and of any
  \<open>io.ReaderAt\<close> fails on a negative offset and when fewer than \<open>len(p)\<close> bytes are there
  (\<open>io.EOF\<close>); no caller uses the partial count.  \<open>WriteAt\<close> past the end extends the file with
  a hole of zeros.  A writable device performs every write at a non-negative offset completely:
  a write that fails or stops short on a writable device (a full disk, a failing medium) is not
  represented, and a property of a failed operation is about the refusals of a read-only or too
  short device.  The crash property of the journal models torn writes on its own.  The interface the rest of the driver relies on is the locale
  \<open>block_store\<close>, interpreted on these definitions.
\<close>

section \<open>State and operations\<close>

datatype write_side = OsFile | ReaderWriterAt | ReaderOnly

record device =
  dev_size :: nat
  dev_byte :: "nat \<Rightarrow> byte"
  dev_side :: write_side

definition dev_writable :: "device \<Rightarrow> bool" where
  "dev_writable d \<longleftrightarrow> dev_side d \<noteq> ReaderOnly"

definition ReadAt :: "device \<Rightarrow> int \<Rightarrow> nat \<Rightarrow> byte list result" where
  "ReadAt d off n =
    (if off < 0 then Inl ErrIO
     else if n = 0 then Inr []
     else if dev_size d < nat off + n then Inl ErrIO
     else Inr (map (dev_byte d) [nat off..<nat off + n]))"

definition dev_store :: "device \<Rightarrow> nat \<Rightarrow> byte list \<Rightarrow> device" where
  "dev_store d off data =
    d\<lparr>dev_size := (if data = [] then dev_size d else max (dev_size d) (off + length data)),
      dev_byte := (\<lambda>i. if off \<le> i \<and> i < off + length data then data ! (i - off)
                       else if i < dev_size d then dev_byte d i else 0)\<rparr>"

definition WriteAt :: "int \<Rightarrow> byte list \<Rightarrow> (device, nat) io" where
  "WriteAt off data d =
    (if \<not> dev_writable d then (Inl ErrReadOnlyReader, d)
     else if off < 0 then (Inl ErrIO, d)
     else (Inr (length data), dev_store d (nat off) data))"

definition Size :: "device \<Rightarrow> int" where
  "Size d = int (dev_size d)"

definition Truncate :: "int \<Rightarrow> (device, unit) io" where
  "Truncate sz d =
    (case dev_side d of
       OsFile \<Rightarrow>
         if sz < 0 then (Inl ErrIO, d)
         else (Inr (), d\<lparr>dev_size := nat sz,
                         dev_byte := (\<lambda>i. if i < dev_size d \<and> i < nat sz then dev_byte d i else 0)\<rparr>)
     | _ \<Rightarrow> (Inl ErrReadOnlyReader, d))"

section \<open>Reading and writing\<close>

lemma ReadAt_length: "ReadAt d off n = Inr b \<Longrightarrow> length b = n"
  by (auto simp: ReadAt_def split: if_splits)

lemma ReadAt_Inr_iff:
  "ReadAt d off n = Inr b \<longleftrightarrow>
     0 \<le> off \<and> (n = 0 \<or> nat off + n \<le> dev_size d) \<and> b = map (dev_byte d) [nat off..<nat off + n]"
  by (auto simp: ReadAt_def)

lemma ReadAt_error: "ReadAt d off n = Inl e \<Longrightarrow> e = ErrIO"
  by (auto simp: ReadAt_def split: if_splits)

lemma WriteAt_Inr_iff:
  "WriteAt off data d = (Inr k, d') \<longleftrightarrow>
     dev_writable d \<and> 0 \<le> off \<and> k = length data \<and> d' = dev_store d (nat off) data"
  by (auto simp: WriteAt_def)

lemma dev_store_writable [simp]: "dev_writable (dev_store d off data) = dev_writable d"
  by (simp add: dev_store_def dev_writable_def)

lemma dev_store_size_mono: "dev_size d \<le> dev_size (dev_store d off data)"
  by (simp add: dev_store_def)

lemma dev_store_size_inside:
  "off + length data \<le> dev_size d \<Longrightarrow> dev_size (dev_store d off data) = dev_size d"
  by (simp add: dev_store_def)

lemma ReadAt_store_same:
  "ReadAt (dev_store d (nat off) data) off (length data) = Inr data" if "0 \<le> off"
proof -
  have "map (dev_byte (dev_store d (nat off) data)) [nat off..<nat off + length data] = data"
    by (rule nth_equalityI) (simp_all add: dev_store_def)
  with that show ?thesis
    by (auto simp: ReadAt_Inr_iff dev_store_def)
qed

lemma ReadAt_store_other:
  assumes "ReadAt d o' n = Inr b" and "o' + int n \<le> off \<or> off + int (length data) \<le> o'"
    and "0 \<le> off"
  shows "ReadAt (dev_store d (nat off) data) o' n = Inr b"
  using assms by (auto simp: ReadAt_Inr_iff dev_store_def)

lemma bytes_at_map_upt [simp]:
  "a + off + n \<le> b \<Longrightarrow> bytes_at (map f [a..<b]) off n = map f [a + off..<a + off + n]"
  by (simp add: bytes_at_def drop_map take_map)

section \<open>The interface\<close>

text \<open>
  What the upper layers use of a device.  \<open>wr_all\<close> applies a list of writes in order and
  stops at the first error; the lemmas say that a batch of writes to pairwise disjoint
  ranges reads back range by range, and leaves every range disjoint from all of them alone.
\<close>

locale block_store =
  fixes rd :: "'d \<Rightarrow> int \<Rightarrow> nat \<Rightarrow> byte list result"
    and wr :: "int \<Rightarrow> byte list \<Rightarrow> ('d, nat) io"
  assumes read_back: "wr off data d = (Inr k, d') \<Longrightarrow> rd d' off (length data) = Inr data"
    and read_frame: "wr off data d = (Inr k, d') \<Longrightarrow> rd d o' n = Inr b \<Longrightarrow>
      o' + int n \<le> off \<or> off + int (length data) \<le> o' \<Longrightarrow> rd d' o' n = Inr b"
    and write_error: "wr off data d = (Inl e, d') \<Longrightarrow> d' = d"
begin

primrec wr_all :: "(int \<times> byte list) list \<Rightarrow> ('d, unit) io" where
  "wr_all [] = io_return ()"
| "wr_all (w # ws) = io_bind (wr (fst w) (snd w)) (\<lambda>_. wr_all ws)"

definition apart :: "int \<times> byte list \<Rightarrow> int \<times> byte list \<Rightarrow> bool" where
  "apart v w \<longleftrightarrow> fst v + int (length (snd v)) \<le> fst w \<or> fst w + int (length (snd w)) \<le> fst v"

lemma wr_all_frame:
  assumes "wr_all ws d = (Inr (), d')" "rd d o' n = Inr b"
    "\<forall>w\<in>set ws. o' + int n \<le> fst w \<or> fst w + int (length (snd w)) \<le> o'"
  shows "rd d' o' n = Inr b"
  using assms
proof (induction ws arbitrary: d)
  case (Cons w ws)
  then obtain k d1 where "wr (fst w) (snd w) d = (Inr k, d1)" "wr_all ws d1 = (Inr (), d')"
    by (auto simp: io_bind_Inr_iff)
  with Cons show ?case
    by (auto intro: read_frame)
qed simp

lemma wr_all_read_back:
  assumes "wr_all ws d = (Inr (), d')" "sorted_wrt apart ws" "w \<in> set ws"
  shows "rd d' (fst w) (length (snd w)) = Inr (snd w)"
  using assms
proof (induction ws arbitrary: d)
  case (Cons v ws)
  then obtain k d1 where d1: "wr (fst v) (snd v) d = (Inr k, d1)" "wr_all ws d1 = (Inr (), d')"
    by (auto simp: io_bind_Inr_iff)
  show ?case
  proof (cases "w \<in> set ws")
    case True
    with Cons d1 show ?thesis by auto
  next
    case False
    with Cons have "w = v" by auto
    moreover have "rd d1 (fst v) (length (snd v)) = Inr (snd v)"
      using d1 by (blast intro: read_back)
    ultimately show ?thesis
      using Cons.prems d1 by (auto intro!: wr_all_frame [OF d1(2)] simp: apart_def)
  qed
qed simp

end

interpretation dv: block_store ReadAt WriteAt
  by unfold_locales
    (auto simp: WriteAt_Inr_iff ReadAt_store_same ReadAt_store_other
          simp: WriteAt_def split: if_splits)

lemma WriteAt_Inr_unless:
  "dev_writable d \<Longrightarrow> 0 \<le> off \<Longrightarrow> WriteAt off data d = (Inr (length data), dev_store d (nat off) data)"
  by (simp add: WriteAt_def)

end
