(* ===== verification/Superblock.thy ===== *)
theory Superblock
  imports Device
begin

text \<open>
  \<open>checksum.go\<close>, \<open>superblock.go\<close>, the label codec of \<open>label.go\<close> and the feature bits of
  \<open>ext4.go\<close>: the CRC-32C of the metadata, the decoded superblock, its decoder with the
  validation of hostile fields, its encoder, and the group geometry derived from it.
\<close>

section \<open>CRC-32C\<close>

text \<open>
  One bit of the reflected Castagnoli polynomial, one byte, and \<open>crc32.Update\<close> of
  \<open>hash/crc32\<close>, which complements on the way in and on the way out.
\<close>

definition crc_bit :: "u32 \<Rightarrow> u32" where
  "crc_bit c = (let h = c div 2 in if odd c then h XOR 0x82F63B78 else h)"

definition crc_byte :: "u32 \<Rightarrow> byte \<Rightarrow> u32" where
  "crc_byte c b =
    crc_bit (crc_bit (crc_bit (crc_bit (crc_bit (crc_bit (crc_bit (crc_bit (c XOR unat b))))))))"

definition crc32_Update :: "u32 \<Rightarrow> byte list \<Rightarrow> u32" where
  "crc32_Update crc data = not32 (foldl crc_byte (not32 crc) data)"

definition crc32c :: "u32 \<Rightarrow> byte list \<Rightarrow> u32" where
  "crc32c crc data = not32 (crc32_Update (not32 crc) data)"

section \<open>Feature bits\<close>

abbreviation (input) FeatIncompat64bit :: nat where "FeatIncompat64bit \<equiv> 0x80"
abbreviation (input) FeatIncompatCsumSeed :: nat where "FeatIncompatCsumSeed \<equiv> 0x2000"
abbreviation (input) FeatIncompatInlineData :: nat where "FeatIncompatInlineData \<equiv> 0x8000"
abbreviation (input) FeatROCompatSparseSuper :: nat where "FeatROCompatSparseSuper \<equiv> 0x1"
abbreviation (input) FeatROCompatMetadataCsum :: nat where "FeatROCompatMetadataCsum \<equiv> 0x400"
abbreviation (input) InodeFlagHashIndex :: nat where "InodeFlagHashIndex \<equiv> 0x1000"
abbreviation (input) InodeFlagExtents :: nat where "InodeFlagExtents \<equiv> 0x80000"
abbreviation (input) InodeFlagInlineData :: nat where "InodeFlagInlineData \<equiv> 0x10000000"
abbreviation (input) ExtentMagic :: nat where "ExtentMagic \<equiv> 0xF30A"
abbreviation (input) RootIno :: nat where "RootIno \<equiv> 2"
abbreviation (input) FtUnknown :: nat where "FtUnknown \<equiv> 0"
abbreviation (input) FtRegFile :: nat where "FtRegFile \<equiv> 1"
abbreviation (input) FtDir :: nat where "FtDir \<equiv> 2"
abbreviation (input) FtSymlink :: nat where "FtSymlink \<equiv> 7"
abbreviation (input) FtDirTail :: nat where "FtDirTail \<equiv> 0xDE"
abbreviation (input) superblockSize :: nat where "superblockSize \<equiv> 1024"
abbreviation (input) MaxLabelLen :: nat where "MaxLabelLen \<equiv> 16"

section \<open>The superblock\<close>

record superblock =
  sb_raw :: "byte list"
  InodesCount :: u32
  BlocksCount :: u64
  FreeBlocksCount :: u64
  FreeInodesCount :: u32
  FirstDataBlock :: u32
  BlockSize :: u32
  BlocksPerGroup :: u32
  InodesPerGroup :: u32
  Magic :: u16
  FeatureIncompat :: u32
  FeatureROCompat :: u32
  UUID :: "byte list"
  Label :: "byte list"
  InodeSize :: u16
  DescSize :: u16
  LogGroupsPerFlex :: u8
  ChecksumSeed :: u32
  ChecksumType :: u8
  maxRead :: int
  deviceBytes :: int

definition decodeNullPadded :: "byte list \<Rightarrow> byte list" where
  "decodeNullPadded b = rev (dropWhile (\<lambda>c. c = 0) (rev b))"

definition decode_InodeSize :: "byte list \<Rightarrow> u16" where
  "decode_InodeSize raw = (if u16_at raw 88 = 0 then 128 else u16_at raw 88)"

definition decode_DescSize :: "byte list \<Rightarrow> u16" where
  "decode_DescSize raw =
    (let d = u16_at raw 0xFE in if d = 0 \<or> d < 32 then 32 else d)"

definition decode_superblock :: "byte list \<Rightarrow> superblock result" where
  "decode_superblock raw =
    (if u16_at raw 56 \<noteq> 0xEF53 then Inl ErrBadMagic
     else let logBlockSize = u32_at raw 24 in
     if logBlockSize > 6 then Inl ErrLogBlockSize
     else let bsize = push_bit logBlockSize 1024 in
     if u32_at raw 32 = 0 then Inl ErrBlocksPerGroup
     else if u32_at raw 40 = 0 then Inl ErrInodesPerGroup
     else let isize = decode_InodeSize raw in
     if isize < 128 \<or> isize AND (isize - 1) \<noteq> 0 \<or> isize > bsize then Inl ErrInodeSize
     else Inr \<lparr>sb_raw = raw,
          InodesCount = u32_at raw 0,
          BlocksCount = join32 (u32_at raw 0x150) (u32_at raw 4),
          FreeBlocksCount = join32 (u32_at raw 0x158) (u32_at raw 12),
          FreeInodesCount = u32_at raw 16,
          FirstDataBlock = u32_at raw 20,
          BlockSize = bsize,
          BlocksPerGroup = u32_at raw 32,
          InodesPerGroup = u32_at raw 40,
          Magic = u16_at raw 56,
          FeatureIncompat = u32_at raw 96,
          FeatureROCompat = u32_at raw 100,
          UUID = bytes_at raw 104 16,
          Label = decodeNullPadded (bytes_at raw 120 16),
          InodeSize = isize,
          DescSize = decode_DescSize raw,
          LogGroupsPerFlex = u8_at raw 0x174,
          ChecksumSeed = u32_at raw 0x270,
          ChecksumType = u8_at raw 0x175,
          maxRead = 0,
          deviceBytes = 0\<rparr>)"

definition readSuperblock :: "device \<Rightarrow> int \<Rightarrow> superblock result" where
  "readSuperblock f fsOffset =
    res_bind (ReadAt f (i64 (fsOffset + 1024)) superblockSize) decode_superblock"

definition put_sb_csum :: "byte list \<Rightarrow> byte list" where
  "put_sb_csum raw =
    (let raw0 = put_u32 raw 0x3FC 0
     in put_u32 raw0 0x3FC (crc32c 0xFFFFFFFF (take 0x3FC raw0)))"

definition encodeRaw :: "superblock \<Rightarrow> superblock" where
  "encodeRaw sb =
    (let raw1 = put_u32 (sb_raw sb) 4 (BlocksCount sb AND 0xFFFFFFFF);
         raw2 = put_u32 raw1 0x150 (w32 (drop_bit 32 (BlocksCount sb)));
         raw3 = put_u32 raw2 12 (FreeBlocksCount sb AND 0xFFFFFFFF);
         raw4 = put_u32 raw3 0x158 (w32 (drop_bit 32 (FreeBlocksCount sb)));
         raw5 = put_u32 raw4 16 (FreeInodesCount sb)
     in sb\<lparr>sb_raw := (if has_flag (FeatureROCompat sb) FeatROCompatMetadataCsum
                      then put_sb_csum raw5 else raw5)\<rparr>)"

definition numBlockGroups :: "superblock \<Rightarrow> u32" where
  "numBlockGroups sb =
    w32 (sub64 (w64 (BlocksCount sb + BlocksPerGroup sb)) 1 div BlocksPerGroup sb)"

definition bgdTableBlock :: "superblock \<Rightarrow> u64" where
  "bgdTableBlock sb = (if BlockSize sb > 1024 then 1 else 2)"

definition csumSeed :: "superblock \<Rightarrow> u32" where
  "csumSeed sb =
    (if has_flag (FeatureIncompat sb) FeatIncompatCsumSeed then ChecksumSeed sb
     else crc32c 0xFFFFFFFF (UUID sb))"

text \<open>
  The loop \<open>for p < g { p *= base }\<close> on \<open>uint32\<close>: the multiplication wraps, so the loop is
  a partial function here and its termination is a theorem below.
\<close>

partial_function (option) pow_loop :: "u32 \<Rightarrow> u32 \<Rightarrow> u32 \<Rightarrow> u32 option" where
  "pow_loop base g p = (if p < g then pow_loop base g (w32 (p * base)) else Some p)"

declare pow_loop.simps [code]

primrec sparse_bases :: "u32 \<Rightarrow> u32 list \<Rightarrow> bool option" where
  "sparse_bases g [] = Some False"
| "sparse_bases g (base # bases) =
    (case pow_loop base g base of
       None \<Rightarrow> None
     | Some p \<Rightarrow> if p = g then Some True else sparse_bases g bases)"

definition groupIsSparseBackup :: "u32 \<Rightarrow> bool option" where
  "groupIsSparseBackup g =
    (if g \<le> 1 then Some True
     else if g AND 1 = 0 then Some False
     else sparse_bases g [3, 5, 7])"

definition isSparseSuperGroup :: "superblock \<Rightarrow> u32 \<Rightarrow> bool option" where
  "isSparseSuperGroup sb g =
    (if \<not> has_flag (FeatureROCompat sb) FeatROCompatSparseSuper then Some True
     else groupIsSparseBackup g)"

section \<open>Facts on the checksum\<close>

lemma xor_less_2_32: "a < 4294967296 \<Longrightarrow> b < 4294967296 \<Longrightarrow> a XOR b < (4294967296 :: nat)"
  using XOR_upper [of "int a" 32 "int b"]
  by (simp add: of_nat_xor_eq [symmetric])

lemma crc_bit_less: "c < 4294967296 \<Longrightarrow> crc_bit c < 4294967296"
  by (auto simp: crc_bit_def Let_def intro!: xor_less_2_32)

lemma crc_byte_less: "c < 4294967296 \<Longrightarrow> crc_byte c b < 4294967296"
proof -
  have "unat b < 4294967296"
    by (rule less_trans [OF unsigned_less]) simp
  then show "c < 4294967296 \<Longrightarrow> ?thesis"
    unfolding crc_byte_def by (intro crc_bit_less xor_less_2_32)
qed

lemma foldl_crc_less: "c < 4294967296 \<Longrightarrow> foldl crc_byte c data < 4294967296"
  by (induction data arbitrary: c) (auto intro: crc_byte_less)

lemma crc32c_raw: "crc < 4294967296 \<Longrightarrow> crc32c crc data = foldl crc_byte crc data"
  by (simp add: crc32c_def crc32_Update_def foldl_crc_less)

lemma crc32c_less [simp]: "crc32c crc data < 4294967296"
  by (simp add: crc32c_def)

lemma crc32c_chain_aux:
  "crc < 4294967296 \<Longrightarrow> crc32c (crc32c crc a) b = crc32c crc (a @ b)"
  by (simp add: crc32c_raw foldl_crc_less)

text \<open>
  What the checksum is: the remainder of a polynomial division over the field of two elements.
  A polynomial is the list of its coefficients, highest first; \<open>long_rem\<close> is schoolbook long
  division by a monic polynomial, of which \<open>g\<close> holds the coefficients below the leading one.
\<close>

fun add_front :: "bool list \<Rightarrow> bool list \<Rightarrow> bool list" where
  "add_front (x # xs) (y # ys) = (x \<noteq> y) # add_front xs ys"
| "add_front _ ys = ys"

lemma length_add_front [simp]: "length (add_front xs ys) = length ys"
  by (induction xs ys rule: add_front.induct) simp_all

fun long_rem :: "bool list \<Rightarrow> bool list \<Rightarrow> bool list" where
  "long_rem g [] = []"
| "long_rem g (b # bs) = (if length bs < length g then b # bs else long_rem g (if b then add_front g bs else bs))"

declare long_rem.simps(2) [simp del]

text \<open>The Castagnoli polynomial, by the exponents of its terms below \<open>x^32\<close>.\<close>

definition castagnoli_poly :: "bool list" where
  "castagnoli_poly = map (\<lambda>k. k \<in> {28, 27, 26, 25, 23, 22, 20, 19, 18, 14, 13, 11, 10, 9, 8, 6, 0}) (rev [0..<32])"

text \<open>Bit 0 of a byte of the message, or of the register, belongs to the highest power.\<close>

definition reg_bits :: "u32 \<Rightarrow> bool list" where
  "reg_bits c = map (bit c) [0..<32]"

definition message_bits :: "byte list \<Rightarrow> bool list" where
  "message_bits data = concat (map (\<lambda>b. map (bit b) [0..<8]) data)"

definition crc_in :: "u32 \<Rightarrow> bool \<Rightarrow> u32" where
  "crc_in c b = (if odd c \<noteq> b then (c div 2) XOR 0x82F63B78 else c div 2)"

lemma crc_bit_in: "crc_bit (c XOR n) = crc_in c (odd n) XOR (n div 2)"
proof -
  have "(c XOR n) div 2 = (c div 2) XOR (n div 2)"
    by (rule bit_eqI) (simp add: bit_xor_iff flip: bit_Suc)
  moreover have "odd (c XOR n) \<longleftrightarrow> odd c \<noteq> odd n"
    using bit_xor_iff [of c n 0] by (simp add: bit_0)
  ultimately show ?thesis
    by (simp add: crc_bit_def crc_in_def Let_def ac_simps)
qed

lemma crc_bits_in: "(crc_bit ^^ k) (c XOR n) = foldl crc_in c (map (bit n) [0..<k]) XOR (n div 2 ^ k)"
proof (induction k)
  case (Suc k)
  have "odd (n div 2 ^ k) \<longleftrightarrow> bit n k" "n div 2 ^ k div 2 = n div 2 ^ Suc k"
    by (simp_all add: bit_iff_odd mult.commute flip: div_mult2_eq)
  with Suc show ?case
    by (simp add: crc_bit_in)
qed simp

lemma crc_byte_in: "crc_byte c b = foldl crc_in c (map (bit b) [0..<8])"
proof -
  have "unat b div 2 ^ 8 = 0"
    using unsigned_less [of b, where 'a = nat] by simp
  then have "(crc_bit ^^ 8) (c XOR unat b) = foldl crc_in c (map (bit (unat b)) [0..<8])"
    by (simp only: crc_bits_in xor.right_neutral)
  moreover have "map (bit (unat b)) [0..<8] = map (bit b) [0..<8]"
    by (intro map_cong refl) (simp add: bit_unsigned_iff)
  moreover have "crc_byte c b = (crc_bit ^^ 8) (c XOR unat b)"
    by (simp add: crc_byte_def numeral_eq_Suc)
  ultimately show ?thesis
    by (simp only:)
qed

lemma crc_bytes_in: "foldl crc_byte c data = foldl crc_in c (message_bits data)"
  by (induction data arbitrary: c) (simp_all add: message_bits_def crc_byte_in)

lemma crc_in_less: "c < 4294967296 \<Longrightarrow> crc_in c b < 4294967296"
  by (auto simp: crc_in_def intro!: xor_less_2_32)

lemma add_front_twice: "length xs = length ys \<Longrightarrow> add_front xs (add_front ys zs) = add_front (map2 (\<noteq>) xs ys) zs"
proof (induction xs ys arbitrary: zs rule: list_induct2)
  case (Cons x xs y ys)
  then show ?case
    by (cases zs) auto
qed simp

lemma add_front_False: "add_front (xs @ [False]) ys = add_front xs ys"
proof (induction xs arbitrary: ys)
  case Nil
  then show ?case
    by (cases ys) simp_all
next
  case (Cons x xs)
  then show ?case
    by (cases ys) simp_all
qed

lemma reg_bits_split:
  assumes "c < 4294967296"
  shows "reg_bits c = odd c # map (bit (c div 2)) [0..<31]" "reg_bits (c div 2) = map (bit (c div 2)) [0..<31] @ [False]"
proof -
  have "reg_bits c = map (bit c) (0 # map Suc [0..<31])"
    by (simp add: reg_bits_def upt_conv_Cons map_Suc_upt)
  then show "reg_bits c = odd c # map (bit (c div 2)) [0..<31]"
    by (simp add: bit_0 bit_Suc comp_def)
  have "\<not> bit (c div 2) 31"
    using assms by (simp add: bit_iff_odd)
  then show "reg_bits (c div 2) = map (bit (c div 2)) [0..<31] @ [False]"
    by (simp add: reg_bits_def upt_Suc [of 0 31, simplified])
qed

lemma reg_bits_poly: "reg_bits (0x82F63B78 XOR c) = map2 (\<noteq>) castagnoli_poly (reg_bits c)"
proof -
  have "castagnoli_poly = reg_bits 0x82F63B78"
    by code_simp
  then have "map2 (\<noteq>) castagnoli_poly (reg_bits c) = map2 (\<noteq>) (map (bit (0x82F63B78 :: nat)) [0..<32]) (map (bit c) [0..<32])"
    by (simp only: reg_bits_def)
  also have "\<dots> = map (\<lambda>i. bit (0x82F63B78 :: nat) i \<noteq> bit c i) [0..<32]"
    by (rule map2_map_map)
  also have "\<dots> = reg_bits (0x82F63B78 XOR c)"
    unfolding reg_bits_def by (intro map_cong refl) (simp only: bit_xor_iff)
  finally show ?thesis
    by (rule sym)
qed

lemma reg_bits_in:
  assumes "c < 4294967296" "32 \<le> length ys"
  shows "long_rem castagnoli_poly (add_front (reg_bits c) (b # ys)) = long_rem castagnoli_poly (add_front (reg_bits (crc_in c b)) ys)"
proof -
  have g: "length castagnoli_poly = 32" "length (reg_bits x) = 32" for x
    by (simp_all add: castagnoli_poly_def reg_bits_def)
  have "add_front (reg_bits c) (b # ys) = (odd c \<noteq> b) # add_front (reg_bits (c div 2)) ys"
    by (simp add: reg_bits_split [OF assms(1)] add_front_False)
  moreover have "add_front castagnoli_poly (add_front (reg_bits (c div 2)) ys) = add_front (reg_bits ((c div 2) XOR 0x82F63B78)) ys"
    using reg_bits_poly [of "c div 2"] g by (simp add: add_front_twice ac_simps)
  ultimately show ?thesis
    using assms(2) g by (simp add: long_rem.simps(2) crc_in_def)
qed

lemma add_front_zeros: "length xs = n \<Longrightarrow> add_front xs (replicate n False) = xs"
  by (induction xs arbitrary: n) auto

lemma crc_rem:
  "c < 4294967296 \<Longrightarrow> reg_bits (foldl crc_in c m) = long_rem castagnoli_poly (add_front (reg_bits c) (m @ replicate 32 False))"
proof (induction m arbitrary: c)
  case Nil
  have "length (reg_bits c) = 32" "length castagnoli_poly = 32"
    by (simp_all add: reg_bits_def castagnoli_poly_def)
  moreover from this obtain x xs where "reg_bits c = x # xs" "length xs < length castagnoli_poly"
    by (cases "reg_bits c") auto
  ultimately show ?case
    by (simp add: add_front_zeros long_rem.simps(2))
next
  case (Cons b m)
  then show ?case
    using reg_bits_in [OF Cons.prems, of "m @ replicate 32 False" b] crc_in_less by simp
qed

section \<open>Facts on the decoder and the encoder\<close>

definition sb_wf :: "superblock \<Rightarrow> bool" where
  "sb_wf sb \<longleftrightarrow>
     BlockSize sb \<in> {1024, 2048, 4096, 8192, 16384, 32768, 65536}
   \<and> 0 < BlocksPerGroup sb \<and> BlocksPerGroup sb < 4294967296
   \<and> 0 < InodesPerGroup sb \<and> InodesPerGroup sb < 4294967296
   \<and> 128 \<le> InodeSize sb \<and> InodeSize sb \<le> BlockSize sb
   \<and> InodeSize sb AND (InodeSize sb - 1) = 0 \<and> InodeSize sb < 65536
   \<and> 32 \<le> DescSize sb \<and> DescSize sb < 65536
   \<and> BlocksCount sb < 18446744073709551616 \<and> FreeBlocksCount sb < 18446744073709551616
   \<and> InodesCount sb < 4294967296 \<and> FreeInodesCount sb < 4294967296
   \<and> FirstDataBlock sb < 4294967296"

lemma join32_less [simp]:
  "hi < 4294967296 \<Longrightarrow> lo < 4294967296 \<Longrightarrow> join32 hi lo < 18446744073709551616"
  by (simp add: join32_eq)

lemma push_bit_1024:
  "k \<le> 6 \<Longrightarrow> push_bit k (1024 :: nat) \<in> {1024, 2048, 4096, 8192, 16384, 32768, 65536}"
proof -
  assume "k \<le> 6"
  then have "k \<in> {0, 1, 2, 3, 4, 5, 6}"
    by auto
  then show ?thesis
    by (auto simp: push_bit_eq_mult)
qed

lemma decode_size_bounds:
  "decode_InodeSize raw < 65536" "32 \<le> decode_DescSize raw" "decode_DescSize raw < 65536"
  by (simp_all add: decode_InodeSize_def decode_DescSize_def Let_def)

lemma decode_superblock_wf:
  assumes "decode_superblock raw = Inr sb"
  shows "sb_wf sb"
proof -
  have "u32_at raw 24 \<le> 6" "u32_at raw 32 \<noteq> 0" "u32_at raw 40 \<noteq> 0"
    and isz: "128 \<le> decode_InodeSize raw" "decode_InodeSize raw AND (decode_InodeSize raw - 1) = 0"
      "decode_InodeSize raw \<le> push_bit (u32_at raw 24) 1024"
    using assms unfolding decode_superblock_def Let_def
    by (simp_all split: if_split_asm)
  moreover have "BlockSize sb = push_bit (u32_at raw 24) 1024" "BlocksPerGroup sb = u32_at raw 32"
    "InodesPerGroup sb = u32_at raw 40" "InodeSize sb = decode_InodeSize raw"
    "DescSize sb = decode_DescSize raw" "BlocksCount sb = join32 (u32_at raw 0x150) (u32_at raw 4)"
    "FreeBlocksCount sb = join32 (u32_at raw 0x158) (u32_at raw 12)" "InodesCount sb = u32_at raw 0"
    "FreeInodesCount sb = u32_at raw 16" "FirstDataBlock sb = u32_at raw 20"
    using assms unfolding decode_superblock_def Let_def
    by (simp_all split: if_split_asm) (drule sym, simp)+
  ultimately show ?thesis
    using push_bit_1024 [of "u32_at raw 24"] decode_size_bounds [of raw]
    unfolding sb_wf_def by simp
qed

lemma take_put_u32 [simp]:
  "n \<le> off \<Longrightarrow> off \<le> length buf \<Longrightarrow> take n (put_u32 buf off v) = take n buf"
  by (simp add: put_u32_def put_bytes_def min_def)

lemma length_put_sb_csum [simp]:
  "length raw = 1024 \<Longrightarrow> length (put_sb_csum raw) = 1024"
  by (simp add: put_sb_csum_def Let_def)

lemma length_encodeRaw [simp]:
  "length (sb_raw sb) = 1024 \<Longrightarrow> length (sb_raw (encodeRaw sb)) = 1024"
  by (simp add: encodeRaw_def Let_def)

lemma get_put_sb_csum:
  assumes "length raw = 1024"
  shows "o' + n \<le> 0x3FC \<Longrightarrow> bytes_at (put_sb_csum raw) o' n = bytes_at raw o' n"
    and "o' + 1 \<le> 0x3FC \<Longrightarrow> u8_at (put_sb_csum raw) o' = u8_at raw o'"
    and "o' + 2 \<le> 0x3FC \<Longrightarrow> u16_at (put_sb_csum raw) o' = u16_at raw o'"
    and "o' + 4 \<le> 0x3FC \<Longrightarrow> u32_at (put_sb_csum raw) o' = u32_at raw o'"
  using assms by (simp_all add: put_sb_csum_def Let_def codec_simps)

lemma put_sb_csum_valid:
  assumes "length raw = 1024"
  shows "u32_at (put_sb_csum raw) 0x3FC = crc32c 0xFFFFFFFF (take 0x3FC (put_sb_csum raw))"
  using assms by (simp add: put_sb_csum_def Let_def)

lemma and_mask32: "x AND 0xFFFFFFFF = x mod (4294967296 :: nat)"
  using take_bit_eq_mask [of 32 x] by (simp add: take_bit_eq_mod mask_eq_exp_minus_1)

definition sb_kept :: "nat \<Rightarrow> nat \<Rightarrow> bool" where
  "sb_kept o' n \<longleftrightarrow> o' + n \<le> 0x3FC \<and> (o' + n \<le> 4 \<or> 8 \<le> o') \<and> (o' + n \<le> 12 \<or> 16 \<le> o')
     \<and> (o' + n \<le> 16 \<or> 20 \<le> o') \<and> (o' + n \<le> 0x150 \<or> 0x154 \<le> o') \<and> (o' + n \<le> 0x158 \<or> 0x15C \<le> o')"

lemma bytes_at_encodeRaw:
  assumes "length (sb_raw sb) = 1024" "sb_kept o' n"
  shows "bytes_at (sb_raw (encodeRaw sb)) o' n = bytes_at (sb_raw sb) o' n"
proof -
  have fin: "bytes_at (if c then put_sb_csum raw' else raw') o' n = bytes_at raw' o' n"
    if "length raw' = 1024" for raw' c
    using that assms(2) by (simp add: get_put_sb_csum sb_kept_def)
  show ?thesis
    using assms unfolding encodeRaw_def Let_def sb_kept_def
    by (simp add: fin bytes_at_put_other del: if_split)
qed

lemma get_encodeRaw_kept:
  assumes "length (sb_raw sb) = 1024"
  shows "sb_kept o' 1 \<Longrightarrow> u8_at (sb_raw (encodeRaw sb)) o' = u8_at (sb_raw sb) o'"
    and "sb_kept o' 2 \<Longrightarrow> u16_at (sb_raw (encodeRaw sb)) o' = u16_at (sb_raw sb) o'"
    and "sb_kept o' 4 \<Longrightarrow> u32_at (sb_raw (encodeRaw sb)) o' = u32_at (sb_raw sb) o'"
  using assms by (simp_all add: u8_at_def u16_at_def u32_at_def bytes_at_encodeRaw)

lemma get_encodeRaw_counts:
  assumes "length (sb_raw sb) = 1024"
    and "BlocksCount sb < 18446744073709551616" "FreeBlocksCount sb < 18446744073709551616"
    and "FreeInodesCount sb < 4294967296"
  shows "u32_at (sb_raw (encodeRaw sb)) 4 = BlocksCount sb mod 4294967296"
    and "u32_at (sb_raw (encodeRaw sb)) 0x150 = BlocksCount sb div 4294967296"
    and "u32_at (sb_raw (encodeRaw sb)) 12 = FreeBlocksCount sb mod 4294967296"
    and "u32_at (sb_raw (encodeRaw sb)) 0x158 = FreeBlocksCount sb div 4294967296"
    and "u32_at (sb_raw (encodeRaw sb)) 16 = FreeInodesCount sb"
proof -
  have *: "BlocksCount sb div 4294967296 < 4294967296" "FreeBlocksCount sb div 4294967296 < 4294967296"
    using assms(2,3) by auto
  note s = encodeRaw_def Let_def get_put_sb_csum get_put_same get32_put_other length_put
    and_mask32 drop_bit_eq_div assms *
  show "u32_at (sb_raw (encodeRaw sb)) 4 = BlocksCount sb mod 4294967296"
    by (simp add: s)
  show "u32_at (sb_raw (encodeRaw sb)) 0x150 = BlocksCount sb div 4294967296"
    by (simp add: s)
  show "u32_at (sb_raw (encodeRaw sb)) 12 = FreeBlocksCount sb mod 4294967296"
    by (simp add: s)
  show "u32_at (sb_raw (encodeRaw sb)) 0x158 = FreeBlocksCount sb div 4294967296"
    by (simp add: s)
  show "u32_at (sb_raw (encodeRaw sb)) 16 = FreeInodesCount sb"
    by (simp add: s)
qed

lemma encodeRaw_fields:
  "encodeRaw sb = sb\<lparr>sb_raw := sb_raw (encodeRaw sb)\<rparr>"
  by (simp add: encodeRaw_def Let_def)

lemma decode_superblock_raw: "decode_superblock raw = Inr sb \<Longrightarrow> sb_raw sb = raw"
  by (auto simp: decode_superblock_def Let_def split: if_splits)

lemma encode_decode_aux:
  assumes dec: "decode_superblock raw = Inr sb0" and len: "length raw = 1024"
    and "bc < 18446744073709551616" "fb < 18446744073709551616" "fi < 4294967296"
    and sb: "sb = sb0\<lparr>BlocksCount := bc, FreeBlocksCount := fb, FreeInodesCount := fi\<rparr>"
  shows "decode_superblock (sb_raw (encodeRaw sb)) = Inr (encodeRaw sb)"
proof -
  have raw: "sb_raw sb = raw"
    using decode_superblock_raw [OF dec] sb by simp
  then have len': "length (sb_raw sb) = 1024"
    using len by simp
  define raw' where "raw' = sb_raw (encodeRaw sb)"
  note kept = get_encodeRaw_kept [OF len', folded raw'_def, unfolded raw]
    bytes_at_encodeRaw [OF len', folded raw'_def, unfolded raw]
  have counts: "u32_at raw' 4 = bc mod 4294967296" "u32_at raw' 0x150 = bc div 4294967296"
    "u32_at raw' 12 = fb mod 4294967296" "u32_at raw' 0x158 = fb div 4294967296" "u32_at raw' 16 = fi"
    using get_encodeRaw_counts [OF len', folded raw'_def] assms by simp_all
  have "decode_superblock raw' = Inr (sb\<lparr>sb_raw := raw'\<rparr>)"
    using dec unfolding sb
    by (simp add: decode_superblock_def decode_InodeSize_def decode_DescSize_def kept counts
        sb_kept_def Let_def split: if_split_asm)
      (auto simp: counts)
  then show ?thesis
    using encodeRaw_fields [of sb] by (simp add: raw'_def)
qed

section \<open>Group geometry\<close>

lemma numBlockGroups_eq:
  assumes "sb_wf sb" "0 < BlocksCount sb"
    "BlocksCount sb + BlocksPerGroup sb \<le> 18446744073709551616"
    "(BlocksCount sb + BlocksPerGroup sb - 1) div BlocksPerGroup sb < 4294967296"
  shows "numBlockGroups sb = (BlocksCount sb + BlocksPerGroup sb - 1) div BlocksPerGroup sb"
proof (cases "BlocksCount sb + BlocksPerGroup sb = 18446744073709551616")
  case True
  then show ?thesis
    using assms by (simp add: numBlockGroups_def w64_def sub64_def)
next
  case False
  with assms show ?thesis
    by (simp add: numBlockGroups_def sub64_ge)
qed

lemma ceil_div_gt:
  fixes b p g :: nat
  assumes "0 < p" "0 < b"
  shows "g < (b + p - 1) div p \<longleftrightarrow> g * p < b"
proof -
  have "g < (b + p - 1) div p \<longleftrightarrow> (g + 1) * p \<le> b + p - 1"
    using assms less_eq_div_iff_mult_less_eq [of p "g + 1" "b + p - 1"] by auto
  also have "\<dots> \<longleftrightarrow> g * p < b"
    using assms by auto
  finally show ?thesis .
qed

section \<open>The sparse_super rule\<close>

lemma pow_loop_power:
  assumes "1 < base" "base ^ n < 4294967296" "g \<le> base ^ n" "k \<le> n"
  shows "\<exists>j\<ge>k. j \<le> n \<and> pow_loop base g (base ^ k) = Some (base ^ j) \<and> g \<le> base ^ j
           \<and> (\<forall>i. k \<le> i \<and> i < j \<longrightarrow> base ^ i < g)"
  using assms(4)
proof (induction "n - k" arbitrary: k)
  case 0
  with assms show ?case
    by (intro exI [of _ k]) (auto simp: pow_loop.simps)
next
  case (Suc m)
  show ?case
  proof (cases "base ^ k < g")
    case True
    with Suc assms have k: "k < n"
      by (metis le_neq_implies_less not_less)
    then have "base ^ Suc k \<le> base ^ n"
      using assms by (intro power_increasing) auto
    with assms have step: "w32 (base ^ k * base) = base ^ Suc k"
      by (simp add: mult.commute)
    from Suc k obtain j where j: "Suc k \<le> j" "j \<le> n" "pow_loop base g (base ^ Suc k) = Some (base ^ j)"
      "g \<le> base ^ j" "\<forall>i. Suc k \<le> i \<and> i < j \<longrightarrow> base ^ i < g"
      by (metis Suc_diff_Suc Suc_inject Suc_leI)
    from True step j(3) have "pow_loop base g (base ^ k) = Some (base ^ j)"
      by (subst pow_loop.simps) simp
    with j True show ?thesis
      by (intro exI [of _ j]) (auto simp: le_Suc_eq Suc_le_eq dest: le_neq_implies_less)
  next
    case False
    with Suc show ?thesis
      by (intro exI [of _ k]) (auto simp: pow_loop.simps)
  qed
qed

lemma pow_loop_decides:
  assumes "1 < base" "base ^ n < 4294967296" "g \<le> base ^ n" "0 < n"
  shows "\<exists>p. pow_loop base g base = Some p \<and> (p = g \<longleftrightarrow> (\<exists>k>0. g = base ^ k))"
proof -
  from assms pow_loop_power [of base n g 1] obtain j where j: "1 \<le> j"
    "pow_loop base g base = Some (base ^ j)" "g \<le> base ^ j" "\<forall>i. 1 \<le> i \<and> i < j \<longrightarrow> base ^ i < g"
    by auto
  have "base ^ j = g" if "g = base ^ k" "0 < k" for k
  proof -
    from that j(3) assms(1) have "k \<le> j"
      using power_le_imp_le_exp by blast
    with j(4) that show ?thesis
      by (metis One_nat_def Suc_leI le_neq_implies_less less_irrefl)
  qed
  with j show ?thesis
    by (auto intro!: exI [of _ j])
qed

section \<open>Properties\<close>

text \<open>C1: \<open>crc32c(seed, data)\<close> is the raw reflected CRC-32C that ext4 specifies, with the start value \<open>seed\<close>
  and without any inversion: its 32 bits, lowest first, are the coefficients of the remainder of
  the polynomial \<open>seed * x^n + message * x^32\<close>, for a message of \<open>n\<close> bits with the lowest bit of
  each byte first, divided by the Castagnoli polynomial over the field of two elements.\<close>

theorem crc32c_is_remainder:
  assumes "crc < 4294967296"
  shows "reg_bits (crc32c crc data)
    = long_rem castagnoli_poly (add_front (reg_bits crc) (message_bits data @ replicate 32 False))"
  using crc_rem [OF assms] by (simp add: crc32c_raw [OF assms] crc_bytes_in)

text \<open>The check value of CRC-32C on the nine digits; ext4 keeps its complement.\<close>

theorem crc32c_is_remainder_witness:
  "reg_bits (not32 0xE3069283)
    = long_rem castagnoli_poly (add_front (replicate 32 True)
        (message_bits [0x31, 0x32, 0x33, 0x34, 0x35, 0x36, 0x37, 0x38, 0x39] @ replicate 32 False))"
proof -
  have "crc32c 0xFFFFFFFF [0x31, 0x32, 0x33, 0x34, 0x35, 0x36, 0x37, 0x38, 0x39] = not32 0xE3069283"
    by (simp add: crc32c_def crc32_Update_def not32_def crc_byte_def crc_bit_def)
  moreover have "reg_bits 0xFFFFFFFF = replicate 32 True"
    by code_simp
  ultimately show ?thesis
    using crc32c_is_remainder [of "0xFFFFFFFF" "[0x31, 0x32, 0x33, 0x34, 0x35, 0x36, 0x37, 0x38, 0x39]"] by simp
qed

text \<open>C2: a superblock that is accepted from any device at any offset is well formed: its
  block size is one of the seven legal ones, both per-group counts (divisors everywhere) are
  non-zero, the inode size is a power of two between 128 and the block size, and a descriptor
  has at least 32 bytes.\<close>

theorem readSuperblock_wf:
  assumes "readSuperblock f fsOffset = Inr sb"
  shows "sb_wf sb"
  using assms by (auto simp: readSuperblock_def res_bind_Inr_iff dest: decode_superblock_wf)

definition sample_sb_byte :: "nat \<Rightarrow> byte" where
  "sample_sb_byte i =
    (if i = 0 then 32 else if i = 4 then 64 else if i = 20 then 1 else if i = 33 then 0x20
     else if i = 40 then 32 else if i = 56 then 0x53 else if i = 57 then 0xEF
     else if i = 88 then 128 else 0)"

definition sample_image :: device where
  "sample_image = \<lparr>dev_size = 65536, dev_byte = (\<lambda>i. sample_sb_byte (i - 1024)), dev_side = OsFile\<rparr>"

definition sample_raw :: "byte list" where
  "sample_raw = map sample_sb_byte [0..<1024]"

definition sample_sb :: superblock where
  "sample_sb =
    \<lparr>sb_raw = sample_raw, InodesCount = 32, BlocksCount = 64,
     FreeBlocksCount = 0, FreeInodesCount = 0, FirstDataBlock = 1, BlockSize = 1024,
     BlocksPerGroup = 8192, InodesPerGroup = 32, Magic = 0xEF53, FeatureIncompat = 0,
     FeatureROCompat = 0, UUID = replicate 16 0, Label = [], InodeSize = 128, DescSize = 32,
     LogGroupsPerFlex = 0, ChecksumSeed = 0, ChecksumType = 0, maxRead = 0, deviceBytes = 0\<rparr>"

lemma bytes_at_sample_raw:
  "off + n \<le> 1024 \<Longrightarrow> bytes_at sample_raw off n = map sample_sb_byte [off..<off + n]"
  unfolding sample_raw_def by (subst bytes_at_map_upt) (simp_all only: add_0)

lemma decode_sample: "decode_superblock sample_raw = Inr sample_sb"
  by (simp add: decode_superblock_def decode_InodeSize_def decode_DescSize_def sample_sb_def
      u8_at_def u16_at_def u32_at_def Let_def bytes_at_sample_raw sample_sb_byte_def
      decodeNullPadded_def join32_eq)
    code_simp

lemma map_upt_shift: "map (\<lambda>i. f (i - a)) [a..<a + n] = map f [0..<n]"
  by (rule nth_equalityI) simp_all

lemma read_sample: "readSuperblock sample_image 0 = Inr sample_sb"
proof -
  have "ReadAt sample_image 1024 1024 = Inr sample_raw"
    unfolding ReadAt_Inr_iff sample_image_def sample_raw_def
    by (simp only: map_upt_shift nat_numeral device.simps) simp
  then show ?thesis
    by (simp add: readSuperblock_def decode_sample)
qed

theorem readSuperblock_wf_witness:
  "readSuperblock sample_image 0 = Inr sample_sb \<and> sb_wf sample_sb"
  using read_sample readSuperblock_wf [OF read_sample] by simp

end
