(* ===== verification/Bgd.thy ===== *)
theory Bgd
  imports Superblock
begin

text \<open>
  \<open>bgd.go\<close>: block group descriptors, their 32- and 64-byte layouts, the checksum stored in
  them, and where the descriptor of a group lies on the device.
\<close>

section \<open>Descriptor\<close>

record bgd =
  bg_raw :: "byte list"
  bg_BlockBitmapBlock :: u64
  bg_InodeBitmapBlock :: u64
  bg_InodeTableBlock :: u64
  bg_FreeBlocksCount :: u32
  bg_FreeInodesCount :: u32
  bg_UsedDirsCount :: u32
  bg_Flags :: u16

definition wide_desc :: "superblock \<Rightarrow> bool" where
  "wide_desc sb \<longleftrightarrow> has_flag (FeatureIncompat sb) FeatIncompat64bit \<and> DescSize sb \<ge> 64"

definition decodeBGD :: "byte list \<Rightarrow> superblock \<Rightarrow> bgd" where
  "decodeBGD raw sb =
    (if wide_desc sb then
       \<lparr>bg_raw = raw,
        bg_BlockBitmapBlock = join32 (u32_at raw 32) (u32_at raw 0),
        bg_InodeBitmapBlock = join32 (u32_at raw 36) (u32_at raw 4),
        bg_InodeTableBlock = join32 (u32_at raw 40) (u32_at raw 8),
        bg_FreeBlocksCount = join16 (u16_at raw 44) (u16_at raw 12),
        bg_FreeInodesCount = join16 (u16_at raw 46) (u16_at raw 14),
        bg_UsedDirsCount = join16 (u16_at raw 48) (u16_at raw 16),
        bg_Flags = u16_at raw 18\<rparr>
     else
       \<lparr>bg_raw = raw,
        bg_BlockBitmapBlock = u32_at raw 0,
        bg_InodeBitmapBlock = u32_at raw 4,
        bg_InodeTableBlock = u32_at raw 8,
        bg_FreeBlocksCount = u16_at raw 12,
        bg_FreeInodesCount = u16_at raw 14,
        bg_UsedDirsCount = u16_at raw 16,
        bg_Flags = u16_at raw 18\<rparr>)"

definition bgd_encode :: "bgd \<Rightarrow> superblock \<Rightarrow> bgd" where
  "bgd_encode d sb =
    (if wide_desc sb then
       let r1 = put_u16 (bg_raw d) 12 (bg_FreeBlocksCount d AND 0xFFFF);
           r2 = put_u16 r1 44 (w16 (drop_bit 16 (bg_FreeBlocksCount d)));
           r3 = put_u16 r2 14 (bg_FreeInodesCount d AND 0xFFFF);
           r4 = put_u16 r3 46 (w16 (drop_bit 16 (bg_FreeInodesCount d)));
           r5 = put_u16 r4 16 (bg_UsedDirsCount d AND 0xFFFF);
           r6 = put_u16 r5 48 (w16 (drop_bit 16 (bg_UsedDirsCount d)))
       in d\<lparr>bg_raw := r6\<rparr>
     else
       let r1 = put_u16 (bg_raw d) 12 (w16 (bg_FreeBlocksCount d));
           r2 = put_u16 r1 14 (w16 (bg_FreeInodesCount d));
           r3 = put_u16 r2 16 (w16 (bg_UsedDirsCount d))
       in d\<lparr>bg_raw := r3\<rparr>)"

definition bgd_csum :: "superblock \<Rightarrow> u32 \<Rightarrow> byte list \<Rightarrow> u16" where
  "bgd_csum sb g raw = w16 (crc32c (crc32c (csumSeed sb) (le_bytes 4 g)) (take (DescSize sb) raw))"

definition put_bgd_csum :: "superblock \<Rightarrow> u32 \<Rightarrow> byte list \<Rightarrow> byte list" where
  "put_bgd_csum sb g raw =
    (if has_flag (FeatureROCompat sb) FeatROCompatMetadataCsum
     then let raw0 = put_u16 raw 30 0 in put_u16 raw0 30 (bgd_csum sb g raw0)
     else raw)"

definition descOff :: "superblock \<Rightarrow> u32 \<Rightarrow> int" where
  "descOff sb g =
    i64 (i64 (int (bgdTableBlock sb) * int (BlockSize sb)) + i64 (int g * int (DescSize sb)))"

definition readBGD :: "device \<Rightarrow> int \<Rightarrow> superblock \<Rightarrow> u32 \<Rightarrow> bgd result" where
  "readBGD f fsOffset sb g =
    res_bind (ReadAt f (i64 (fsOffset + descOff sb g)) (DescSize sb))
      (\<lambda>raw. Inr (decodeBGD raw sb))"

section \<open>Facts\<close>

lemma descOff_eq:
  assumes "BlockSize sb \<le> 65536" "DescSize sb < 65536" "g < 4294967296"
  shows "descOff sb g = int (bgdTableBlock sb * BlockSize sb + g * DescSize sb)"
proof -
  have "g * DescSize sb \<le> 4294967296 * 65536" "bgdTableBlock sb * BlockSize sb \<le> 2 * 65536"
    using assms mult_le_mono [of g 4294967296 "DescSize sb" 65536] by (simp_all add: bgdTableBlock_def)
  then show ?thesis
    unfolding descOff_def
    by (simp add: i64_nat del: of_nat_mult of_nat_add flip: of_nat_mult)
qed

lemma decodeBGD_raw [simp]: "bg_raw (decodeBGD raw sb) = raw"
  by (simp add: decodeBGD_def)

lemma length_bgd_encode [simp]:
  "DescSize sb \<le> length (bg_raw d) \<Longrightarrow> 32 \<le> DescSize sb \<Longrightarrow>
     length (bg_raw (bgd_encode d sb)) = length (bg_raw d)"
  by (simp add: bgd_encode_def wide_desc_def Let_def)

lemma length_put_bgd_csum [simp]:
  "32 \<le> length raw \<Longrightarrow> length (put_bgd_csum sb g raw) = length raw"
  by (simp add: put_bgd_csum_def Let_def)

lemma and_mask16: "x AND 0xFFFF = x mod (65536 :: nat)"
  using take_bit_eq_mask [of 16 x] by (simp add: take_bit_eq_mod mask_eq_exp_minus_1)

text \<open>The counters a descriptor can hold: 32 bits in the wide layout, 16 in the narrow one.\<close>

definition desc_max :: "superblock \<Rightarrow> nat" where
  "desc_max sb = (if wide_desc sb then 4294967296 else 65536)"

lemma decode_encode_aux:
  assumes "length raw = DescSize sb" "32 \<le> DescSize sb"
    and d: "d = (decodeBGD raw sb)\<lparr>bg_FreeBlocksCount := fb, bg_FreeInodesCount := fi, bg_UsedDirsCount := ud\<rparr>"
    and "fb < desc_max sb" "fi < desc_max sb" "ud < desc_max sb"
  shows "decodeBGD (bg_raw (bgd_encode d sb)) sb = bgd_encode d sb"
proof (cases "wide_desc sb")
  case True
  then have len: "64 \<le> length raw"
    using assms by (simp add: wide_desc_def)
  have *: "fb div 65536 < 65536" "fi div 65536 < 65536" "ud div 65536 < 65536"
    using assms True by (simp_all add: desc_max_def)
  from True len show ?thesis
    unfolding d by (simp add: bgd_encode_def Let_def decodeBGD_def get16_put_other get32_put_other
      and_mask16 drop_bit_eq_div *)
next
  case False
  with assms show ?thesis
    unfolding d by (simp add: bgd_encode_def Let_def decodeBGD_def desc_max_def get16_put_other
      get32_put_other)
qed

lemma put_bgd_csum_decode:
  assumes "32 \<le> length raw"
  shows "decodeBGD (put_bgd_csum sb g raw) sb = (decodeBGD raw sb)\<lparr>bg_raw := put_bgd_csum sb g raw\<rparr>"
  using assms by (simp add: decodeBGD_def put_bgd_csum_def Let_def get16_put_other get32_put_other)

lemma put_u16_absorb:
  "off + 2 \<le> length buf \<Longrightarrow> put_u16 (put_u16 buf off v) off w = put_u16 buf off w"
  by (simp add: put_u16_def put_bytes_def)

lemma put_bgd_csum_valid_aux:
  assumes "32 \<le> length raw" "has_flag (FeatureROCompat sb) FeatROCompatMetadataCsum"
  shows "u16_at (put_bgd_csum sb g raw) 30 = bgd_csum sb g (put_u16 (put_bgd_csum sb g raw) 30 0)"
  using assms by (simp add: put_bgd_csum_def Let_def put_u16_absorb bgd_csum_def)

lemma put_bgd_csum_idem:
  "32 \<le> length raw \<Longrightarrow> put_bgd_csum sb g (put_bgd_csum sb g raw) = put_bgd_csum sb g raw"
  by (simp add: put_bgd_csum_def Let_def put_u16_absorb)

end
