(* ===== verification/Bitmap.thy ===== *)
theory Bitmap
  imports Bgd
begin

text \<open>
  The allocation bitmaps of \<open>alloc.go\<close>: setting and clearing bits, the searches
  \<open>findFreeBit\<close> and \<open>findFreeRun\<close>, the free count, and the bitmap and descriptor checksums.
  Indexing a byte past the end of the bitmap is the Go panic, so the searches return
  \<open>Inl Panic\<close> there.  The locale \<open>bit_set\<close> is the contract the allocators use.
\<close>

section \<open>Bits\<close>

definition bit_used :: "byte list \<Rightarrow> nat \<Rightarrow> bool" where
  "bit_used bm i \<longleftrightarrow> (bm ! (i div 8)) AND push_bit (i mod 8) 1 \<noteq> 0"

definition setBit :: "byte list \<Rightarrow> nat \<Rightarrow> byte list" where
  "setBit bm i = bm[i div 8 := (bm ! (i div 8)) OR push_bit (i mod 8) 1]"

definition clearBit :: "byte list \<Rightarrow> nat \<Rightarrow> byte list" where
  "clearBit bm i = bm[i div 8 := (bm ! (i div 8)) AND NOT (push_bit (i mod 8) 1)]"

definition in_bitmap :: "byte list \<Rightarrow> nat \<Rightarrow> bool" where
  "in_bitmap bm i \<longleftrightarrow> i div 8 < length bm"

section \<open>Searches\<close>

function findFreeBit_from :: "byte list \<Rightarrow> nat \<Rightarrow> nat \<Rightarrow> nat option result" where
  "findFreeBit_from bm maxBits i =
    (if i < maxBits then
       if \<not> in_bitmap bm i then Inl Panic
       else if \<not> bit_used bm i then Inr (Some i)
       else findFreeBit_from bm maxBits (i + 1)
     else Inr None)"
  by pat_completeness auto
termination by (relation "measure (\<lambda>(bm, maxBits, i). maxBits - i)") auto

definition findFreeBit :: "byte list \<Rightarrow> nat \<Rightarrow> nat option result" where
  "findFreeBit bm maxBits = findFreeBit_from bm maxBits 0"

text \<open>
  The first loop of \<open>findFreeRun\<close>, on the loop variables \<open>i\<close>, \<open>runStart\<close> and \<open>runLen\<close>: it
  returns the start of the first run of \<open>n\<close> clear bits, or the final \<open>runLen\<close>.
\<close>

function run_loop :: "byte list \<Rightarrow> nat \<Rightarrow> nat \<Rightarrow> nat \<Rightarrow> int \<Rightarrow> nat \<Rightarrow> (int + nat) result" where
  "run_loop bm maxBits n i runStart runLen =
    (if i < maxBits then
       if \<not> in_bitmap bm i then Inl Panic
       else if \<not> bit_used bm i then
         let s = (if runLen = 0 then int i else runStart) in
         if runLen + 1 = n then Inr (Inl s)
         else run_loop bm maxBits n (i + 1) s (runLen + 1)
       else run_loop bm maxBits n (i + 1) (- 1) 0
     else Inr (Inr runLen))"
  by pat_completeness auto
termination by (relation "measure (\<lambda>(bm, maxBits, n, i, s, l). maxBits - i)") auto

function collect_loop :: "byte list \<Rightarrow> nat \<Rightarrow> nat \<Rightarrow> nat \<Rightarrow> nat list \<Rightarrow> nat list result" where
  "collect_loop bm maxBits n i bits =
    (if i < maxBits \<and> length bits < n then
       if \<not> in_bitmap bm i then Inl Panic
       else collect_loop bm maxBits n (i + 1) (if \<not> bit_used bm i then bits @ [i] else bits)
     else Inr bits)"
  by pat_completeness auto
termination by (relation "measure (\<lambda>(bm, maxBits, n, i, bits). maxBits - i)") auto

declare findFreeBit_from.simps [simp del] run_loop.simps [simp del] collect_loop.simps [simp del]

definition findFreeRun :: "byte list \<Rightarrow> nat \<Rightarrow> nat \<Rightarrow> nat list option result" where
  "findFreeRun bm maxBits n =
    (if n = 0 then Inr (Some [])
     else res_bind (run_loop bm maxBits n 0 (- 1) 0) (\<lambda>r.
       case r of
         Inl s \<Rightarrow> Inr (Some (map (\<lambda>j. nat s + j) [0..<n]))
       | Inr runLen \<Rightarrow>
           if runLen < n then
             res_bind (collect_loop bm maxBits n 0 []) (\<lambda>bits.
               if length bits = n then Inr (Some bits) else Inr None)
           else Inr None))"

definition countFreeInBitmap :: "byte list \<Rightarrow> nat \<Rightarrow> nat \<times> nat list" where
  "countFreeInBitmap bm maxBits =
    (let mx = min maxBits (length bm * 8);
         free = filter (\<lambda>i. \<not> bit_used bm i) [0..<mx]
     in (length free, take 20 free))"

section \<open>Checksums\<close>

definition bitmapCsumSeed :: "superblock \<Rightarrow> u32 \<Rightarrow> u32" where
  "bitmapCsumSeed sb g = csumSeed sb"

definition blockBitmapCsumLen :: "superblock \<Rightarrow> nat" where
  "blockBitmapCsumLen sb = w32 (BlocksPerGroup sb + 7) div 8"

definition inodeBitmapCsumLen :: "superblock \<Rightarrow> nat" where
  "inodeBitmapCsumLen sb = w32 (InodesPerGroup sb + 7) div 8"

definition setBitmapCsum :: "superblock \<Rightarrow> u32 \<Rightarrow> bgd \<Rightarrow> bool \<Rightarrow> byte list \<Rightarrow> bgd" where
  "setBitmapCsum sb g d isBlockBitmap bmap =
    (if \<not> has_flag (FeatureROCompat sb) FeatROCompatMetadataCsum then d
     else
       let n = (if isBlockBitmap then blockBitmapCsumLen sb else inodeBitmapCsumLen sb);
           n' = (if n > length bmap then length bmap else n);
           csum = crc32c (bitmapCsumSeed sb g) (take n' bmap);
           lo = (if isBlockBitmap then 24 else 26);
           hi = (if isBlockBitmap then 56 else 58);
           r1 = put_u16 (bg_raw d) lo (w16 (csum AND 0xFFFF));
           r2 = (if DescSize sb \<ge> 64 then put_u16 r1 hi (w16 (drop_bit 16 csum)) else r1)
       in d\<lparr>bg_raw := r2\<rparr>)"

definition setBGDChecksum :: "superblock \<Rightarrow> u32 \<Rightarrow> bgd \<Rightarrow> bgd" where
  "setBGDChecksum sb g d = d\<lparr>bg_raw := put_bgd_csum sb g (bg_raw d)\<rparr>"

section \<open>Laws of the bits\<close>

lemma bit_used_iff:
  "in_bitmap bm i \<Longrightarrow> bit_used bm i \<longleftrightarrow> bit (bm ! (i div 8)) (i mod 8)"
  by (simp add: bit_used_def bit_iff_and_push_bit_not_eq_0 push_bit_of_1)

lemma length_setBit [simp]: "length (setBit bm i) = length bm"
  by (simp add: setBit_def)

lemma length_clearBit [simp]: "length (clearBit bm i) = length bm"
  by (simp add: clearBit_def)

lemma in_bitmap_upd [simp]:
  "in_bitmap (setBit bm i) j = in_bitmap bm j" "in_bitmap (clearBit bm i) j = in_bitmap bm j"
  by (simp_all add: in_bitmap_def)

lemma in_bitmap_le: "maxBits \<le> 8 * length bm \<Longrightarrow> i < maxBits \<Longrightarrow> in_bitmap bm i"
  by (simp add: in_bitmap_def)

lemma in_bitmap_cap: "i < 8 * length bm \<Longrightarrow> in_bitmap bm i"
  by (simp add: in_bitmap_def)

lemma div_mod_8_eq: "i div 8 = j div 8 \<Longrightarrow> i mod 8 = j mod 8 \<Longrightarrow> i = (j :: nat)"
  by (metis div_mult_mod_eq)

lemma nth_setBit:
  "in_bitmap bm i \<Longrightarrow> setBit bm i ! k = (if k = i div 8 then bm ! k OR push_bit (i mod 8) 1 else bm ! k)"
  by (simp add: setBit_def in_bitmap_def nth_list_update)

lemma nth_clearBit:
  "in_bitmap bm i \<Longrightarrow>
     clearBit bm i ! k = (if k = i div 8 then bm ! k AND NOT (push_bit (i mod 8) 1) else bm ! k)"
  by (simp add: clearBit_def in_bitmap_def nth_list_update)

lemma byte_bit_or:
  fixes x :: byte
  shows "b < 8 \<Longrightarrow> bit (x OR 2 ^ a) b \<longleftrightarrow> a = b \<or> bit x b"
  by (auto simp: bit_or_iff bit_exp_iff)

lemma byte_bit_and_not:
  fixes x :: byte
  shows "b < 8 \<Longrightarrow> bit (x AND NOT (2 ^ a)) b \<longleftrightarrow> a \<noteq> b \<and> bit x b"
  by (auto simp: bit_and_iff bit_not_iff bit_exp_iff)

lemma bit_used_setBit:
  assumes "in_bitmap bm i" "in_bitmap bm j"
  shows "bit_used (setBit bm i) j \<longleftrightarrow> j = i \<or> bit_used bm j"
proof (cases "j div 8 = i div 8")
  case True
  then have "i mod 8 = j mod 8 \<longleftrightarrow> j = i"
    using div_mod_8_eq by metis
  with True assms show ?thesis
    by (simp add: bit_used_iff nth_setBit byte_bit_or)
next
  case False
  with assms show ?thesis
    by (auto simp: bit_used_iff nth_setBit)
qed

lemma bit_used_clearBit:
  assumes "in_bitmap bm i" "in_bitmap bm j"
  shows "bit_used (clearBit bm i) j \<longleftrightarrow> j \<noteq> i \<and> bit_used bm j"
proof (cases "j div 8 = i div 8")
  case True
  then have "i mod 8 = j mod 8 \<longleftrightarrow> j = i"
    using div_mod_8_eq by metis
  with True assms show ?thesis
    by (simp add: bit_used_iff nth_clearBit byte_bit_and_not)
next
  case False
  with assms show ?thesis
    by (auto simp: bit_used_iff nth_clearBit)
qed

section \<open>The contract of a bitmap\<close>

locale bit_set =
  fixes used :: "'b \<Rightarrow> nat \<Rightarrow> bool"
    and mark :: "'b \<Rightarrow> nat \<Rightarrow> 'b"
    and unmark :: "'b \<Rightarrow> nat \<Rightarrow> 'b"
    and cap :: "'b \<Rightarrow> nat"
  assumes cap_mark: "cap (mark b i) = cap b"
    and cap_unmark: "cap (unmark b i) = cap b"
    and used_mark: "i < cap b \<Longrightarrow> j < cap b \<Longrightarrow> used (mark b i) j \<longleftrightarrow> j = i \<or> used b j"
    and used_unmark: "i < cap b \<Longrightarrow> j < cap b \<Longrightarrow> used (unmark b i) j \<longleftrightarrow> j \<noteq> i \<and> used b j"
begin

definition free_bits :: "'b \<Rightarrow> nat \<Rightarrow> nat set" where
  "free_bits b m = {i. i < m \<and> \<not> used b i}"

lemma finite_free_bits [simp]: "finite (free_bits b m)"
  by (simp add: free_bits_def)

lemma cap_mark_all [simp]: "cap (foldl mark b is) = cap b"
  by (induction "is" arbitrary: b) (simp_all add: cap_mark)

lemma cap_unmark_all [simp]: "cap (foldl unmark b is) = cap b"
  by (induction "is" arbitrary: b) (simp_all add: cap_unmark)

lemma used_mark_all:
  "set is \<subseteq> {..<cap b} \<Longrightarrow> j < cap b \<Longrightarrow> used (foldl mark b is) j \<longleftrightarrow> j \<in> set is \<or> used b j"
  by (induction "is" arbitrary: b) (auto simp: cap_mark used_mark)

lemma used_unmark_all:
  "set is \<subseteq> {..<cap b} \<Longrightarrow> j < cap b \<Longrightarrow> used (foldl unmark b is) j \<longleftrightarrow> j \<notin> set is \<and> used b j"
  by (induction "is" arbitrary: b) (auto simp: cap_unmark used_unmark)

lemma free_bits_mark_all:
  assumes "m \<le> cap b" "set is \<subseteq> free_bits b m"
  shows "free_bits (foldl mark b is) m = free_bits b m - set is"
proof -
  have "set is \<subseteq> {..<cap b}"
    using assms by (auto simp: free_bits_def)
  with assms(1) show ?thesis
    by (auto simp: free_bits_def used_mark_all)
qed

lemma card_free_mark_all:
  assumes "m \<le> cap b" "set is \<subseteq> free_bits b m" "distinct is"
  shows "card (free_bits (foldl mark b is) m) + length is = card (free_bits b m)"
proof -
  have "card (set is) \<le> card (free_bits b m)"
    using assms by (intro card_mono) simp_all
  with assms show ?thesis
    by (simp add: free_bits_mark_all card_Diff_subset distinct_card)
qed

lemma unmark_mark_all:
  assumes "m \<le> cap b" "set is \<subseteq> free_bits b m" "j < m"
  shows "used (foldl unmark (foldl mark b is) is) j \<longleftrightarrow> used b j"
proof -
  have "set is \<subseteq> {..<cap b}"
    using assms by (auto simp: free_bits_def)
  with assms show ?thesis
    by (auto simp: used_unmark_all used_mark_all free_bits_def)
qed

lemma card_free_unmark:
  assumes "m \<le> cap b" "i < m" "used b i"
  shows "card (free_bits (unmark b i) m) = card (free_bits b m) + 1"
proof -
  have "free_bits (unmark b i) m = insert i (free_bits b m)"
    using assms by (auto simp: free_bits_def used_unmark)
  moreover have "i \<notin> free_bits b m"
    using assms by (simp add: free_bits_def)
  ultimately show ?thesis
    by simp
qed

end

interpretation bm: bit_set bit_used setBit clearBit "\<lambda>bm. 8 * length bm"
  by unfold_locales (simp_all add: in_bitmap_cap bit_used_setBit bit_used_clearBit)

lemma countFree_eq:
  "maxBits \<le> 8 * length bm \<Longrightarrow> fst (countFreeInBitmap bm maxBits) = card (bm.free_bits bm maxBits)"
proof -
  assume "maxBits \<le> 8 * length bm"
  then have "min maxBits (length bm * 8) = maxBits"
    by simp
  moreover have "set (filter (\<lambda>i. \<not> bit_used bm i) [0..<maxBits]) = bm.free_bits bm maxBits"
    by (auto simp: bm.free_bits_def)
  ultimately show ?thesis
    by (simp add: countFreeInBitmap_def Let_def distinct_card [symmetric])
qed

section \<open>Correctness of the searches\<close>

definition is_run :: "byte list \<Rightarrow> nat \<Rightarrow> nat \<Rightarrow> bool" where
  "is_run bm s n \<longleftrightarrow> (\<forall>k<n. \<not> bit_used bm (s + k))"

lemma findFreeBit_from_spec:
  assumes "maxBits \<le> 8 * length bm"
  shows "\<exists>r. findFreeBit_from bm maxBits i = Inr r \<and>
    (case r of
       None \<Rightarrow> \<forall>j. i \<le> j \<and> j < maxBits \<longrightarrow> bit_used bm j
     | Some k \<Rightarrow> i \<le> k \<and> k < maxBits \<and> \<not> bit_used bm k \<and> (\<forall>j. i \<le> j \<and> j < k \<longrightarrow> bit_used bm j))"
  using assms
proof (induction bm maxBits i rule: findFreeBit_from.induct)
  case (1 bm maxBits i)
  show ?case
  proof (cases "i < maxBits \<and> bit_used bm i")
    case True
    with 1 obtain r where r: "findFreeBit_from bm maxBits (i + 1) = Inr r"
      "case r of
       None \<Rightarrow> \<forall>j. i + 1 \<le> j \<and> j < maxBits \<longrightarrow> bit_used bm j
     | Some k \<Rightarrow> i + 1 \<le> k \<and> k < maxBits \<and> \<not> bit_used bm k \<and> (\<forall>j. i + 1 \<le> j \<and> j < k \<longrightarrow> bit_used bm j)"
      using in_bitmap_le by blast
    have "findFreeBit_from bm maxBits i = Inr r"
      using True 1(2) r(1) in_bitmap_le by (subst findFreeBit_from.simps) simp
    moreover have "j = i \<or> i + 1 \<le> j" if "i \<le> j" for j
      using that by auto
    ultimately show ?thesis
      using r(2) True by (auto split: option.splits)
  next
    case False
    with 1(2) show ?thesis
      by (subst findFreeBit_from.simps) (auto simp: in_bitmap_le)
  qed
qed

lemma collect_loop_spec:
  assumes "maxBits \<le> 8 * length bm" "length bits \<le> n"
  shows "collect_loop bm maxBits n i bits
    = Inr (take n (bits @ filter (\<lambda>j. \<not> bit_used bm j) [i..<maxBits]))"
  using assms
proof (induction bm maxBits n i bits rule: collect_loop.induct)
  case (1 bm maxBits n i bits)
  show ?case
  proof (cases "i < maxBits \<and> length bits < n")
    case True
    with 1 have "collect_loop bm maxBits n (i + 1) (if \<not> bit_used bm i then bits @ [i] else bits)
      = Inr (take n ((if \<not> bit_used bm i then bits @ [i] else bits)
               @ filter (\<lambda>j. \<not> bit_used bm j) [i + 1..<maxBits]))"
      by (intro 1(1)) (auto simp: in_bitmap_le)
    moreover have "[i..<maxBits] = i # [i + 1..<maxBits]"
      using True by (simp add: upt_conv_Cons)
    ultimately show ?thesis
      using True 1(2) by (subst collect_loop.simps) (auto simp: in_bitmap_le take_Cons')
  next
    case False
    with 1(2,3) show ?thesis
      by (subst collect_loop.simps) auto
  qed
qed

lemma is_run_iff: "is_run bm s n \<longleftrightarrow> (\<forall>j. s \<le> j \<and> j < s + n \<longrightarrow> \<not> bit_used bm j)"
  unfolding is_run_def by (metis add_less_cancel_left le_add1 le_add_diff_inverse)

lemma run_loop_spec:
  assumes "maxBits \<le> 8 * length bm" "l < n" "l \<le> i" "i \<le> maxBits"
    and "\<forall>j. i - l \<le> j \<and> j < i \<longrightarrow> \<not> bit_used bm j"
    and "l = i \<or> bit_used bm (i - l - 1)"
    and "0 < l \<Longrightarrow> s = int (i - l)"
    and "\<forall>s'. s' + n \<le> i \<longrightarrow> \<not> is_run bm s' n"
  shows "(\<exists>s0. run_loop bm maxBits n i s l = Inr (Inl (int s0)) \<and> s0 + n \<le> maxBits \<and> is_run bm s0 n
            \<and> (\<forall>s' < s0. \<not> is_run bm s' n))
       \<or> (\<exists>r. run_loop bm maxBits n i s l = Inr (Inr r) \<and> r < n
            \<and> (\<forall>s'. s' + n \<le> maxBits \<longrightarrow> \<not> is_run bm s' n))"
  using assms
proof (induction bm maxBits n i s l rule: run_loop.induct)
  case (1 bm maxBits n i s l)
  show ?case
  proof (cases "i < maxBits")
    case False
    with 1(3-) show ?thesis
      by (intro disjI2) (subst run_loop.simps, auto)
  next
    case i: True
    then have ib: "in_bitmap bm i"
      using 1(3) in_bitmap_le by blast
    show ?thesis
    proof (cases "bit_used bm i")
      case used: True
      have "run_loop bm maxBits n i s l = run_loop bm maxBits n (i + 1) (- 1) 0"
        using i ib used by (subst run_loop.simps) simp
      moreover have "\<not> is_run bm s' n" if s': "s' + n \<le> i + 1" for s'
      proof (cases "s' + n \<le> i")
        case False
        with s' 1(4) have "s' \<le> i \<and> i < s' + n"
          by auto
        with used show ?thesis
          unfolding is_run_iff by blast
      qed (use 1(10) in blast)
      moreover have "\<forall>j. i + 1 \<le> j \<and> j < i + 1 \<longrightarrow> \<not> bit_used bm j"
        by auto
      moreover have "\<not> \<not> in_bitmap bm i" "\<not> \<not> bit_used bm i"
        using ib used by simp_all
      note IH = 1(2) [OF i this]
      ultimately show ?thesis
        using IH used i 1(3,4) by simp
    next
      case free: False
      define s1 where "s1 = (if l = 0 then int i else s)"
      have s1: "s1 = int (i - l)"
        using 1(5,9) by (simp add: s1_def)
      show ?thesis
      proof (cases "l + 1 = n")
        case True
        have "run_loop bm maxBits n i s l = Inr (Inl (int (i - l)))"
          using i ib free True s1 by (subst run_loop.simps) (simp add: s1_def)
        moreover have "is_run bm (i - l) n"
        proof -
          have "j < i \<or> j = i" if "j < i - l + n" for j
            using that True 1(5) by auto
          with 1(7) free show ?thesis
            unfolding is_run_iff by blast
        qed
        moreover have "\<forall>s' < i - l. \<not> is_run bm s' n"
          using True 1(10) by auto
        ultimately show ?thesis
          using True i 1(5) by (intro disjI1 exI [of _ "i - l"]) auto
      next
        case more: False
        have "run_loop bm maxBits n i s l = run_loop bm maxBits n (i + 1) s1 (l + 1)"
          using i ib free more by (subst run_loop.simps) (simp add: s1_def)
        moreover have "\<not> is_run bm s' n" if s': "s' + n \<le> i + 1" for s'
        proof (cases "s' + n \<le> i")
          case False
          with s' more 1(4) have "s' \<le> i - l - 1 \<and> i - l - 1 < s' + n \<and> l \<noteq> i"
            by auto
          with 1(8) show ?thesis
            unfolding is_run_iff by blast
        qed (use 1(10) in blast)
        moreover have "\<forall>j. i - l \<le> j \<and> j < i + 1 \<longrightarrow> \<not> bit_used bm j"
          using 1(7) free by (auto simp: less_Suc_eq)
        moreover have "\<not> \<not> in_bitmap bm i"
          using ib by simp
        note IH = 1(1) [OF i this free s1_def more]
        ultimately show ?thesis
          using IH more i 1(3,4,5,8) s1 by simp
      qed
    qed
  qed
qed

lemma filter_free_set:
  "set (filter (\<lambda>j. \<not> bit_used bm j) [0..<maxBits]) = bm.free_bits bm maxBits"
  by (auto simp: bm.free_bits_def)

lemma length_filter_free:
  "length (filter (\<lambda>j. \<not> bit_used bm j) [0..<maxBits]) = card (bm.free_bits bm maxBits)"
  using distinct_card [of "filter (\<lambda>j. \<not> bit_used bm j) [0..<maxBits]"] filter_free_set by simp

lemma take_filter_free:
  assumes "bits = take n (filter (\<lambda>j. \<not> bit_used bm j) [0..<maxBits])"
  shows "sorted_wrt (<) bits" and "\<forall>b\<in>set bits. b < maxBits \<and> \<not> bit_used bm b"
proof -
  have "sorted_wrt (<) (filter (\<lambda>j. \<not> bit_used bm j) [0..<maxBits])"
    by (simp add: sorted_wrt_filter)
  then show "sorted_wrt (<) bits"
    unfolding assms by (metis append_take_drop_id sorted_wrt_append)
  show "\<forall>b\<in>set bits. b < maxBits \<and> \<not> bit_used bm b"
    unfolding assms by (auto dest: in_set_takeD)
qed

lemma map_add_upt_0: "map (\<lambda>j. s + j) [0..<n] = [s..<s + n]"
  by (rule nth_equalityI) simp_all

lemma findFreeRun_cases:
  assumes "maxBits \<le> 8 * length bm" "0 < n"
  shows "(\<exists>s. findFreeRun bm maxBits n = Inr (Some [s..<s + n]) \<and> s + n \<le> maxBits \<and> is_run bm s n
            \<and> (\<forall>s' < s. \<not> is_run bm s' n))
       \<or> ((\<forall>s'. s' + n \<le> maxBits \<longrightarrow> \<not> is_run bm s' n) \<and>
          findFreeRun bm maxBits n =
            Inr (if n \<le> card (bm.free_bits bm maxBits)
                 then Some (take n (filter (\<lambda>j. \<not> bit_used bm j) [0..<maxBits])) else None))"
proof -
  note coll = collect_loop_spec [of maxBits bm "[]" n 0, OF assms(1)]
  have "\<not> is_run bm s' n" if "s' + n \<le> 0" for s'
    using that assms(2) by simp
  with run_loop_spec [of maxBits bm 0 n 0 "- 1"] assms
  have "(\<exists>s0. run_loop bm maxBits n 0 (- 1) 0 = Inr (Inl (int s0)) \<and> s0 + n \<le> maxBits
            \<and> is_run bm s0 n \<and> (\<forall>s' < s0. \<not> is_run bm s' n))
       \<or> (\<exists>r. run_loop bm maxBits n 0 (- 1) 0 = Inr (Inr r) \<and> r < n
            \<and> (\<forall>s'. s' + n \<le> maxBits \<longrightarrow> \<not> is_run bm s' n))"
    by simp
  then show ?thesis
  proof (elim disjE exE conjE)
    fix s0
    assume "run_loop bm maxBits n 0 (- 1) 0 = Inr (Inl (int s0))"
      "s0 + n \<le> maxBits" "is_run bm s0 n" "\<forall>s' < s0. \<not> is_run bm s' n"
    then show ?thesis
      using assms(2) by (intro disjI1 exI [of _ s0]) (simp add: findFreeRun_def map_add_upt_0)
  next
    fix r
    assume "run_loop bm maxBits n 0 (- 1) 0 = Inr (Inr r)" "r < n"
      "\<forall>s'. s' + n \<le> maxBits \<longrightarrow> \<not> is_run bm s' n"
    then show ?thesis
      using assms(2) coll by (intro disjI2) (auto simp: findFreeRun_def length_filter_free)
  qed
qed

section \<open>Properties\<close>

text \<open>C3: \<open>findFreeRun\<close> on a bitmap that has the bits it is asked to search never panics.  When
  it returns bits, they are \<open>n\<close> ascending clear bits below the limit, and they are the first
  consecutive run when there is one; it reports failure only when fewer than \<open>n\<close> bits are
  clear.\<close>

theorem findFreeRun_correct:
  assumes "maxBits \<le> 8 * length bm"
  shows "\<exists>r. findFreeRun bm maxBits n = Inr r \<and>
    (case r of
       None \<Rightarrow> card {i. i < maxBits \<and> \<not> bit_used bm i} < n
     | Some bits \<Rightarrow>
         length bits = n \<and> sorted_wrt (<) bits \<and> (\<forall>b\<in>set bits. b < maxBits \<and> \<not> bit_used bm b)
         \<and> ((\<exists>s. s + n \<le> maxBits \<and> is_run bm s n) \<longrightarrow>
              (\<exists>s. bits = [s..<s + n] \<and> (\<forall>s' < s. \<not> is_run bm s' n))))"
proof (cases "n = 0")
  case True
  have "\<exists>s. ([] :: nat list) = [s..<s + 0] \<and> (\<forall>s' < s. \<not> is_run bm s' 0)"
    by (rule exI [of _ 0]) simp
  moreover have "findFreeRun bm maxBits n = Inr (Some [])"
    using True by (simp add: findFreeRun_def)
  ultimately show ?thesis
    unfolding True by (intro exI [of _ "Some []"]) (simp only: option.case list.size sorted_wrt.simps list.set ball_simps simp_thms)
next
  case False
  then have "0 < n"
    by simp
  from findFreeRun_cases [OF assms this] show ?thesis
  proof (elim disjE exE conjE)
    fix s
    assume "findFreeRun bm maxBits n = Inr (Some [s..<s + n])" "s + n \<le> maxBits" "is_run bm s n"
      "\<forall>s' < s. \<not> is_run bm s' n"
    moreover from this have "\<forall>b\<in>set [s..<s + n]. b < maxBits \<and> \<not> bit_used bm b"
      by (auto simp: is_run_iff)
    moreover have "length [s..<s + n] = n" "sorted_wrt (<) [s..<s + n]"
      by simp_all
    ultimately show ?thesis
      by (intro exI [of _ "Some [s..<s + n]"]) (simp only: option.case, blast)
  next
    assume no: "\<forall>s'. s' + n \<le> maxBits \<longrightarrow> \<not> is_run bm s' n"
    assume r: "findFreeRun bm maxBits n =
            Inr (if n \<le> card (bm.free_bits bm maxBits)
                 then Some (take n (filter (\<lambda>j. \<not> bit_used bm j) [0..<maxBits])) else None)"
    show ?thesis
    proof (cases "n \<le> card (bm.free_bits bm maxBits)")
      case True
      define bits where "bits = take n (filter (\<lambda>j. \<not> bit_used bm j) [0..<maxBits])"
      have "length bits = n"
        using True by (simp add: bits_def length_filter_free)
      moreover have "findFreeRun bm maxBits n = Inr (Some bits)"
        using r True by (simp add: bits_def)
      moreover note take_filter_free [OF bits_def]
      ultimately show ?thesis
        using no by (intro exI [of _ "Some bits"]) (simp only: option.case, blast)
    next
      case False
      with r show ?thesis
        by (intro exI [of _ None]) (simp add: bm.free_bits_def)
    qed
  qed
qed

theorem findFreeRun_correct_witness:
  "\<exists>s. findFreeRun [0x17, 0xF1] 16 3 = Inr (Some [s..<s + 3])
     \<and> (\<forall>s' < s. \<not> is_run [0x17, 0xF1] s' 3)"
proof -
  have run: "findFreeRun [0x17, 0xF1] 16 3 = Inr (Some [5, 6, 7])"
    by code_simp
  have "is_run [0x17, 0xF1] 5 3"
    by code_simp
  then have ex: "\<exists>s. s + 3 \<le> 16 \<and> is_run [0x17, 0xF1] s 3"
    by (intro exI [of _ 5]) simp
  have "16 \<le> 8 * length [0x17, 0xF1 :: byte]"
    by simp
  from findFreeRun_correct [OF this, of 3] ex run
  obtain s where s: "[5, 6, 7] = [s..<s + 3]" "\<forall>s' < s. \<not> is_run [0x17, 0xF1] s' 3"
    by (elim exE conjE) (simp only: sum.inject option.case, blast)
  then have "findFreeRun [0x17, 0xF1] 16 3 = Inr (Some [s..<s + 3])"
    by (simp only: run)
  with s(2) show ?thesis
    by blast
qed

text \<open>C4: marking the bits of an allocation as used and clearing them again restores every bit
  of the bitmap, and while they are marked the free count is lower by exactly their number.\<close>

theorem mark_clear_bits:
  assumes "maxBits \<le> 8 * length bm" "distinct bits"
    and "\<forall>b\<in>set bits. b < maxBits \<and> \<not> bit_used bm b"
  shows "fst (countFreeInBitmap (foldl setBit bm bits) maxBits) + length bits
           = fst (countFreeInBitmap bm maxBits)
       \<and> (\<forall>j<maxBits. bit_used (foldl clearBit (foldl setBit bm bits) bits) j = bit_used bm j)"
proof -
  have sub: "set bits \<subseteq> bm.free_bits bm maxBits"
    using assms(3) by (auto simp: bm.free_bits_def)
  have "8 * length (foldl setBit bm bits) = 8 * length bm"
    by (rule bm.cap_mark_all)
  with assms sub show ?thesis
    by (simp add: countFree_eq bm.card_free_mark_all bm.unmark_mark_all)
qed

theorem mark_clear_bits_witness:
  "fst (countFreeInBitmap (foldl setBit [0x17, 0xF1] [5, 6, 7]) 16) + 3
     = fst (countFreeInBitmap [0x17, 0xF1] 16)
   \<and> bit_used (foldl clearBit (foldl setBit [0x17, 0xF1] [5, 6, 7]) [5, 6, 7]) 4 = bit_used [0x17, 0xF1] 4"
proof -
  have "\<forall>b\<in>set [5, 6, 7]. b < 16 \<and> \<not> bit_used [0x17, 0xF1] b"
    by code_simp
  with mark_clear_bits [of 16 "[0x17, 0xF1]" "[5, 6, 7]"] show ?thesis
    by simp
qed

end
