(* ===== verification/Rawio.thy ===== *)
theory Rawio
  imports Bitmap
begin

text \<open>
  Block and range input/output of \<open>fs.go\<close>: \<open>readRawBlock\<close>, and \<open>writeAtWithTrace\<close> with its
  lock protocol.  A write that may touch inode tables locks the descriptors of the candidate
  groups, checks that they did not move, locks the inode tables, and only then writes; after
  eight unstable rounds it gives up.  Other goroutines may change the descriptors between the
  reads, so the protocol reads them through \<open>obs\<close>, which gives the device as each step sees
  it: \<open>obs 0\<close> for the first candidate list, \<open>obs (2 k + 1)\<close> for the check of round \<open>k\<close> and
  \<open>obs (2 k + 2)\<close> for the list rebuilt after it.  Alone on the device, \<open>obs\<close> is constant.
\<close>

section \<open>Definitions\<close>

definition block_off :: "int \<Rightarrow> superblock \<Rightarrow> u64 \<Rightarrow> int" where
  "block_off fsOffset sb b = i64 (fsOffset + i64 (i64 (int b) * int (BlockSize sb)))"

definition readRawBlock :: "device \<Rightarrow> int \<Rightarrow> superblock \<Rightarrow> u64 \<Rightarrow> byte list result" where
  "readRawBlock f fsOffset sb blockNum = ReadAt f (block_off fsOffset sb blockNum) (BlockSize sb)"

datatype lock_event =
    LockBGD u32
  | UnlockBGD u32
  | LockInodeTable u32
  | UnlockInodeTable u32
  | DoWrite

type_synonym cand = "u32 \<times> u64"

definition it_overlap :: "int \<Rightarrow> superblock \<Rightarrow> int \<Rightarrow> int \<Rightarrow> bgd \<Rightarrow> bool" where
  "it_overlap fsOffset sb start fin d =
    (let bs = int (BlockSize sb);
         itStart = i64 (fsOffset + i64 (i64 (int (bg_InodeTableBlock d)) * bs));
         itBlocks = w64 (sub64 (w64 (w64 (InodeSize sb * InodesPerGroup sb) + BlockSize sb)) 1) div BlockSize sb;
         itEnd = i64 (itStart + i64 (i64 (int itBlocks) * bs))
     in start < itEnd \<and> fin > itStart)"

fun nub :: "'a list \<Rightarrow> 'a list" where
  "nub [] = []"
| "nub (x # xs) = x # nub (filter (\<lambda>y. y \<noteq> x) xs)"

definition touched_groups :: "int \<Rightarrow> superblock \<Rightarrow> int \<Rightarrow> int \<Rightarrow> u32 list" where
  "touched_groups fsOffset sb start fin =
    (if fin \<le> fsOffset then []
     else
       let bs = int (BlockSize sb);
           relStart = (if i64 (start - fsOffset) < 0 then 0 else i64 (start - fsOffset));
           relEnd = (if i64 (fin - fsOffset) \<le> 0 then 0 else i64 (fin - fsOffset));
           startBlock = nat (relStart div bs);
           endBlock = (if relEnd = 0 then startBlock else nat ((relEnd - 1) div bs));
           groups = map (\<lambda>b. w32 ((b - FirstDataBlock sb) div BlocksPerGroup sb))
                      (filter (\<lambda>b. FirstDataBlock sb \<le> b) [startBlock..<endBlock + 1])
       in nub (filter (\<lambda>g. g < numBlockGroups sb) groups))"

definition cands_of :: "device \<Rightarrow> int \<Rightarrow> superblock \<Rightarrow> int \<Rightarrow> int \<Rightarrow> u32 list \<Rightarrow> cand list" where
  "cands_of f fsOffset sb start fin gs =
    concat (map (\<lambda>g. case readBGD f fsOffset sb g of
        Inl _ \<Rightarrow> []
      | Inr d \<Rightarrow> if it_overlap fsOffset sb start fin d then [(g, bg_InodeTableBlock d)] else []) gs)"

definition cand_stable :: "device \<Rightarrow> int \<Rightarrow> superblock \<Rightarrow> int \<Rightarrow> int \<Rightarrow> cand \<Rightarrow> bool" where
  "cand_stable f fsOffset sb start fin c =
    (case readBGD f fsOffset sb (fst c) of
       Inl _ \<Rightarrow> False
     | Inr d2 \<Rightarrow> bg_InodeTableBlock d2 = snd c \<and> it_overlap fsOffset sb start fin d2)"

text \<open>
  The retry loop: \<open>Some cs\<close> when a round found its candidate list \<open>cs\<close> stable, \<open>None\<close> when
  all rounds were unstable.  The events of the abandoned rounds come first.
\<close>

fun attempt_loop :: "nat \<Rightarrow> nat \<Rightarrow> (nat \<Rightarrow> device) \<Rightarrow> int \<Rightarrow> superblock \<Rightarrow> int \<Rightarrow> int \<Rightarrow> cand list
    \<Rightarrow> lock_event list \<times> cand list option" where
  "attempt_loop 0 k obs fsOffset sb start fin cands = ([], None)"
| "attempt_loop (Suc n) k obs fsOffset sb start fin cands =
    (let cs = sort_key fst cands;
         gs = map fst cs
     in if list_all (cand_stable (obs (2 * k + 1)) fsOffset sb start fin) cs
        then (map LockBGD gs @ map LockInodeTable gs @ map UnlockBGD (rev gs), Some cs)
        else
          let cands' = cands_of (obs (2 * k + 2)) fsOffset sb start fin [0..<numBlockGroups sb];
              (evs, r) = attempt_loop n (k + 1) obs fsOffset sb start fin cands'
          in (map LockBGD gs @ map UnlockBGD (rev gs) @ evs, r))"

definition maxAttempts :: nat where
  "maxAttempts = 8"

definition writeAtWithTrace_obs ::
  "(nat \<Rightarrow> device) \<Rightarrow> int \<Rightarrow> superblock \<Rightarrow> int \<Rightarrow> byte list \<Rightarrow> device \<Rightarrow> lock_event list \<times> nat result \<times> device" where
  "writeAtWithTrace_obs obs fsOffset sb off data f =
    (let start = off;
         fin = i64 (off + int (length data));
         cands = (if BlocksPerGroup sb \<noteq> 0 \<and> InodesPerGroup sb \<noteq> 0
                  then cands_of (obs 0) fsOffset sb start fin (touched_groups fsOffset sb start fin)
                  else [])
     in if cands \<noteq> [] then
          case attempt_loop maxAttempts 0 obs fsOffset sb start fin cands of
            (evs, Some cs) \<Rightarrow>
              (evs @ DoWrite # map UnlockInodeTable (rev (map fst cs)), WriteAt off data f)
          | (evs, None) \<Rightarrow> (evs, Inl ErrUnstable, f)
        else ([DoWrite], WriteAt off data f))"

definition writeAtWithTrace :: "int \<Rightarrow> superblock \<Rightarrow> int \<Rightarrow> byte list \<Rightarrow> (device, nat) io" where
  "writeAtWithTrace fsOffset sb off data f =
    snd (writeAtWithTrace_obs (\<lambda>_. f) fsOffset sb off data f)"

text \<open>\<open>writeRawBlock\<close> of a file system without a sidecar journal.\<close>

definition writeRawBlock :: "int \<Rightarrow> superblock \<Rightarrow> u64 \<Rightarrow> byte list \<Rightarrow> (device, unit) io" where
  "writeRawBlock fsOffset sb blockNum data =
    io_bind (writeAtWithTrace fsOffset sb (block_off fsOffset sb blockNum) data) (\<lambda>_. io_return ())"

section \<open>The protocol\<close>

lemma cands_of_stable:
  "c \<in> set (cands_of f fsOffset sb start fin gs) \<Longrightarrow> cand_stable f fsOffset sb start fin c"
  by (auto simp: cands_of_def cand_stable_def split: sum.splits if_splits)

lemma attempt_loop_const:
  assumes "\<forall>c\<in>set cands. cand_stable f fsOffset sb start fin c"
  shows "snd (attempt_loop (Suc n) k (\<lambda>_. f) fsOffset sb start fin cands) = Some (sort_key fst cands)"
  using assms by (simp add: list_all_iff Let_def)

lemma maxAttempts_Suc: "maxAttempts = Suc 7"
  by (simp add: maxAttempts_def)

lemma writeAtWithTrace_eq: "writeAtWithTrace fsOffset sb off data f = WriteAt off data f"
proof -
  define fin where "fin = i64 (off + int (length data))"
  define cands where "cands = cands_of f fsOffset sb off fin (touched_groups fsOffset sb off fin)"
  have "\<forall>c\<in>set cands. cand_stable f fsOffset sb off fin c"
    unfolding cands_def using cands_of_stable by blast
  then have "snd (attempt_loop maxAttempts 0 (\<lambda>_. f) fsOffset sb off fin cands) = Some (sort_key fst cands)"
    unfolding maxAttempts_Suc by (rule attempt_loop_const)
  then obtain evs where
    "attempt_loop maxAttempts 0 (\<lambda>_. f) fsOffset sb off fin cands = (evs, Some (sort_key fst cands))"
    by (metis prod.collapse)
  then show ?thesis
    unfolding writeAtWithTrace_def writeAtWithTrace_obs_def Let_def
    by (simp add: fin_def [symmetric] cands_def [symmetric] split: prod.split)
qed

text \<open>
  A checker for the canonical lock order: descriptor locks are taken in ascending group order
  before any inode-table lock, inode-table locks in ascending order and only under the descriptor
  lock of the same group, every lock is released last-in first-out, and the device is written with
  no descriptor lock held.
\<close>

fun lock_ok :: "lock_event list \<Rightarrow> u32 list \<Rightarrow> u32 list \<Rightarrow> bool" where
  "lock_ok [] B T \<longleftrightarrow> B = [] \<and> T = []"
| "lock_ok (LockBGD g # es) B T \<longleftrightarrow> T = [] \<and> (\<forall>b\<in>set B. b < g) \<and> lock_ok es (g # B) T"
| "lock_ok (UnlockBGD g # es) B T \<longleftrightarrow> B \<noteq> [] \<and> hd B = g \<and> lock_ok es (tl B) T"
| "lock_ok (LockInodeTable g # es) B T \<longleftrightarrow> g \<in> set B \<and> (\<forall>t\<in>set T. t < g) \<and> lock_ok es B (g # T)"
| "lock_ok (UnlockInodeTable g # es) B T \<longleftrightarrow> T \<noteq> [] \<and> hd T = g \<and> lock_ok es B (tl T)"
| "lock_ok (DoWrite # es) B T \<longleftrightarrow> B = [] \<and> lock_ok es B T"

lemma lock_ok_LockBGD:
  "sorted_wrt (<) gs \<Longrightarrow> \<forall>b\<in>set B. \<forall>g\<in>set gs. b < g \<Longrightarrow>
     lock_ok (map LockBGD gs @ es) B [] = lock_ok es (rev gs @ B) []"
  by (induction gs arbitrary: B) auto

lemma lock_ok_LockIT:
  "sorted_wrt (<) gs \<Longrightarrow> \<forall>b\<in>set T. \<forall>g\<in>set gs. b < g \<Longrightarrow> set gs \<subseteq> set B \<Longrightarrow>
     lock_ok (map LockInodeTable gs @ es) B T = lock_ok es B (rev gs @ T)"
  by (induction gs arbitrary: T) auto

lemma lock_ok_UnlockBGD: "lock_ok (map UnlockBGD gs @ es) (gs @ B) T = lock_ok es B T"
  by (induction gs) auto

lemma lock_ok_UnlockIT: "lock_ok (map UnlockInodeTable gs @ es) B (gs @ T) = lock_ok es B T"
  by (induction gs) auto

lemmas lock_ok_runs = lock_ok_LockBGD [where B = "[]", simplified]
  lock_ok_LockIT [where T = "[]", simplified]
  lock_ok_UnlockBGD [where B = "[]", simplified]
  lock_ok_UnlockIT [where T = "[]", simplified]
  lock_ok_UnlockIT [where T = "[]" and es = "[]", simplified]

lemma set_nub [simp]: "set (nub xs) = set xs"
  by (induction xs rule: nub.induct) auto

lemma distinct_nub [simp]: "distinct (nub xs)"
  by (induction xs rule: nub.induct) auto

lemma distinct_cands: "distinct gs \<Longrightarrow> distinct (map fst (cands_of f fsOffset sb start fin gs))"
proof (induction gs)
  case (Cons g gs)
  moreover have "g \<notin> fst ` set (cands_of f fsOffset sb start fin gs)" if "g \<notin> set gs"
    using that by (auto simp: cands_of_def split: sum.splits if_splits)
  ultimately show ?case
    by (auto simp: cands_of_def split: sum.splits)
qed (simp add: cands_of_def)

lemma distinct_touched: "distinct (touched_groups fsOffset sb off fin)"
  unfolding touched_groups_def Let_def by (simp only: distinct_nub distinct.simps split: if_split) simp

lemma sorted_cands:
  assumes "distinct (map fst cands)"
  shows "sorted_wrt (<) (map fst (sort_key fst cands))"
proof -
  have "distinct (map fst (sort_key fst cands))"
    using assms by (metis distinct_map distinct_sort set_sort)
  then show ?thesis
    by (simp add: strict_sorted_iff)
qed

lemma attempt_loop_locks:
  assumes "attempt_loop n k obs fsOffset sb start fin cands = (evs, r)" "distinct (map fst cands)"
  shows "DoWrite \<notin> set evs \<and>
    (case r of
       None \<Rightarrow> lock_ok (evs @ es) [] [] = lock_ok es [] []
     | Some cs \<Rightarrow> lock_ok (evs @ es) [] [] = lock_ok es [] (rev (map fst cs)))"
  using assms
proof (induction n arbitrary: k cands evs)
  case 0
  then show ?case by auto
next
  case (Suc n)
  define cs where "cs = sort_key fst cands"
  have s: "sorted_wrt (<) (map fst cs)"
    unfolding cs_def using Suc.prems(2) by (rule sorted_cands)
  show ?case
  proof (cases "list_all (cand_stable (obs (2 * k + 1)) fsOffset sb start fin) cs")
    case True
    with Suc.prems(1) have "evs = map LockBGD (map fst cs) @ map LockInodeTable (map fst cs)
      @ map UnlockBGD (rev (map fst cs))" "r = Some cs"
      by (simp_all add: Let_def cs_def [symmetric])
    moreover have "lock_ok (map LockBGD (map fst cs) @ map LockInodeTable (map fst cs)
      @ map UnlockBGD (rev (map fst cs)) @ es) [] [] = lock_ok es [] (rev (map fst cs))"
      by (simp only: lock_ok_runs s set_rev subset_refl)
    ultimately show ?thesis
      by (auto simp del: map_map)
  next
    case False
    define cands' where "cands' = cands_of (obs (2 * k + 2)) fsOffset sb start fin [0..<numBlockGroups sb]"
    obtain evs' where e: "attempt_loop n (k + 1) obs fsOffset sb start fin cands' = (evs', r)"
      "evs = map LockBGD (map fst cs) @ map UnlockBGD (rev (map fst cs)) @ evs'"
      using False Suc.prems(1)
      by (auto simp: Let_def cs_def [symmetric] cands'_def split: prod.splits)
    have "distinct (map fst cands')"
      unfolding cands'_def by (rule distinct_cands) simp
    from Suc.IH [OF e(1) this] have IH: "DoWrite \<notin> set evs' \<and>
      (case r of
         None \<Rightarrow> lock_ok (evs' @ es) [] [] = lock_ok es [] []
       | Some cs \<Rightarrow> lock_ok (evs' @ es) [] [] = lock_ok es [] (rev (map fst cs)))" .
    have "lock_ok (evs @ es) [] [] = lock_ok (evs' @ es) [] []"
      unfolding e(2) append.assoc by (simp only: lock_ok_runs s)
    with IH e(2) show ?thesis
      by (auto split: option.splits)
  qed
qed

text \<open>The inode-table locks that are held after a list of events.\<close>

definition table_event :: "u32 set \<Rightarrow> lock_event \<Rightarrow> u32 set" where
  "table_event T e = (case e of LockInodeTable g \<Rightarrow> insert g T | UnlockInodeTable g \<Rightarrow> T - {g} | _ \<Rightarrow> T)"

definition tables_held :: "lock_event list \<Rightarrow> u32 set" where
  "tables_held evs = foldl table_event {} evs"

lemma table_events:
  "foldl table_event T (map LockBGD gs) = T" "foldl table_event T (map UnlockBGD gs) = T"
  "foldl table_event T (map LockInodeTable gs) = T \<union> set gs"
  by (induction gs arbitrary: T) (auto simp: table_event_def)

text \<open>
  The candidates of round \<open>k\<close>: the groups among those the write touches, and in the later rounds
  among all groups, whose descriptor, as read then, puts an inode table under the write.  A round
  is stable when every candidate's descriptor, read again under the locks, still says the same.
\<close>

definition round_cands :: "(nat \<Rightarrow> device) \<Rightarrow> int \<Rightarrow> superblock \<Rightarrow> int \<Rightarrow> int \<Rightarrow> nat \<Rightarrow> cand list" where
  "round_cands obs fsOffset sb start fin k =
    (if k = 0 then
       if BlocksPerGroup sb \<noteq> 0 \<and> InodesPerGroup sb \<noteq> 0
       then cands_of (obs 0) fsOffset sb start fin (touched_groups fsOffset sb start fin) else []
     else cands_of (obs (2 * k)) fsOffset sb start fin [0..<numBlockGroups sb])"

definition round_stable :: "(nat \<Rightarrow> device) \<Rightarrow> int \<Rightarrow> superblock \<Rightarrow> int \<Rightarrow> int \<Rightarrow> nat \<Rightarrow> bool" where
  "round_stable obs fsOffset sb start fin k =
    list_all (cand_stable (obs (2 * k + 1)) fsOffset sb start fin) (round_cands obs fsOffset sb start fin k)"

lemma attempt_loop_rounds:
  assumes "attempt_loop n k obs fsOffset sb start fin (round_cands obs fsOffset sb start fin k) = (evs, r)"
  shows "case r of
      None \<Rightarrow> list_all (\<lambda>j. \<not> round_stable obs fsOffset sb start fin j) [k..<k + n]
    | Some cs \<Rightarrow> \<exists>j < k + n. list_all (\<lambda>i. \<not> round_stable obs fsOffset sb start fin i) [k..<j] \<and> round_stable obs fsOffset sb start fin j
        \<and> (\<forall>T. foldl table_event T evs = T \<union> fst ` set (round_cands obs fsOffset sb start fin j))"
  using assms
proof (induction n arbitrary: k evs)
  case (Suc n)
  define cs where "cs = sort_key fst (round_cands obs fsOffset sb start fin k)"
  have st: "list_all (cand_stable (obs (2 * k + 1)) fsOffset sb start fin) cs \<longleftrightarrow> round_stable obs fsOffset sb start fin k"
    by (simp add: cs_def round_stable_def list_all_iff)
  show ?case
  proof (cases "round_stable obs fsOffset sb start fin k")
    case True
    with Suc.prems st have "evs = map LockBGD (map fst cs) @ map LockInodeTable (map fst cs) @ map UnlockBGD (rev (map fst cs))" "r = Some cs"
      by (simp_all add: Let_def cs_def [symmetric])
    then show ?thesis
      using True by (auto simp: table_events cs_def simp del: map_map intro!: exI [of _ k])
  next
    case False
    have nx: "round_cands obs fsOffset sb start fin (Suc k) = cands_of (obs (2 * k + 2)) fsOffset sb start fin [0..<numBlockGroups sb]"
      by (simp add: round_cands_def)
    obtain evs' where e: "attempt_loop n (Suc k) obs fsOffset sb start fin (round_cands obs fsOffset sb start fin (Suc k)) = (evs', r)"
      "evs = map LockBGD (map fst cs) @ map UnlockBGD (rev (map fst cs)) @ evs'"
      using False Suc.prems st unfolding nx by (auto simp: Let_def cs_def [symmetric] split: prod.splits)
    have fold: "foldl table_event T evs = foldl table_event T evs'" for T
      by (simp add: e(2) table_events del: map_map)
    show ?thesis
    proof (cases r)
      case None
      have "[k..<k + Suc n] = k # [Suc k..<Suc k + n]"
        by (simp add: upt_conv_Cons del: upt_Suc)
      with None show ?thesis
        using Suc.IH [OF e(1)] False by (simp only: option.case list.pred_inject simp_thms)
    next
      case (Some cs')
      then obtain j where j: "j < Suc k + n" "list_all (\<lambda>i. \<not> round_stable obs fsOffset sb start fin i) [Suc k..<j]" "round_stable obs fsOffset sb start fin j"
        "\<And>T. foldl table_event T evs' = T \<union> fst ` set (round_cands obs fsOffset sb start fin j)"
        using Suc.IH [OF e(1)] by auto
      have "list_all (\<lambda>i. \<not> round_stable obs fsOffset sb start fin i) [k..<j]"
        using j(2) False by (cases "k < j") (simp_all add: upt_conv_Cons)
      then show ?thesis
        using Some j fold by (auto intro!: exI [of _ j])
    qed
  qed
qed simp

section \<open>Properties\<close>

text \<open>C5: without interference, the inode-table locking detour of \<open>writeAtWithTrace\<close> is exactly a
  \<open>WriteAt\<close>: the same bytes reach the same place with the same result, whatever the offset,
  the data and the descriptors on the device, and the retry loop never gives up.\<close>

theorem writeAtWithTrace_is_WriteAt:
  "writeAtWithTrace fsOffset sb off data f = WriteAt off data f"
  by (rule writeAtWithTrace_eq)

text \<open>C6: whatever other goroutines do to the descriptors between its reads, \<open>writeAtWithTrace\<close> takes
  and releases its locks in the canonical order (descriptors before inode tables, in ascending
  groups, an inode table only under its descriptor lock, last in first out, all released at the
  end).  It writes in the first round that finds its candidates stable: once, with no descriptor
  lock held, and with the inode-table locks of all the candidates of that round and no others held,
  each of which was seen under its descriptor lock to have an inode table under the write.  When
  none of the eight rounds is stable it reports the unstable mapping and leaves the device alone.\<close>

theorem writeAtWithTrace_lock_order:
  "case writeAtWithTrace_obs obs fsOffset sb off data f of (evs, r, f') \<Rightarrow>
     let fin = i64 (off + int (length data)) in
     lock_ok evs [] [] \<and>
     (if DoWrite \<in> set evs then
        (r, f') = WriteAt off data f
        \<and> (\<exists>pre post k. evs = pre @ DoWrite # post \<and> DoWrite \<notin> set (pre @ post) \<and> k < maxAttempts
            \<and> list_all (\<lambda>j. \<not> round_stable obs fsOffset sb off fin j) [0..<k] \<and> round_stable obs fsOffset sb off fin k
            \<and> tables_held pre = fst ` set (round_cands obs fsOffset sb off fin k))
      else r = Inl ErrUnstable \<and> f' = f \<and> list_all (\<lambda>j. \<not> round_stable obs fsOffset sb off fin j) [0..<maxAttempts])"
proof -
  define fin where "fin = i64 (off + int (length data))"
  define cands where "cands = round_cands obs fsOffset sb off fin 0"
  have cands: "cands = (if BlocksPerGroup sb \<noteq> 0 \<and> InodesPerGroup sb \<noteq> 0
    then cands_of (obs 0) fsOffset sb off fin (touched_groups fsOffset sb off fin) else [])"
    by (simp add: cands_def round_cands_def)
  have dist: "distinct (map fst cands)"
    by (simp add: cands distinct_cands distinct_touched)
  obtain evs r where run: "attempt_loop maxAttempts 0 obs fsOffset sb off fin cands = (evs, r)"
    by (rule prod.exhaust)
  note locks = attempt_loop_locks [OF run dist]
  note rounds = attempt_loop_rounds [OF run [unfolded cands_def]]
  show ?thesis
  proof (cases "cands = []")
    case True
    then have "writeAtWithTrace_obs obs fsOffset sb off data f = ([DoWrite], WriteAt off data f)"
      unfolding writeAtWithTrace_obs_def Let_def fin_def [symmetric] cands [symmetric] by simp
    moreover have "round_stable obs fsOffset sb off fin 0" "round_cands obs fsOffset sb off fin 0 = []" "0 < maxAttempts"
      using True by (simp_all add: round_stable_def cands_def maxAttempts_def)
    ultimately show ?thesis
      by (auto simp: tables_held_def fin_def Let_def split: prod.split intro!: exI [of _ "[]"] exI [of _ 0])
  next
    case False
    show ?thesis
    proof (cases r)
      case None
      with False run have "writeAtWithTrace_obs obs fsOffset sb off data f = (evs, Inl ErrUnstable, f)"
        unfolding writeAtWithTrace_obs_def Let_def fin_def [symmetric] cands [symmetric] by simp
      with locks [of "[]"] rounds None show ?thesis
        by (simp add: fin_def Let_def)
    next
      case (Some cs)
      define post where "post = map UnlockInodeTable (rev (map fst cs))"
      have w: "writeAtWithTrace_obs obs fsOffset sb off data f = (evs @ DoWrite # post, WriteAt off data f)"
        using Some False run unfolding writeAtWithTrace_obs_def Let_def fin_def [symmetric] cands [symmetric] by (simp add: post_def)
      have ok: "lock_ok (evs @ DoWrite # post) [] []"
        using locks [of "DoWrite # post"] Some
        by (simp only: option.case lock_ok.simps lock_ok_runs simp_thms post_def)
      obtain k where k: "k < maxAttempts" "list_all (\<lambda>j. \<not> round_stable obs fsOffset sb off fin j) [0..<k]" "round_stable obs fsOffset sb off fin k"
        "tables_held evs = fst ` set (round_cands obs fsOffset sb off fin k)"
        using rounds Some by (auto simp: tables_held_def)
      have "DoWrite \<notin> set (evs @ post)"
        using locks by (auto simp: post_def)
      with k have "\<exists>pre p k. evs @ DoWrite # post = pre @ DoWrite # p \<and> DoWrite \<notin> set (pre @ p) \<and> k < maxAttempts
            \<and> list_all (\<lambda>j. \<not> round_stable obs fsOffset sb off fin j) [0..<k] \<and> round_stable obs fsOffset sb off fin k
            \<and> tables_held pre = fst ` set (round_cands obs fsOffset sb off fin k)"
        by blast
      with ok show ?thesis
        unfolding w fin_def [symmetric] Let_def by (simp split: prod.split)
    qed
  qed
qed

end
