(* ===== verification/Limits.thy ===== *)
theory Limits
  imports Rawio "HOL-Library.Multiset"
begin

text \<open>
  \<open>limits.go\<close>: the ceilings on what a hostile image can make the driver allocate or walk,
  and the check that the leaves of an extent tree do not overlap.  The package
  \<open>go-volumes/safeio\<close> is not part of the repository; what the driver calls of it is the record
  \<open>safeio\<close>, an argument of the definitions that use it, and its documented behaviour is
  stated by \<open>makeBytes_ok\<close>, \<open>checkBounds_ok\<close> and \<open>visitSet_ok\<close>.
\<close>

section \<open>The safeio package\<close>

record 'v safeio =
  VisitSet0 :: 'v
  Check :: "'v \<Rightarrow> u64 \<Rightarrow> 'v result"
  MakeBytes :: "int \<Rightarrow> int \<Rightarrow> byte list result"
  CheckBounds :: "int \<Rightarrow> int \<Rightarrow> int \<Rightarrow> bool"

definition makeBytes_ok :: "'v safeio \<Rightarrow> bool" where
  "makeBytes_ok S \<longleftrightarrow>
     (\<forall>n mx. 0 \<le> n \<and> n \<le> mx \<longrightarrow> MakeBytes S n mx = Inr (zeros (nat n)))
   \<and> (\<forall>n mx. mx < n \<longrightarrow> MakeBytes S n mx = Inl ErrTooLarge)"

definition checkBounds_ok :: "'v safeio \<Rightarrow> bool" where
  "checkBounds_ok S \<longleftrightarrow>
     (\<forall>off n len. CheckBounds S off n len \<longleftrightarrow> 0 \<le> off \<and> 0 \<le> n \<and> off + n \<le> len)"

definition visitSet_ok :: "'v safeio \<Rightarrow> ('v \<Rightarrow> u64 set) \<Rightarrow> bool" where
  "visitSet_ok S visited \<longleftrightarrow>
     visited (VisitSet0 S) = {}
   \<and> (\<forall>v b v'. Check S v b = Inr v' \<longrightarrow> b \<notin> visited v \<and> visited v' = insert b (visited v))
   \<and> (\<forall>v b. b \<notin> visited v \<longrightarrow> (\<exists>v'. Check S v b = Inr v'))"

text \<open>A reference implementation, for evaluation.\<close>

definition safeio_ref :: "u64 list safeio" where
  "safeio_ref =
    \<lparr>VisitSet0 = [],
     Check = (\<lambda>v b. if b \<in> set v then Inl ErrOutOfBounds else Inr (b # v)),
     MakeBytes = (\<lambda>n mx. if n < 0 \<or> mx < n then Inl ErrTooLarge else Inr (zeros (nat n))),
     CheckBounds = (\<lambda>off n len. 0 \<le> off \<and> 0 \<le> n \<and> off + n \<le> len)\<rparr>"

lemma safeio_ref_ok:
  "makeBytes_ok safeio_ref" "checkBounds_ok safeio_ref" "visitSet_ok safeio_ref set"
  by (auto simp: makeBytes_ok_def checkBounds_ok_def visitSet_ok_def safeio_ref_def split: if_splits)

section \<open>Ceilings\<close>

abbreviation (input) MaxInt64 :: int where "MaxInt64 \<equiv> 9223372036854775807"
abbreviation (input) DefaultMaxReadSize :: int where "DefaultMaxReadSize \<equiv> 1073741824"

definition maxReadLimit :: "superblock \<Rightarrow> int" where
  "maxReadLimit sb = (if maxRead sb > 0 then maxRead sb else DefaultMaxReadSize)"

definition declaredBytes :: "superblock \<Rightarrow> int \<times> bool" where
  "declaredBytes sb =
    (if BlocksCount sb = 0 \<or> BlockSize sb = 0 then (0, False)
     else if BlocksCount sb > 9223372036854775807 div BlockSize sb then (MaxInt64, True)
     else (i64 (i64 (int (BlocksCount sb)) * int (BlockSize sb)), True))"

definition fileSizeCeiling :: "superblock \<Rightarrow> int \<Rightarrow> int" where
  "fileSizeCeiling sb fallback =
    (let (mx0, ok) = declaredBytes sb;
         mx = (if \<not> ok then fallback else mx0);
         lim = maxReadLimit sb
     in if mx > lim \<or> mx \<le> 0 then lim else mx)"

definition blockBudget :: "superblock \<Rightarrow> u64" where
  "blockBudget sb =
    (let bs = (if BlockSize sb = 0 then 1024 else BlockSize sb);
         (budget0, known0) = (if BlocksCount sb \<noteq> 0 then (BlocksCount sb, True) else (0, False));
         (budget1, known1) =
           (if deviceBytes sb > 0 then
              let d = nat (deviceBytes sb) div bs in
              if \<not> known0 \<or> d < budget0 then (d, True) else (budget0, known0)
            else (budget0, known0))
     in if \<not> known1 then nat (maxReadLimit sb) div bs else budget1)"

definition SetMaxReadSize :: "int \<Rightarrow> superblock \<Rightarrow> superblock" where
  "SetMaxReadSize n sb = sb\<lparr>maxRead := (if n < 0 then 0 else n)\<rparr>"

definition MaxReadSize :: "superblock \<Rightarrow> int" where
  "MaxReadSize sb = maxReadLimit sb"

definition clampInt64 :: "u64 \<Rightarrow> int" where
  "clampInt64 v = (if v > 9223372036854775807 then MaxInt64 else int v)"

section \<open>Extent leaves and their overlap check\<close>

record extentLeaf =
  LogBlock :: u32
  PhysBlock :: u64
  Count :: u16

fun runs_ordered :: "(extentLeaf \<Rightarrow> u64) \<Rightarrow> u64 option \<Rightarrow> extentLeaf list \<Rightarrow> bool" where
  "runs_ordered start prevEnd [] = True"
| "runs_ordered start prevEnd (l # ls) =
    (if Count l = 0 then runs_ordered start prevEnd ls
     else if (case prevEnd of Some e \<Rightarrow> start l < e | None \<Rightarrow> False) then False
     else runs_ordered start (Some (w64 (start l + Count l))) ls)"

fun adjacent_ok :: "(extentLeaf \<Rightarrow> u64) \<Rightarrow> extentLeaf list \<Rightarrow> bool" where
  "adjacent_ok start (a # b # ls) =
    (if start b < w64 (start a + Count a) then False else adjacent_ok start (b # ls))"
| "adjacent_ok start ls = True"

definition checkRuns :: "extentLeaf list \<Rightarrow> (extentLeaf \<Rightarrow> u64) \<Rightarrow> unit result" where
  "checkRuns leaves start =
    (if runs_ordered start None leaves then Inr ()
     else
       let cp = sort_key start (filter (\<lambda>l. Count l \<noteq> 0) leaves)
       in if adjacent_ok start cp then Inr () else Inl ErrOutOfBounds)"

definition validateExtents :: "extentLeaf list \<Rightarrow> unit result" where
  "validateExtents leaves =
    (if length leaves < 2 then Inr ()
     else res_bind (checkRuns leaves LogBlock) (\<lambda>_. checkRuns leaves PhysBlock))"

section \<open>Correctness of the overlap check\<close>

text \<open>The reference: the ranges of any two leaves of non-zero length are apart.\<close>

definition run_apart :: "(extentLeaf \<Rightarrow> u64) \<Rightarrow> extentLeaf \<Rightarrow> extentLeaf \<Rightarrow> bool" where
  "run_apart start a b \<longleftrightarrow> start a + Count a \<le> start b \<or> start b + Count b \<le> start a"

definition no_overlap :: "(extentLeaf \<Rightarrow> u64) \<Rightarrow> extentLeaf list \<Rightarrow> bool" where
  "no_overlap start leaves \<longleftrightarrow> sorted_wrt (run_apart start) (filter (\<lambda>l. Count l \<noteq> 0) leaves)"

definition run_bounded :: "(extentLeaf \<Rightarrow> u64) \<Rightarrow> extentLeaf list \<Rightarrow> bool" where
  "run_bounded start leaves \<longleftrightarrow> (\<forall>l\<in>set leaves. start l + Count l < 18446744073709551616)"

lemma sorted_wrt_perm_sym:
  assumes "\<And>a b. P a b = P b a" "mset xs = mset ys" "sorted_wrt P xs"
  shows "sorted_wrt P ys"
  using assms(2,3)
proof (induction xs arbitrary: ys)
  case (Cons x xs)
  then have "x \<in> set ys"
    by (metis list.set_intros(1) set_mset_mset)
  then obtain ys1 ys2 where ys: "ys = ys1 @ x # ys2"
    by (meson split_list)
  with Cons.prems have ms: "mset xs = mset (ys1 @ ys2)"
    by simp
  then have "sorted_wrt P (ys1 @ ys2)"
    using Cons by auto
  moreover have "set xs = set ys1 \<union> set ys2"
    using ms by (metis set_append set_mset_mset)
  ultimately show ?case
    using Cons.prems(2) ys assms(1) by (auto simp: sorted_wrt_append)
qed simp

lemma run_apart_sym: "run_apart start a b = run_apart start b a"
  by (auto simp: run_apart_def)

lemma runs_ordered_sorted:
  assumes "run_bounded start leaves" "runs_ordered start pe leaves"
  shows "sorted_wrt (\<lambda>a b. start a + Count a \<le> start b) (filter (\<lambda>l. Count l \<noteq> 0) leaves)
    \<and> (\<forall>l\<in>set leaves. Count l \<noteq> 0 \<longrightarrow> (case pe of Some e \<Rightarrow> e \<le> start l | None \<Rightarrow> True))"
  using assms
proof (induction start pe leaves rule: runs_ordered.induct)
  case (2 start pe l ls)
  show ?case
  proof (cases "Count l = 0")
    case True
    with 2 show ?thesis
      by (simp add: run_bounded_def)
  next
    case False
    have b: "w64 (start l + Count l) = start l + Count l" "run_bounded start ls"
      using 2(3) by (simp_all add: run_bounded_def)
    have "\<not> (case pe of Some e \<Rightarrow> start l < e | None \<Rightarrow> False)"
      using 2(4) False by (simp split: if_splits)
    moreover have "runs_ordered start (Some (start l + Count l)) ls"
      using 2(4) False b by (simp split: if_splits)
    ultimately have IH: "sorted_wrt (\<lambda>a b. start a + Count a \<le> start b) (filter (\<lambda>l. Count l \<noteq> 0) ls)
      \<and> (\<forall>x\<in>set ls. Count x \<noteq> 0 \<longrightarrow> start l + Count l \<le> start x)"
      using 2(2) False b by simp
    then show ?thesis
      using False \<open>\<not> (case pe of Some e \<Rightarrow> start l < e | None \<Rightarrow> False)\<close>
      by (auto split: option.splits)
  qed
qed simp

lemma adjacent_ok_iff:
  assumes "run_bounded start ls" "sorted (map start ls)" "\<forall>l\<in>set ls. Count l \<noteq> 0"
  shows "adjacent_ok start ls \<longleftrightarrow> sorted_wrt (run_apart start) ls"
  using assms
proof (induction start ls rule: adjacent_ok.induct)
  case (1 start a b ls)
  have b: "w64 (start a + Count a) = start a + Count a"
    using 1(2) by (simp add: run_bounded_def)
  have IH: "adjacent_ok start (b # ls) \<longleftrightarrow> sorted_wrt (run_apart start) (b # ls)" if "\<not> start b < start a + Count a"
    using that 1 b by (simp add: run_bounded_def)
  have "start a \<le> start b" "\<forall>l\<in>set ls. start b \<le> start l" "0 < Count b" "0 < Count a"
    using 1(3,4) by auto
  then have far: "run_apart start a x" if "start a + Count a \<le> start b" "x \<in> set (b # ls)" for x
    using that by (auto simp: run_apart_def)
  show ?case
  proof (cases "start b < start a + Count a")
    case True
    then have "\<not> run_apart start a b"
      using \<open>start a \<le> start b\<close> \<open>0 < Count b\<close> by (auto simp: run_apart_def)
    with True b show ?thesis
      by simp
  next
    case False
    with IH b far show ?thesis
      by simp
  qed
qed simp_all

lemma checkRuns_iff:
  assumes "run_bounded start leaves"
  shows "checkRuns leaves start = Inr () \<longleftrightarrow> no_overlap start leaves"
proof (cases "runs_ordered start None leaves")
  case True
  from runs_ordered_sorted [OF assms True]
  have "sorted_wrt (run_apart start) (filter (\<lambda>l. Count l \<noteq> 0) leaves)"
    by (auto simp: run_apart_def elim!: sorted_wrt_mono_rel [rotated])
  with True show ?thesis
    by (simp add: checkRuns_def no_overlap_def)
next
  case False
  define cp where "cp = sort_key start (filter (\<lambda>l. Count l \<noteq> 0) leaves)"
  have "run_bounded start cp" "sorted (map start cp)" "\<forall>l\<in>set cp. Count l \<noteq> 0"
    using assms by (auto simp: cp_def run_bounded_def)
  then have "adjacent_ok start cp \<longleftrightarrow> sorted_wrt (run_apart start) cp"
    by (rule adjacent_ok_iff)
  also have "\<dots> \<longleftrightarrow> no_overlap start leaves"
    unfolding no_overlap_def
    using sorted_wrt_perm_sym [of "run_apart start" cp "filter (\<lambda>l. Count l \<noteq> 0) leaves"]
      sorted_wrt_perm_sym [of "run_apart start" "filter (\<lambda>l. Count l \<noteq> 0) leaves" cp]
      run_apart_sym by (metis cp_def mset_sort)
  finally show ?thesis
    using False unfolding checkRuns_def Let_def cp_def [symmetric] by simp
qed

lemma checkRuns_error: "checkRuns leaves start = Inl e \<Longrightarrow> e = ErrOutOfBounds"
  by (auto simp: checkRuns_def Let_def split: if_splits)

section \<open>Properties\<close>

text \<open>C7: \<open>validateExtents\<close> accepts a list of leaves exactly when no two leaves of non-zero length
  overlap, logically or physically, whether it took the one-pass path or sorted a copy; when
  it refuses, it is with \<open>ErrOutOfBounds\<close>.\<close>

theorem validateExtents_iff:
  assumes "run_bounded LogBlock leaves" "run_bounded PhysBlock leaves"
  shows "validateExtents leaves =
    (if no_overlap LogBlock leaves \<and> no_overlap PhysBlock leaves then Inr () else Inl ErrOutOfBounds)"
proof (cases "length leaves < 2")
  case True
  then have "length (filter (\<lambda>l. Count l \<noteq> 0) leaves) < 2"
    by (metis le_less_trans length_filter_le)
  then have "no_overlap start leaves" for start
    unfolding no_overlap_def
    by (cases "filter (\<lambda>l. Count l \<noteq> 0) leaves") (auto simp: length_Suc_conv less_Suc_eq numeral_2_eq_2)
  with True show ?thesis
    by (simp add: validateExtents_def)
next
  case False
  have "checkRuns leaves start = (if no_overlap start leaves then Inr () else Inl ErrOutOfBounds)"
    if "run_bounded start leaves" for start
    using checkRuns_iff [OF that] checkRuns_error [of leaves start]
    by (cases "checkRuns leaves start") auto
  with False assms show ?thesis
    by (simp add: validateExtents_def)
qed

theorem validateExtents_iff_witness:
  "validateExtents [\<lparr>LogBlock = 8, PhysBlock = 100, Count = 4\<rparr>, \<lparr>LogBlock = 0, PhysBlock = 50, Count = 8\<rparr>]
     = Inr () \<and>
   validateExtents [\<lparr>LogBlock = 8, PhysBlock = 100, Count = 4\<rparr>, \<lparr>LogBlock = 0, PhysBlock = 103, Count = 8\<rparr>]
     = Inl ErrOutOfBounds"
  by (simp add: validateExtents_iff run_bounded_def no_overlap_def run_apart_def)

end
