(* ===== verification/Sample.thy ===== *)
theory Sample
  imports Bgd
begin

text \<open>
  A small file system used to evaluate the model: one group of 64 blocks of 64 bytes.  The
  descriptor is in block 2, the block bitmap in block 3, the inode bitmap in block 4, four
  128-byte inodes in blocks 5 to 12, the superblock copy at byte 1024 (blocks 16 to 31), and
  blocks 32 to 63 are free data blocks.
\<close>

definition mini_sb :: superblock where
  "mini_sb =
    \<lparr>sb_raw = zeros 1024, InodesCount = 4, BlocksCount = 64, FreeBlocksCount = 32,
     FreeInodesCount = 2, FirstDataBlock = 0, BlockSize = 64, BlocksPerGroup = 64,
     InodesPerGroup = 4, Magic = 0xEF53, FeatureIncompat = 0, FeatureROCompat = 0,
     UUID = replicate 16 0, Label = [], InodeSize = 128, DescSize = 32, LogGroupsPerFlex = 0,
     ChecksumSeed = 0, ChecksumType = 0, maxRead = 0, deviceBytes = 0\<rparr>"

text \<open>The same geometry without the raw copy, for evaluation by rewriting.\<close>

definition tiny_sb :: superblock where
  "tiny_sb =
    \<lparr>sb_raw = [], InodesCount = 4, BlocksCount = 64, FreeBlocksCount = 32,
     FreeInodesCount = 2, FirstDataBlock = 0, BlockSize = 64, BlocksPerGroup = 64,
     InodesPerGroup = 4, Magic = 0xEF53, FeatureIncompat = 0, FeatureROCompat = 0,
     UUID = [], Label = [], InodeSize = 128, DescSize = 32, LogGroupsPerFlex = 0,
     ChecksumSeed = 0, ChecksumType = 0, maxRead = 0, deviceBytes = 0\<rparr>"

definition mini_byte :: "nat \<Rightarrow> byte" where
  "mini_byte i =
    (if i = 128 then 3 else if i = 132 then 4 else if i = 136 then 5
     else if i = 140 then 32 else if i = 142 then 2
     else if 192 \<le> i \<and> i < 196 then 0xFF
     else if i = 256 then 3 else 0)"

definition mini_dev :: device where
  "mini_dev = \<lparr>dev_size = 4096, dev_byte = mini_byte, dev_side = OsFile\<rparr>"

lemma mini_sb_simps [simp]:
  "sb_raw mini_sb = zeros 1024" "InodesCount mini_sb = 4" "BlocksCount mini_sb = 64"
  "FreeBlocksCount mini_sb = 32" "FreeInodesCount mini_sb = 2" "FirstDataBlock mini_sb = 0"
  "BlockSize mini_sb = 64" "BlocksPerGroup mini_sb = 64" "InodesPerGroup mini_sb = 4"
  "FeatureIncompat mini_sb = 0" "FeatureROCompat mini_sb = 0" "InodeSize mini_sb = 128"
  "DescSize mini_sb = 32" "maxRead mini_sb = 0" "deviceBytes mini_sb = 0"
  by (simp_all add: mini_sb_def)

lemma mini_dev_simps [simp]:
  "dev_size mini_dev = 4096" "dev_byte mini_dev = mini_byte" "dev_side mini_dev = OsFile"
  "dev_writable mini_dev"
  by (simp_all add: mini_dev_def dev_writable_def)

lemma mini_geometry [simp]:
  "numBlockGroups mini_sb = 1" "bgdTableBlock mini_sb = 2" "descOff mini_sb 0 = 128"
  "\<not> wide_desc mini_sb"
  by (simp_all add: numBlockGroups_def bgdTableBlock_def descOff_def wide_desc_def has_flag_def
      sub64_def w64_def)

definition mini_bgd :: bgd where
  "mini_bgd =
    \<lparr>bg_raw = map mini_byte [128..<160], bg_BlockBitmapBlock = 3, bg_InodeBitmapBlock = 4,
     bg_InodeTableBlock = 5, bg_FreeBlocksCount = 32, bg_FreeInodesCount = 2,
     bg_UsedDirsCount = 0, bg_Flags = 0\<rparr>"

lemma decode_mini: "decodeBGD (map mini_byte [128..<128 + 32]) mini_sb = mini_bgd"
  unfolding decodeBGD_def u16_at_def u32_at_def
  by (simp only: bytes_at_map_upt) (simp add: mini_byte_def mini_bgd_def)

lemma readBGD_mini: "readBGD mini_dev 0 mini_sb 0 = Inr mini_bgd"
proof -
  have "ReadAt mini_dev 128 32 = Inr (map mini_byte [128..<128 + 32])"
    unfolding ReadAt_Inr_iff by simp
  then show ?thesis
    using decode_mini by (simp add: readBGD_def)
qed

end
