(* ===== verification/Inode.thy ===== *)
theory Inode
  imports Limits Sample
begin

text \<open>
  \<open>inode.go\<close>: the in-memory inode, its place in the inode table, the read with its
  read-verify-retry protocol, the field setters and the checksum.  As in \<open>Rawio\<close>, \<open>obs\<close> gives
  the device as each descriptor read of the retry loop sees it.
\<close>

section \<open>The inode\<close>

record inode =
  in_raw :: "byte list"
  in_num :: u32
  in_size :: u64
  in_mode :: u16

abbreviation (input) inodeOffMode :: nat where "inodeOffMode \<equiv> 0"
abbreviation (input) inodeOffSizeLo :: nat where "inodeOffSizeLo \<equiv> 4"
abbreviation (input) inodeOffLinksCount :: nat where "inodeOffLinksCount \<equiv> 26"
abbreviation (input) inodeOffFlags :: nat where "inodeOffFlags \<equiv> 32"
abbreviation (input) inodeOffBlock :: nat where "inodeOffBlock \<equiv> 40"
abbreviation (input) inodeOffGeneration :: nat where "inodeOffGeneration \<equiv> 100"
abbreviation (input) inodeOffFilACLLo :: nat where "inodeOffFilACLLo \<equiv> 104"
abbreviation (input) inodeOffSizeHi :: nat where "inodeOffSizeHi \<equiv> 108"
abbreviation (input) inodeOffCsumLo :: nat where "inodeOffCsumLo \<equiv> 124"
abbreviation (input) inodeOffExtraIsize :: nat where "inodeOffExtraIsize \<equiv> 128"
abbreviation (input) inodeOffCsumHi :: nat where "inodeOffCsumHi \<equiv> 130"

definition decode_inode :: "u32 \<Rightarrow> byte list \<Rightarrow> inode" where
  "decode_inode num raw =
    \<lparr>in_raw = raw, in_num = num,
     in_size = join32 (u32_at raw inodeOffSizeHi) (u32_at raw inodeOffSizeLo),
     in_mode = u16_at raw inodeOffMode\<rparr>"

definition inode_flags :: "inode \<Rightarrow> u32" where
  "inode_flags i = u32_at (in_raw i) inodeOffFlags"

definition isDir :: "inode \<Rightarrow> bool" where
  "isDir i \<longleftrightarrow> in_mode i AND 0xF000 = 0x4000"

definition isRegular :: "inode \<Rightarrow> bool" where
  "isRegular i \<longleftrightarrow> in_mode i AND 0xF000 = 0x8000"

definition isSymlink :: "inode \<Rightarrow> bool" where
  "isSymlink i \<longleftrightarrow> in_mode i AND 0xF000 = 0xA000"

definition generation :: "inode \<Rightarrow> u32" where
  "generation i = u32_at (in_raw i) inodeOffGeneration"

definition iblock :: "inode \<Rightarrow> byte list" where
  "iblock i = bytes_at (in_raw i) inodeOffBlock 60"

section \<open>Finding and reading\<close>

definition inode_group :: "superblock \<Rightarrow> u32 \<Rightarrow> u32" where
  "inode_group sb num = (num - 1) div InodesPerGroup sb"

definition inode_index :: "superblock \<Rightarrow> u32 \<Rightarrow> u32" where
  "inode_index sb num = (num - 1) mod InodesPerGroup sb"

definition inode_off_in :: "superblock \<Rightarrow> bgd \<Rightarrow> u32 \<Rightarrow> int" where
  "inode_off_in sb d num =
    i64 (i64 (i64 (int (bg_InodeTableBlock d)) * int (BlockSize sb))
         + i64 (int (inode_index sb num) * int (InodeSize sb)))"

definition inodeDiskOffset :: "device \<Rightarrow> int \<Rightarrow> superblock \<Rightarrow> u32 \<Rightarrow> int result" where
  "inodeDiskOffset f fsOffset sb num =
    (if num = 0 then Inl ErrInodeInvalid
     else if InodesPerGroup sb = 0 then Inl Panic
     else res_bind (readBGD f fsOffset sb (inode_group sb num)) (\<lambda>d. Inr (inode_off_in sb d num)))"

fun readInode_loop :: "nat \<Rightarrow> nat \<Rightarrow> (nat \<Rightarrow> device) \<Rightarrow> int \<Rightarrow> superblock \<Rightarrow> u32 \<Rightarrow> inode result" where
  "readInode_loop 0 k obs fsOffset sb num = Inl ErrUnstable"
| "readInode_loop (Suc n) k obs fsOffset sb num =
    res_bind (readBGD (obs (2 * k)) fsOffset sb (inode_group sb num)) (\<lambda>d1.
    res_bind (readBGD (obs (2 * k + 1)) fsOffset sb (inode_group sb num)) (\<lambda>d2.
      if bg_InodeTableBlock d1 \<noteq> bg_InodeTableBlock d2
      then readInode_loop n (k + 1) obs fsOffset sb num
      else res_bind (ReadAt (obs (2 * k + 1)) (i64 (fsOffset + inode_off_in sb d1 num)) (InodeSize sb))
             (\<lambda>raw. Inr (decode_inode num raw))))"

definition readInode_obs :: "(nat \<Rightarrow> device) \<Rightarrow> int \<Rightarrow> superblock \<Rightarrow> u32 \<Rightarrow> inode result" where
  "readInode_obs obs fsOffset sb num =
    (if num = 0 then Inl ErrInodeInvalid
     else if num > InodesCount sb then Inl ErrInodeRange
     else if InodesPerGroup sb = 0 then Inl Panic
     else readInode_loop maxAttempts 0 obs fsOffset sb num)"

definition readInode :: "device \<Rightarrow> int \<Rightarrow> superblock \<Rightarrow> u32 \<Rightarrow> inode result" where
  "readInode f = readInode_obs (\<lambda>_. f)"

section \<open>Setters and checksum\<close>

definition setSize :: "u64 \<Rightarrow> inode \<Rightarrow> inode" where
  "setSize sz i =
    i\<lparr>in_raw := put_u32 (put_u32 (in_raw i) inodeOffSizeLo (sz AND 0xFFFFFFFF))
                  inodeOffSizeHi (w32 (drop_bit 32 sz)),
      in_size := sz\<rparr>"

definition setBlocks512 :: "u32 \<Rightarrow> inode \<Rightarrow> inode" where
  "setBlocks512 n i = i\<lparr>in_raw := put_u32 (in_raw i) 28 n\<rparr>"

definition setMode :: "u16 \<Rightarrow> u16 \<Rightarrow> inode \<Rightarrow> inode" where
  "setMode mode links i =
    i\<lparr>in_raw := put_u16 (put_u16 (in_raw i) inodeOffMode mode) inodeOffLinksCount links,
      in_mode := mode\<rparr>"

definition computeInodeCsum :: "superblock \<Rightarrow> inode \<Rightarrow> inode" where
  "computeInodeCsum sb i =
    (let raw1 = put_u16 (in_raw i) inodeOffCsumLo 0;
         big = length (in_raw i) > inodeOffCsumHi + 2;
         raw2 = (if big then put_u16 raw1 inodeOffCsumHi 0 else raw1);
         csum0 = crc32c (csumSeed sb) (le_bytes 4 (in_num i));
         csum1 = crc32c csum0 (le_bytes 4 (u32_at raw2 inodeOffGeneration));
         csum = crc32c csum1 raw2;
         raw3 = put_u16 raw2 inodeOffCsumLo (w16 (csum AND 0xFFFF));
         raw4 = (if big then put_u16 raw3 inodeOffCsumHi (w16 (drop_bit 16 csum)) else raw3)
     in i\<lparr>in_raw := raw4\<rparr>)"

text \<open>\<open>addInodeToTx\<close> without a transaction and without a journal, and \<open>writeInode\<close>.\<close>

definition inode_writeBuf :: "superblock \<Rightarrow> inode \<Rightarrow> inode" where
  "inode_writeBuf sb i =
    (if has_flag (FeatureROCompat sb) FeatROCompatMetadataCsum then computeInodeCsum sb i else i)"

definition writeInode :: "int \<Rightarrow> superblock \<Rightarrow> inode \<Rightarrow> (device, inode) io" where
  "writeInode fsOffset sb i f =
    (if InodesPerGroup sb = 0 then (Inl Panic, f)
     else case readBGD f fsOffset sb (sub32 (in_num i) 1 div InodesPerGroup sb) of
       Inl e \<Rightarrow> (Inl e, f)
     | Inr d \<Rightarrow>
         let i' = inode_writeBuf sb i;
             off = i64 (i64 (i64 (int (bg_InodeTableBlock d)) * int (BlockSize sb))
               + i64 (int (sub32 (in_num i) 1 mod InodesPerGroup sb) * int (InodeSize sb)))
         in case writeAtWithTrace fsOffset sb (i64 (fsOffset + off)) (in_raw i') f of
              (Inl e, f') \<Rightarrow> (Inl e, f')
            | (Inr _, f') \<Rightarrow> (Inr i', f'))"

section \<open>The invariant of an in-memory inode\<close>

definition inode_wf :: "superblock \<Rightarrow> inode \<Rightarrow> bool" where
  "inode_wf sb i \<longleftrightarrow> length (in_raw i) = InodeSize sb \<and> decode_inode (in_num i) (in_raw i) = i"

lemma inode_wf_iff:
  "inode_wf sb i \<longleftrightarrow> length (in_raw i) = InodeSize sb
     \<and> in_size i = join32 (u32_at (in_raw i) 108) (u32_at (in_raw i) 4)
     \<and> in_mode i = u16_at (in_raw i) 0"
  by (cases i) (auto simp: inode_wf_def decode_inode_def)

lemma decode_inode_wf: "length raw = InodeSize sb \<Longrightarrow> inode_wf sb (decode_inode num raw)"
  by (simp add: inode_wf_def decode_inode_def)

lemma setSize_wf:
  assumes "inode_wf sb i" "128 \<le> InodeSize sb" "sz < 18446744073709551616"
  shows "inode_wf sb (setSize sz i)"
proof -
  have "sz div 4294967296 < 4294967296"
    using assms(3) by auto
  with assms(1,2) show ?thesis
    by (simp add: inode_wf_iff setSize_def codec_simps and_mask32 drop_bit_eq_div)
qed

lemma setMode_wf:
  "inode_wf sb i \<Longrightarrow> 128 \<le> InodeSize sb \<Longrightarrow> mode < 65536 \<Longrightarrow> inode_wf sb (setMode mode links i)"
  by (simp add: inode_wf_iff setMode_def codec_simps)

lemma setBlocks512_wf:
  "inode_wf sb i \<Longrightarrow> 128 \<le> InodeSize sb \<Longrightarrow> inode_wf sb (setBlocks512 n i)"
  by (simp add: inode_wf_iff setBlocks512_def codec_simps)

lemma computeInodeCsum_wf:
  assumes "inode_wf sb i" "128 \<le> InodeSize sb"
  shows "inode_wf sb (computeInodeCsum sb i)"
  using assms by (simp add: inode_wf_iff computeInodeCsum_def Let_def codec_simps)

lemma computeInodeCsum_num [simp]: "in_num (computeInodeCsum sb i) = in_num i"
  by (simp add: computeInodeCsum_def Let_def)

lemma inode_writeBuf_wf:
  "inode_wf sb i \<Longrightarrow> 128 \<le> InodeSize sb \<Longrightarrow> inode_wf sb (inode_writeBuf sb i)"
  by (simp add: inode_writeBuf_def computeInodeCsum_wf)

lemma inode_writeBuf_num [simp]: "in_num (inode_writeBuf sb i) = in_num i"
  by (simp add: inode_writeBuf_def)

section \<open>Reading without interference\<close>

lemma readInode_eq:
  "readInode f fsOffset sb num =
    (if num = 0 then Inl ErrInodeInvalid
     else if num > InodesCount sb then Inl ErrInodeRange
     else if InodesPerGroup sb = 0 then Inl Panic
     else res_bind (readBGD f fsOffset sb (inode_group sb num)) (\<lambda>d.
            res_bind (ReadAt f (i64 (fsOffset + inode_off_in sb d num)) (InodeSize sb))
              (\<lambda>raw. Inr (decode_inode num raw))))"
proof -
  have loop: "readInode_loop (Suc n) 0 (\<lambda>_. f) fsOffset sb num =
    res_bind (readBGD f fsOffset sb (inode_group sb num)) (\<lambda>d.
            res_bind (ReadAt f (i64 (fsOffset + inode_off_in sb d num)) (InodeSize sb))
              (\<lambda>raw. Inr (decode_inode num raw)))" for n
    by (cases "readBGD f fsOffset sb (inode_group sb num)") simp_all
  show ?thesis
    unfolding readInode_def readInode_obs_def maxAttempts_Suc loop by (rule refl)
qed

lemma readInode_Inr:
  assumes "readInode f fsOffset sb num = Inr i"
  obtains d raw where "readBGD f fsOffset sb (inode_group sb num) = Inr d"
    "ReadAt f (i64 (fsOffset + inode_off_in sb d num)) (InodeSize sb) = Inr raw"
    "i = decode_inode num raw" "0 < num" "num \<le> InodesCount sb" "0 < InodesPerGroup sb"
  using assms by (auto simp: readInode_eq res_bind_Inr_iff split: if_splits)

lemma readInode_wf_aux:
  assumes "readInode f fsOffset sb num = Inr i"
  shows "inode_wf sb i \<and> in_num i = num"
  using assms by (rule readInode_Inr) (auto dest: ReadAt_length simp: decode_inode_wf, simp add: decode_inode_def)

text \<open>
  The read loop under interference: the inode returned was read, in one round, at the offset
  the descriptor had both before and after the inode-table lock was taken.
\<close>

definition inode_read_at :: "(nat \<Rightarrow> device) \<Rightarrow> int \<Rightarrow> superblock \<Rightarrow> u32 \<Rightarrow> inode \<Rightarrow> nat \<Rightarrow> bool" where
  "inode_read_at obs fsOffset sb num i j \<longleftrightarrow> (\<exists>d1 d2 raw.
     readBGD (obs (2 * j)) fsOffset sb (inode_group sb num) = Inr d1 \<and>
     readBGD (obs (2 * j + 1)) fsOffset sb (inode_group sb num) = Inr d2 \<and>
     bg_InodeTableBlock d1 = bg_InodeTableBlock d2 \<and>
     ReadAt (obs (2 * j + 1)) (i64 (fsOffset + inode_off_in sb d2 num)) (InodeSize sb) = Inr raw \<and>
     i = decode_inode num raw)"

lemma readInode_loop_sound:
  assumes "readInode_loop n k obs fsOffset sb num = Inr i"
  shows "\<exists>j\<ge>k. j < k + n \<and> inode_read_at obs fsOffset sb num i j"
  using assms
proof (induction n arbitrary: k)
  case (Suc n)
  then obtain d1 d2 where d: "readBGD (obs (2 * k)) fsOffset sb (inode_group sb num) = Inr d1"
    "readBGD (obs (2 * k + 1)) fsOffset sb (inode_group sb num) = Inr d2"
    by (auto simp: res_bind_Inr_iff)
  show ?case
  proof (cases "bg_InodeTableBlock d1 = bg_InodeTableBlock d2")
    case True
    then have "inode_off_in sb d1 num = inode_off_in sb d2 num"
      by (simp add: inode_off_in_def)
    with Suc.prems d True have "inode_read_at obs fsOffset sb num i k"
      by (auto simp: inode_read_at_def res_bind_Inr_iff)
    then show ?thesis
      by (intro exI [of _ k]) simp
  next
    case False
    with Suc.prems d have "readInode_loop n (k + 1) obs fsOffset sb num = Inr i"
      by simp
    from Suc.IH [OF this] obtain j where "k + 1 \<le> j" "j < k + 1 + n" "inode_read_at obs fsOffset sb num i j"
      by blast
    then show ?thesis
      by (intro exI [of _ j]) simp
  qed
qed simp

section \<open>Writing\<close>

lemma sub32_1: "0 < n \<Longrightarrow> n < 4294967296 \<Longrightarrow> sub32 n 1 = n - 1"
  by (simp add: sub32_ge)

definition desc_range_apart :: "int \<Rightarrow> superblock \<Rightarrow> u32 \<Rightarrow> int \<Rightarrow> nat \<Rightarrow> bool" where
  "desc_range_apart fsOffset sb g off n \<longleftrightarrow>
     i64 (fsOffset + descOff sb g) + int (DescSize sb) \<le> off \<or> off + int n \<le> i64 (fsOffset + descOff sb g)"

lemma readBGD_frame:
  assumes "WriteAt off data f = (Inr k, f')" "readBGD f fsOffset sb g = Inr d"
    "desc_range_apart fsOffset sb g off (length data)"
  shows "readBGD f' fsOffset sb g = Inr d"
  using assms dv.read_frame by (auto simp: readBGD_def res_bind_Inr_iff desc_range_apart_def)

lemma write_read_inode_aux:
  assumes w: "writeInode fsOffset sb i f = (Inr i', f')"
    and wf: "inode_wf sb i" "128 \<le> InodeSize sb"
    and num: "0 < in_num i" "in_num i \<le> InodesCount sb" "InodesCount sb < 4294967296"
    and d: "readBGD f fsOffset sb (inode_group sb (in_num i)) = Inr d"
    and apart: "desc_range_apart fsOffset sb (inode_group sb (in_num i))
       (i64 (fsOffset + inode_off_in sb d (in_num i))) (InodeSize sb)"
  shows "readInode f' fsOffset sb (in_num i) = Inr i' \<and> i' = inode_writeBuf sb i"
proof -
  define off where "off = i64 (fsOffset + inode_off_in sb d (in_num i))"
  have s: "sub32 (in_num i) 1 = in_num i - 1"
    by (rule sub32_1) (use num in auto)
  have ipg: "InodesPerGroup sb \<noteq> 0"
    using w by (auto simp: writeInode_def split: if_splits)
  have "writeInode fsOffset sb i f =
    (case WriteAt off (in_raw (inode_writeBuf sb i)) f of
       (Inl e, f'') \<Rightarrow> (Inl e, f'')
     | (Inr _, f'') \<Rightarrow> (Inr (inode_writeBuf sb i), f''))"
    using ipg d unfolding writeInode_def s off_def inode_off_in_def inode_index_def inode_group_def
    by (simp only: writeAtWithTrace_eq Let_def if_False sum.case)
  with w obtain k where wr: "WriteAt off (in_raw (inode_writeBuf sb i)) f = (Inr k, f')"
    and i': "i' = inode_writeBuf sb i"
    by (auto split: prod.splits sum.splits)
  have wf': "inode_wf sb i'" "length (in_raw i') = InodeSize sb"
    using inode_writeBuf_wf [OF wf] by (simp_all add: i' inode_wf_def)
  have "ReadAt f' off (InodeSize sb) = Inr (in_raw i')"
    using dv.read_back [OF wr] wf'(2) by (simp add: i')
  moreover have "readBGD f' fsOffset sb (inode_group sb (in_num i)) = Inr d"
    by (rule readBGD_frame [OF wr d]) (use apart wf'(2) in \<open>simp only: i' off_def\<close>)
  ultimately show ?thesis
    using num ipg wf'(1) i'
    by (simp add: readInode_eq off_def [symmetric] inode_wf_def)
qed

section \<open>The checksum\<close>

definition inode_csum :: "superblock \<Rightarrow> u32 \<Rightarrow> byte list \<Rightarrow> u32" where
  "inode_csum sb num raw =
    (let raw1 = put_u16 raw 124 0;
         raw2 = (if length raw > 132 then put_u16 raw1 130 0 else raw1)
     in crc32c (csumSeed sb) (le_bytes 4 num @ le_bytes 4 (u32_at raw 100) @ raw2))"

lemma csumSeed_less: "ChecksumSeed sb < 4294967296 \<Longrightarrow> csumSeed sb < 4294967296"
  by (simp add: csumSeed_def)

lemma put_u16_commute:
  assumes "off1 + 2 \<le> off2" "off2 + 2 \<le> length buf"
  shows "put_u16 (put_u16 buf off2 v) off1 w = put_u16 (put_u16 buf off1 w) off2 v"
  by (rule nth_equalityI)
    (use assms in \<open>auto simp: put_u16_def nth_put_bytes\<close>)

lemma w16_hi: "x < 4294967296 \<Longrightarrow> w16 (x div 65536) = x div 65536"
  by (simp add: w16_def)

lemma computeInodeCsum_stored:
  assumes "128 \<le> length (in_raw i)" "ChecksumSeed sb < 4294967296"
  defines "raw \<equiv> in_raw (computeInodeCsum sb i)"
  shows "u16_at raw 124 = inode_csum sb (in_num i) raw mod 65536"
    and "132 < length raw \<Longrightarrow> u16_at raw 130 = inode_csum sb (in_num i) raw div 65536"
proof -
  have seed: "csumSeed sb < 4294967296"
    using assms(2) by (rule csumSeed_less)
  define raw1 where "raw1 = put_u16 (in_raw i) 124 0"
  define raw2 where "raw2 = (if 132 < length (in_raw i) then put_u16 raw1 130 0 else raw1)"
  define c where "c = crc32c (csumSeed sb) (le_bytes 4 (in_num i) @ le_bytes 4 (u32_at raw2 100) @ raw2)"
  have len: "length raw1 = length (in_raw i)" "length raw2 = length (in_raw i)"
    using assms(1) by (simp_all add: raw1_def raw2_def)
  have raw: "raw = (if 132 < length (in_raw i)
      then put_u16 (put_u16 raw2 124 (c mod 65536)) 130 (c div 65536) else put_u16 raw2 124 (c mod 65536))"
    unfolding raw_def computeInodeCsum_def Let_def
    by (simp add: raw1_def raw2_def c_def crc32c_chain_aux seed and_mask16 drop_bit_eq_div w16_hi)
  have g: "u32_at raw 100 = u32_at raw2 100"
    using assms(1) len by (simp add: raw codec_simps)
  have zeroed: "(if 132 < length raw then put_u16 (put_u16 raw 124 0) 130 0 else put_u16 raw 124 0) = raw2"
    using len assms(1)
    by (cases "132 < length (in_raw i)") (simp_all add: raw raw2_def raw1_def put_u16_commute put_u16_absorb)
  have cs: "inode_csum sb (in_num i) raw = c"
    unfolding inode_csum_def Let_def using zeroed g by (simp add: c_def)
  have "c < 4294967296"
    by (simp add: c_def)
  then have hi: "c div 65536 < 65536"
    by auto
  show "u16_at raw 124 = inode_csum sb (in_num i) raw mod 65536"
    unfolding cs using assms(1) len by (simp add: raw codec_simps)
  show "u16_at raw 130 = inode_csum sb (in_num i) raw div 65536" if "132 < length raw"
    unfolding cs using that assms(1) len hi by (auto simp: raw codec_simps split: if_splits)
qed

section \<open>Properties\<close>

text \<open>C8: an inode written by \<open>writeInode\<close> is read back by \<open>readInode\<close>, with the checksum it was
  stored with, whenever its slot does not overlap the group's own descriptor.\<close>

theorem write_read_inode:
  assumes "writeInode fsOffset sb i f = (Inr i', f')"
    and "inode_wf sb i" "128 \<le> InodeSize sb"
    and "0 < in_num i" "in_num i \<le> InodesCount sb" "InodesCount sb < 4294967296"
    and "readBGD f fsOffset sb (inode_group sb (in_num i)) = Inr d"
    and "desc_range_apart fsOffset sb (inode_group sb (in_num i))
       (i64 (fsOffset + inode_off_in sb d (in_num i))) (InodeSize sb)"
  shows "readInode f' fsOffset sb (in_num i) = Inr i' \<and> i' = inode_writeBuf sb i"
  using assms by (rule write_read_inode_aux)

definition mini_inode :: inode where
  "mini_inode = setSize 5 (setMode 0x81A4 1 (decode_inode 3 (zeros 128)))"

theorem write_read_inode_witness:
  "readInode (snd (writeInode 0 mini_sb mini_inode mini_dev)) 0 mini_sb 3 = Inr mini_inode"
proof -
  have num: "in_num mini_inode = 3"
    by (simp add: mini_inode_def setSize_def setMode_def decode_inode_def)
  have grp: "inode_group mini_sb 3 = 0"
    by (simp add: inode_group_def)
  have buf: "inode_writeBuf mini_sb mini_inode = mini_inode"
    by (simp add: inode_writeBuf_def has_flag_def)
  have wf: "inode_wf mini_sb mini_inode"
    unfolding mini_inode_def by (intro setSize_wf setMode_wf decode_inode_wf) simp_all
  have w: "writeInode 0 mini_sb mini_inode mini_dev
    = (Inr mini_inode, snd (writeInode 0 mini_sb mini_inode mini_dev))"
    by (simp add: writeInode_def num sub32_ge readBGD_mini mini_bgd_def buf writeAtWithTrace_eq WriteAt_def)
  have "desc_range_apart 0 mini_sb 0 (i64 (0 + inode_off_in mini_sb mini_bgd 3)) 128"
    by (simp add: desc_range_apart_def inode_off_in_def inode_index_def mini_bgd_def)
  with write_read_inode [OF w wf, of mini_bgd] readBGD_mini show ?thesis
    by (simp add: num grp buf)
qed

text \<open>C9: after \<open>computeInodeCsum\<close> the two checksum fields hold the low and the high half of the
  CRC-32C of the inode number, the generation and the inode with those fields zeroed: the value
  a verifier recomputes from the stored bytes.\<close>

theorem computeInodeCsum_verifies:
  assumes "128 \<le> length (in_raw i)" "ChecksumSeed sb < 4294967296"
  shows "let raw = in_raw (computeInodeCsum sb i) in
    u16_at raw 124 = inode_csum sb (in_num i) raw mod 65536 \<and>
    (132 < length raw \<longrightarrow> u16_at raw 130 = inode_csum sb (in_num i) raw div 65536)"
  using computeInodeCsum_stored [OF assms] by (simp add: Let_def)

theorem computeInodeCsum_verifies_witness:
  "let raw = in_raw (computeInodeCsum mini_sb (decode_inode 3 (zeros 256))) in
    u16_at raw 124 = inode_csum mini_sb 3 raw mod 65536 \<and>
    (132 < length raw \<longrightarrow> u16_at raw 130 = inode_csum mini_sb 3 raw div 65536)"
  using computeInodeCsum_verifies [of "decode_inode 3 (zeros 256)" mini_sb]
  by (simp add: decode_inode_def mini_sb_def)

end
