(* ===== verification/Dispatch.thy ===== *)
theory Dispatch
  imports Rawio Bitmap Inode
begin

text \<open>
  The commit dispatcher (\<open>commit_dispatch.go\<close>): metadata writes are queued per group and applied
  by a worker.  Modelled: what a task does to the device.  A descriptor write is preceded by a
  recount of its free blocks and free inodes from the bitmaps; when the queue cannot be used the
  writes are applied without the recount.  Also \<open>writeBGD\<close> and \<open>writeSuperblock\<close>, which go through
  it.  Sequence numbers, acknowledgement channels and the reservation bookkeeping have no effect
  on the device and are not modelled.
\<close>

section \<open>The worker\<close>

type_synonym commitOp = "int \<times> byte list"

abbreviation (input) op_startAbs :: "commitOp \<Rightarrow> int" where "op_startAbs \<equiv> fst"
abbreviation (input) op_data :: "commitOp \<Rightarrow> byte list" where "op_data \<equiv> snd"

definition count_clear :: "byte list \<Rightarrow> nat \<Rightarrow> nat" where
  "count_clear bmp maxBits =
    (let m = (if maxBits > length bmp * 8 then length bmp * 8 else maxBits)
     in length (filter (\<lambda>i. \<not> bit_used bmp i) [0..<m]))"

text \<open>\<open>lastBitmap\<close>: the bitmap captured earlier in the task, kept only under the debug flag.\<close>

definition recount_bitmap :: "(byte list \<times> int) option \<Rightarrow> device \<Rightarrow> superblock \<Rightarrow> int \<Rightarrow> nat \<Rightarrow> nat option" where
  "recount_bitmap lastBitmap f sb bAbs maxBits =
    (case lastBitmap of
       Some (bmp, start) \<Rightarrow>
         if start = bAbs then Some (count_clear bmp maxBits)
         else (case ReadAt f bAbs (BlockSize sb) of Inl _ \<Rightarrow> None | Inr b \<Rightarrow> Some (count_clear b maxBits))
     | None \<Rightarrow> (case ReadAt f bAbs (BlockSize sb) of Inl _ \<Rightarrow> None | Inr b \<Rightarrow> Some (count_clear b maxBits)))"

definition recount :: "(byte list \<times> int) option \<Rightarrow> device \<Rightarrow> int \<Rightarrow> superblock \<Rightarrow> u32 \<Rightarrow> byte list \<Rightarrow> byte list" where
  "recount lastBitmap f fsOffset sb grp data =
    (let d = decodeBGD data sb;
         bf = recount_bitmap lastBitmap f sb (block_off fsOffset sb (bg_BlockBitmapBlock d)) (BlocksPerGroup sb);
         fi = recount_bitmap lastBitmap f sb (block_off fsOffset sb (bg_InodeBitmapBlock d)) (InodesPerGroup sb);
         d1 = (case bf of Some c \<Rightarrow> d\<lparr>bg_FreeBlocksCount := w32 c\<rparr> | None \<Rightarrow> d);
         d2 = (case fi of Some c \<Rightarrow> d1\<lparr>bg_FreeInodesCount := w32 c\<rparr> | None \<Rightarrow> d1);
         changed = (bg_FreeBlocksCount d2 \<noteq> bg_FreeBlocksCount d \<or> bg_FreeInodesCount d2 \<noteq> bg_FreeInodesCount d)
     in if changed then put_bgd_csum sb grp (bg_raw (bgd_encode d2 sb)) else data)"

fun worker_direct :: "bool \<Rightarrow> (byte list \<times> int) option \<Rightarrow> int \<Rightarrow> superblock \<Rightarrow> u32 \<Rightarrow> commitOp list \<Rightarrow> (device, unit) io" where
  "worker_direct dbg lastBitmap fsOffset sb grp [] f = (Inr (), f)"
| "worker_direct dbg lastBitmap fsOffset sb grp ((startAbs, data) # ops) f =
    (let last' = (if dbg \<and> data \<noteq> [] \<and> length data = BlockSize sb then Some (data, startAbs) else lastBitmap);
         data' = (if length data = DescSize sb then recount last' f fsOffset sb grp data else data)
     in case writeAtWithTrace fsOffset sb startAbs data' f of
          (Inl err, f') \<Rightarrow> (Inl err, f')
        | (Inr _, f') \<Rightarrow> worker_direct dbg last' fsOffset sb grp ops f')"

fun plain_writes :: "int \<Rightarrow> superblock \<Rightarrow> commitOp list \<Rightarrow> (device, unit) io" where
  "plain_writes fsOffset sb [] f = (Inr (), f)"
| "plain_writes fsOffset sb ((startAbs, data) # ops) f =
    (case writeAtWithTrace fsOffset sb startAbs data f of
       (Inl err, f') \<Rightarrow> (Inl err, f')
     | (Inr _, f') \<Rightarrow> plain_writes fsOffset sb ops f')"

text \<open>
  How a batch gets to the device: queued to the worker of the group, written by the caller
  because the caller is the worker, or written by a helper because the queue is full.
\<close>

datatype route = Queued | InWorker | QueueFull

definition enqueueCommitWritesUnderLock ::
    "route \<Rightarrow> bool \<Rightarrow> int \<Rightarrow> superblock \<Rightarrow> u32 \<Rightarrow> commitOp list \<Rightarrow> (device, unit) io" where
  "enqueueCommitWritesUnderLock r dbg fsOffset sb grp ops =
    (case r of
       Queued \<Rightarrow> worker_direct dbg None fsOffset sb grp ops
     | InWorker \<Rightarrow> plain_writes fsOffset sb ops
     | QueueFull \<Rightarrow> plain_writes fsOffset sb ops)"

text \<open>\<open>enqueueCommitWrites\<close> without a journal: every route applies the writes one by one.\<close>

definition enqueueCommitWrites :: "route \<Rightarrow> int \<Rightarrow> superblock \<Rightarrow> u32 \<Rightarrow> commitOp list \<Rightarrow> (device, unit) io" where
  "enqueueCommitWrites r fsOffset sb grp ops = plain_writes fsOffset sb ops"

section \<open>Descriptor and superblock writes\<close>

record fsys =
  fs_dev :: device
  fs_sb :: superblock

text \<open>Running a device operation inside the state of an open file system.\<close>

definition on_dev :: "(device, 'a) io \<Rightarrow> (fsys, 'a) io" where
  "on_dev m s = (case m (fs_dev s) of (r, f') \<Rightarrow> (r, s\<lparr>fs_dev := f'\<rparr>))"

definition writeBGD :: "route \<Rightarrow> bool \<Rightarrow> int \<Rightarrow> superblock \<Rightarrow> u32 \<Rightarrow> bgd \<Rightarrow> (device, unit) io" where
  "writeBGD r dbg fsOffset sb g d =
    (let raw = put_bgd_csum sb g (bg_raw (bgd_encode d sb))
     in enqueueCommitWritesUnderLock r dbg fsOffset sb g [(i64 (fsOffset + descOff sb g), raw)])"

definition writeSuperblock :: "route \<Rightarrow> bool \<Rightarrow> int \<Rightarrow> (fsys, unit) io" where
  "writeSuperblock r dbg fsOffset s =
    (let sb' = encodeRaw (fs_sb s)
     in on_dev (enqueueCommitWritesUnderLock r dbg fsOffset sb' 0 [(i64 (fsOffset + 1024), sb_raw sb')])
          (s\<lparr>fs_sb := sb'\<rparr>))"

section \<open>What the worker does\<close>

lemma plain_writes_all: "plain_writes fsOffset sb ops f = dv.wr_all ops f"
proof (induction ops arbitrary: f)
  case (Cons op ops)
  then show ?case
    by (cases op) (auto simp: writeAtWithTrace_eq io_bind_def split: prod.splits sum.splits)
qed (simp add: io_return_def)

lemma count_clear_card:
  "maxBits \<le> 8 * length bmp \<Longrightarrow> count_clear bmp maxBits = card {i. i < maxBits \<and> \<not> bit_used bmp i}"
  by (simp add: count_clear_def Let_def length_filter_free bm.free_bits_def)

text \<open>
  A recounted descriptor has the counts of the bitmaps and every other field of the one handed in.
\<close>

lemma recount_decode:
  assumes len: "length data = DescSize sb" "32 \<le> DescSize sb"
    and bb: "recount_bitmap l f sb (block_off fsOffset sb (bg_BlockBitmapBlock (decodeBGD data sb))) (BlocksPerGroup sb) = Some fb"
    and ib: "recount_bitmap l f sb (block_off fsOffset sb (bg_InodeBitmapBlock (decodeBGD data sb))) (InodesPerGroup sb) = Some fi"
    and rng: "fb < desc_max sb" "fi < desc_max sb" "bg_UsedDirsCount (decodeBGD data sb) < desc_max sb"
  shows "decodeBGD (recount l f fsOffset sb g data) sb
    = (decodeBGD data sb)\<lparr>bg_FreeBlocksCount := fb, bg_FreeInodesCount := fi, bg_raw := recount l f fsOffset sb g data\<rparr>"
    and "length (recount l f fsOffset sb g data) = DescSize sb"
    and "recount l f fsOffset sb g data \<noteq> data \<Longrightarrow>
      recount l f fsOffset sb g data = put_bgd_csum sb g (recount l f fsOffset sb g data)"
proof -
  define d where "d = decodeBGD data sb"
  define d2 where "d2 = d\<lparr>bg_FreeBlocksCount := fb, bg_FreeInodesCount := fi\<rparr>"
  have "desc_max sb \<le> 4294967296"
    by (simp add: desc_max_def)
  then have w: "w32 fb = fb" "w32 fi = fi"
    using rng by simp_all
  have r: "recount l f fsOffset sb g data =
    (if fb \<noteq> bg_FreeBlocksCount d \<or> fi \<noteq> bg_FreeInodesCount d
     then put_bgd_csum sb g (bg_raw (bgd_encode d2 sb)) else data)"
    using bb ib by (simp add: recount_def Let_def d_def d2_def w)
  have raw: "bg_raw d2 = data" "length (bg_raw (bgd_encode d2 sb)) = DescSize sb"
    using len by (simp_all add: d2_def d_def)
  have d2: "d2 = d\<lparr>bg_FreeBlocksCount := fb, bg_FreeInodesCount := fi, bg_UsedDirsCount := bg_UsedDirsCount d\<rparr>"
    by (simp add: d2_def)
  have dec: "decodeBGD (bg_raw (bgd_encode d2 sb)) sb = bgd_encode d2 sb"
    using d2 unfolding d_def by (rule decode_encode_aux [OF len]) (use rng in simp_all)
  have enc: "bgd_encode d2 sb = d2\<lparr>bg_raw := bg_raw (bgd_encode d2 sb)\<rparr>"
    by (simp add: bgd_encode_def Let_def)
  show "decodeBGD (recount l f fsOffset sb g data) sb
    = (decodeBGD data sb)\<lparr>bg_FreeBlocksCount := fb, bg_FreeInodesCount := fi, bg_raw := recount l f fsOffset sb g data\<rparr>"
  proof (cases "fb \<noteq> bg_FreeBlocksCount d \<or> fi \<noteq> bg_FreeInodesCount d")
    case True
    have "decodeBGD (put_bgd_csum sb g (bg_raw (bgd_encode d2 sb))) sb
        = (bgd_encode d2 sb)\<lparr>bg_raw := put_bgd_csum sb g (bg_raw (bgd_encode d2 sb))\<rparr>"
      using put_bgd_csum_decode [of "bg_raw (bgd_encode d2 sb)" sb g] raw(2) len(2) dec by simp
    also have "\<dots> = d2\<lparr>bg_raw := put_bgd_csum sb g (bg_raw (bgd_encode d2 sb))\<rparr>"
      by (subst enc) simp
    finally show ?thesis
      using True by (simp add: r d2_def d_def [symmetric])
  next
    case False
    moreover have "d\<lparr>bg_raw := data\<rparr> = d"
      by (simp add: d_def decodeBGD_def)
    ultimately show ?thesis
      by (simp add: r d_def [symmetric])
  qed
  show "length (recount l f fsOffset sb g data) = DescSize sb"
    using raw len by (simp add: r)
  show "recount l f fsOffset sb g data = put_bgd_csum sb g (recount l f fsOffset sb g data)"
    if "recount l f fsOffset sb g data \<noteq> data"
    using that raw(2) len(2) put_bgd_csum_idem [of "bg_raw (bgd_encode d2 sb)" sb g] by (auto simp: r)
qed

lemma worker_direct_step:
  assumes "worker_direct dbg l fsOffset sb g ((start, data) # ops) f = (Inr (), f')"
  obtains l' data' f1 where
    "l' = (if dbg \<and> data \<noteq> [] \<and> length data = BlockSize sb then Some (data, start) else l)"
    "data' = (if length data = DescSize sb then recount l' f fsOffset sb g data else data)"
    "WriteAt start data' f = (Inr (length data'), f1)"
    "worker_direct dbg l' fsOffset sb g ops f1 = (Inr (), f')"
proof -
  define l' where "l' = (if dbg \<and> data \<noteq> [] \<and> length data = BlockSize sb then Some (data, start) else l)"
  define data' where "data' = (if length data = DescSize sb then recount l' f fsOffset sb g data else data)"
  have "(case WriteAt start data' f of (Inl err, f1) \<Rightarrow> (Inl err, f1)
      | (Inr _, f1) \<Rightarrow> worker_direct dbg l' fsOffset sb g ops f1) = (Inr (), f')"
    using assms unfolding worker_direct.simps Let_def l'_def [symmetric] data'_def [symmetric] writeAtWithTrace_eq .
  then obtain k f1 where w: "WriteAt start data' f = (Inr k, f1)" "worker_direct dbg l' fsOffset sb g ops f1 = (Inr (), f')"
    by (auto split: prod.splits sum.splits)
  then have "k = length data'"
    by (simp add: WriteAt_Inr_iff)
  with w show ?thesis
    by (intro that [OF l'_def data'_def]) simp_all
qed

section \<open>A batch of bitmap, descriptor and superblock\<close>

definition meta_ops :: "int \<Rightarrow> superblock \<Rightarrow> u32 \<Rightarrow> u64 \<Rightarrow> byte list \<Rightarrow> byte list \<Rightarrow> byte list \<Rightarrow> commitOp list" where
  "meta_ops fsOffset sb g bitmapBlock bmap raw sbRaw =
    [(block_off fsOffset sb bitmapBlock, bmap), (i64 (fsOffset + descOff sb g), raw), (i64 (fsOffset + 1024), sbRaw)]"

text \<open>The three ranges of a batch do not overlap, and their lengths tell them apart.\<close>

definition meta_apart :: "int \<Rightarrow> superblock \<Rightarrow> u32 \<Rightarrow> u64 \<Rightarrow> bool" where
  "meta_apart fsOffset sb g blk \<longleftrightarrow>
    32 \<le> DescSize sb \<and> DescSize sb \<noteq> BlockSize sb \<and> DescSize sb \<noteq> 1024
    \<and> desc_range_apart fsOffset sb g (block_off fsOffset sb blk) (BlockSize sb)
    \<and> desc_range_apart fsOffset sb g (i64 (fsOffset + 1024)) 1024
    \<and> (block_off fsOffset sb blk + int (BlockSize sb) \<le> i64 (fsOffset + 1024)
       \<or> i64 (fsOffset + 1024) + 1024 \<le> block_off fsOffset sb blk)"

definition clear_of :: "int \<Rightarrow> superblock \<Rightarrow> u32 \<Rightarrow> u64 \<Rightarrow> int \<Rightarrow> nat \<Rightarrow> bool" where
  "clear_of fsOffset sb g blk off n \<longleftrightarrow>
    desc_range_apart fsOffset sb g off n
    \<and> (off + int n \<le> block_off fsOffset sb blk \<or> block_off fsOffset sb blk + int (BlockSize sb) \<le> off)
    \<and> (off + int n \<le> i64 (fsOffset + 1024) \<or> i64 (fsOffset + 1024) + 1024 \<le> off)"

text \<open>
  Whatever the route, the batch leaves the bitmap and the superblock on the device as handed in,
  a descriptor of the right length, and every other range as it was.
\<close>

lemma batch_writes:
  assumes enq: "enqueueCommitWritesUnderLock r dbg fsOffset sb g (meta_ops fsOffset sb g blk bmap raw sbRaw) f = (Inr (), f')"
    and len: "length bmap = BlockSize sb" "length raw = DescSize sb" "length sbRaw = 1024"
    and apart: "meta_apart fsOffset sb g blk"
  obtains l f1 raw' where
    "WriteAt (block_off fsOffset sb blk) bmap f = (Inr (length bmap), f1)"
    "raw' = (if r = Queued then recount l f1 fsOffset sb g raw else raw)"
    "l = (if dbg \<and> bmap \<noteq> [] then Some (bmap, block_off fsOffset sb blk) else None)"
    "dv.wr_all [(block_off fsOffset sb blk, bmap), (i64 (fsOffset + descOff sb g), raw'), (i64 (fsOffset + 1024), sbRaw)] f = (Inr (), f')"
proof (cases "r = Queued")
  case False
  then have w: "dv.wr_all (meta_ops fsOffset sb g blk bmap raw sbRaw) f = (Inr (), f')"
    using enq by (cases r) (simp_all add: enqueueCommitWritesUnderLock_def plain_writes_all)
  moreover from w obtain f1 where "WriteAt (block_off fsOffset sb blk) bmap f = (Inr (length bmap), f1)"
    by (auto simp: meta_ops_def io_bind_Inr_iff WriteAt_Inr_iff)
  ultimately show ?thesis
    using that False by (simp add: meta_ops_def)
next
  case True
  then have "worker_direct dbg None fsOffset sb g (meta_ops fsOffset sb g blk bmap raw sbRaw) f = (Inr (), f')"
    using enq by (simp add: enqueueCommitWritesUnderLock_def)
  then obtain l0 d1 f1 where 1: "l0 = (if dbg \<and> bmap \<noteq> [] \<and> length bmap = BlockSize sb then Some (bmap, block_off fsOffset sb blk) else None)"
    "d1 = (if length bmap = DescSize sb then recount l0 f fsOffset sb g bmap else bmap)"
    "WriteAt (block_off fsOffset sb blk) d1 f = (Inr (length d1), f1)"
    "worker_direct dbg l0 fsOffset sb g [(i64 (fsOffset + descOff sb g), raw), (i64 (fsOffset + 1024), sbRaw)] f1 = (Inr (), f')"
    unfolding meta_ops_def by (rule worker_direct_step)
  define l where "l = (if dbg \<and> bmap \<noteq> [] then Some (bmap, block_off fsOffset sb blk) else None)"
  have l: "l0 = l" and w1: "WriteAt (block_off fsOffset sb blk) bmap f = (Inr (length bmap), f1)"
    using 1(1-3) len(1) apart by (simp_all add: l_def meta_apart_def)
  from 1(4) obtain l1 d2 f2 where 2: "l1 = (if dbg \<and> raw \<noteq> [] \<and> length raw = BlockSize sb then Some (raw, i64 (fsOffset + descOff sb g)) else l0)"
    "d2 = (if length raw = DescSize sb then recount l1 f1 fsOffset sb g raw else raw)"
    "WriteAt (i64 (fsOffset + descOff sb g)) d2 f1 = (Inr (length d2), f2)"
    "worker_direct dbg l1 fsOffset sb g [(i64 (fsOffset + 1024), sbRaw)] f2 = (Inr (), f')"
    by (rule worker_direct_step)
  have w2: "WriteAt (i64 (fsOffset + descOff sb g)) (recount l f1 fsOffset sb g raw) f1
      = (Inr (length (recount l f1 fsOffset sb g raw)), f2)"
    using 2(1-3) len(2) apart l by (simp add: meta_apart_def)
  from 2(4) obtain l2 d3 f3 where 3: "l2 = (if dbg \<and> sbRaw \<noteq> [] \<and> length sbRaw = BlockSize sb then Some (sbRaw, i64 (fsOffset + 1024)) else l1)"
    "d3 = (if length sbRaw = DescSize sb then recount l2 f2 fsOffset sb g sbRaw else sbRaw)"
    "WriteAt (i64 (fsOffset + 1024)) d3 f2 = (Inr (length d3), f3)" "worker_direct dbg l2 fsOffset sb g [] f3 = (Inr (), f')"
    by (rule worker_direct_step)
  have "WriteAt (i64 (fsOffset + 1024)) sbRaw f2 = (Inr (length sbRaw), f')"
    using 3(2-4) len(3) apart by (simp add: meta_apart_def)
  with w1 w2 show ?thesis
    using True l_def by (intro that [of f1 "recount l f1 fsOffset sb g raw" l]) (simp_all add: io_return_def)
qed

lemma length_recount:
  "length data = DescSize sb \<Longrightarrow> 32 \<le> DescSize sb \<Longrightarrow> length (recount l f fsOffset sb g data) = DescSize sb"
  by (simp add: recount_def Let_def split: option.splits)

lemma batch_effect:
  assumes enq: "enqueueCommitWritesUnderLock r dbg fsOffset sb g (meta_ops fsOffset sb g blk bmap raw sbRaw) f = (Inr (), f')"
    and len: "length bmap = BlockSize sb" "length raw = DescSize sb" "length sbRaw = 1024"
    and apart: "meta_apart fsOffset sb g blk"
  shows "ReadAt f' (block_off fsOffset sb blk) (BlockSize sb) = Inr bmap"
    "ReadAt f' (i64 (fsOffset + 1024)) 1024 = Inr sbRaw"
    "\<exists>raw'. readBGD f' fsOffset sb g = Inr (decodeBGD raw' sb) \<and> length raw' = DescSize sb
      \<and> (r \<noteq> Queued \<longrightarrow> raw' = raw)
      \<and> (r = Queued \<longrightarrow> (\<exists>l f1. raw' = recount l f1 fsOffset sb g raw
            \<and> WriteAt (block_off fsOffset sb blk) bmap f = (Inr (length bmap), f1)
            \<and> (l = None \<or> l = Some (bmap, block_off fsOffset sb blk))))"
    "\<And>off n b. ReadAt f off n = Inr b \<Longrightarrow> clear_of fsOffset sb g blk off n \<Longrightarrow> ReadAt f' off n = Inr b"
proof -
  obtain l f1 raw' where w1: "WriteAt (block_off fsOffset sb blk) bmap f = (Inr (length bmap), f1)"
    and raw': "raw' = (if r = Queued then recount l f1 fsOffset sb g raw else raw)"
    and l: "l = (if dbg \<and> bmap \<noteq> [] then Some (bmap, block_off fsOffset sb blk) else None)"
    and w: "dv.wr_all [(block_off fsOffset sb blk, bmap), (i64 (fsOffset + descOff sb g), raw'), (i64 (fsOffset + 1024), sbRaw)] f = (Inr (), f')"
    using assms by (rule batch_writes)
  have len': "length raw' = DescSize sb"
    using raw' len(2) apart by (simp add: length_recount meta_apart_def)
  have s: "sorted_wrt dv.apart [(block_off fsOffset sb blk, bmap), (i64 (fsOffset + descOff sb g), raw'), (i64 (fsOffset + 1024), sbRaw)]"
    using apart len len' by (auto simp: dv.apart_def meta_apart_def desc_range_apart_def)
  note rb = dv.wr_all_read_back [OF w s]
  show "ReadAt f' (block_off fsOffset sb blk) (BlockSize sb) = Inr bmap"
    "ReadAt f' (i64 (fsOffset + 1024)) 1024 = Inr sbRaw"
    using rb [of "(block_off fsOffset sb blk, bmap)"] rb [of "(i64 (fsOffset + 1024), sbRaw)"] len by simp_all
  have "readBGD f' fsOffset sb g = Inr (decodeBGD raw' sb)"
    using rb [of "(i64 (fsOffset + descOff sb g), raw')"] len' by (simp add: readBGD_def)
  moreover have "l = None \<or> l = Some (bmap, block_off fsOffset sb blk)"
    using l by simp
  ultimately show "\<exists>raw'. readBGD f' fsOffset sb g = Inr (decodeBGD raw' sb) \<and> length raw' = DescSize sb
      \<and> (r \<noteq> Queued \<longrightarrow> raw' = raw)
      \<and> (r = Queued \<longrightarrow> (\<exists>l f1. raw' = recount l f1 fsOffset sb g raw
            \<and> WriteAt (block_off fsOffset sb blk) bmap f = (Inr (length bmap), f1)
            \<and> (l = None \<or> l = Some (bmap, block_off fsOffset sb blk))))"
    using len' raw' w1 by (intro exI [of _ raw']) auto
  show "ReadAt f' off n = Inr b" if "ReadAt f off n = Inr b" "clear_of fsOffset sb g blk off n" for off n b
    using dv.wr_all_frame [OF w that(1)] that(2) len len' by (auto simp: clear_of_def desc_range_apart_def)
qed

text \<open>The counts the worker stores when the batch holds one of the two bitmaps of the descriptor.\<close>

lemma batch_counts:
  fixes isBlock :: bool
  assumes enq: "enqueueCommitWritesUnderLock Queued dbg fsOffset sb g (meta_ops fsOffset sb g blk bmap raw sbRaw) f = (Inr (), f')"
    and len: "length bmap = BlockSize sb" "length raw = DescSize sb" "length sbRaw = 1024"
    and apart: "meta_apart fsOffset sb g blk"
    and d: "d = decodeBGD raw sb" "blk = (if isBlock then bg_BlockBitmapBlock d else bg_InodeBitmapBlock d)"
      "oblk = (if isBlock then bg_InodeBitmapBlock d else bg_BlockBitmapBlock d)"
    and other: "ReadAt f (block_off fsOffset sb oblk) (BlockSize sb) = Inr omap"
      "clear_of fsOffset sb g blk (block_off fsOffset sb oblk) (BlockSize sb)" "0 < BlockSize sb"
    and fb: "fb = count_clear (if isBlock then bmap else omap) (BlocksPerGroup sb)"
    and fi: "fi = count_clear (if isBlock then omap else bmap) (InodesPerGroup sb)"
    and rng: "fb < desc_max sb" "fi < desc_max sb" "bg_UsedDirsCount d < desc_max sb"
  shows "\<exists>raw'. readBGD f' fsOffset sb g = Inr (d\<lparr>bg_FreeBlocksCount := fb, bg_FreeInodesCount := fi, bg_raw := raw'\<rparr>)
    \<and> ReadAt f' (block_off fsOffset sb oblk) (BlockSize sb) = Inr omap
    \<and> (raw' = raw \<or> raw' = put_bgd_csum sb g raw')"
proof -
  from batch_effect(3) [OF enq len apart] obtain l f1 where
    r: "readBGD f' fsOffset sb g = Inr (decodeBGD (recount l f1 fsOffset sb g raw) sb)"
    and w1: "WriteAt (block_off fsOffset sb blk) bmap f = (Inr (length bmap), f1)"
    and l: "l = None \<or> l = Some (bmap, block_off fsOffset sb blk)"
    by auto
  have "ReadAt f1 (block_off fsOffset sb blk) (BlockSize sb) = Inr bmap"
    using dv.read_back [OF w1] len(1) by simp
  moreover have "ReadAt f1 (block_off fsOffset sb oblk) (BlockSize sb) = Inr omap"
    using dv.read_frame [OF w1 other(1)] other(2) len(1) by (auto simp: clear_of_def)
  moreover have "block_off fsOffset sb oblk \<noteq> block_off fsOffset sb blk"
    using other(2,3) by (auto simp: clear_of_def)
  ultimately have rc: "recount_bitmap l f1 sb (block_off fsOffset sb blk) m = Some (count_clear bmap m)"
    "recount_bitmap l f1 sb (block_off fsOffset sb oblk) m = Some (count_clear omap m)" for m
    using l by (auto simp: recount_bitmap_def)
  have bb: "recount_bitmap l f1 sb (block_off fsOffset sb (bg_BlockBitmapBlock (decodeBGD raw sb))) (BlocksPerGroup sb) = Some fb"
    "recount_bitmap l f1 sb (block_off fsOffset sb (bg_InodeBitmapBlock (decodeBGD raw sb))) (InodesPerGroup sb) = Some fi"
    using rc d fb fi by (cases isBlock; simp)+
  have "32 \<le> DescSize sb"
    using apart by (simp add: meta_apart_def)
  note rd = recount_decode [OF len(2) this bb rng(1,2) rng(3) [unfolded d(1)]]
  have "ReadAt f' (block_off fsOffset sb oblk) (BlockSize sb) = Inr omap"
    using batch_effect(4) [OF enq len apart other(1,2)] .
  then show ?thesis
    using r rd(1,3) [of g] d(1) by (intro exI [of _ "recount l f1 fsOffset sb g raw"]) auto
qed

end
