(* ===== verification/Alloc.thy ===== *)
theory Alloc
  imports Dispatch
begin

text \<open>
  The allocators (\<open>alloc.go\<close>): \<open>readBitmap\<close> with the reservations of other operations,
  \<open>allocInode\<close>, \<open>allocBlocks\<close> with its fallback \<open>lockedAllocBlocks\<close>, \<open>freeBlock\<close>, and
  \<open>freeInodeSlot\<close> of \<open>delete.go\<close>.  The state is the device and the in-memory superblock.  What
  other goroutines decide is a parameter: the position of the rotating cursor, the groups whose
  locks cannot be taken within the retries, the bits they have reserved, and the route the
  dispatcher takes.
\<close>

section \<open>Definitions\<close>

record alloc_env =
  ae_cursor :: u32
  ae_busy :: "u32 \<Rightarrow> bool"
  ae_rsv :: "u32 \<Rightarrow> bool \<Rightarrow> byte list option"
  ae_route :: route
  ae_debug :: bool

fun owner_scan :: "device \<Rightarrow> int \<Rightarrow> superblock \<Rightarrow> u64 \<Rightarrow> u32 list \<Rightarrow> (u32 \<times> bool) option" where
  "owner_scan f fsOffset sb bitmapBlock [] = None"
| "owner_scan f fsOffset sb bitmapBlock (g # gs) =
    (case readBGD f fsOffset sb g of
       Inl _ \<Rightarrow> owner_scan f fsOffset sb bitmapBlock gs
     | Inr d \<Rightarrow>
         if bg_BlockBitmapBlock d = bitmapBlock then Some (g, True)
         else if bg_InodeBitmapBlock d = bitmapBlock then Some (g, False)
         else owner_scan f fsOffset sb bitmapBlock gs)"

definition bitmapOwnerGroup :: "device \<Rightarrow> int \<Rightarrow> superblock \<Rightarrow> u64 \<Rightarrow> (u32 \<times> bool) option" where
  "bitmapOwnerGroup f fsOffset sb bitmapBlock = owner_scan f fsOffset sb bitmapBlock [0..<numBlockGroups sb]"

definition merge_reserved :: "byte list option \<Rightarrow> byte list \<Rightarrow> byte list" where
  "merge_reserved rb bmap =
    (case rb of
       None \<Rightarrow> bmap
     | Some r \<Rightarrow> map (\<lambda>i. bmap ! i OR (if i < length r then r ! i else 0)) [0..<length bmap])"

definition reserved_for :: "alloc_env \<Rightarrow> device \<Rightarrow> int \<Rightarrow> superblock \<Rightarrow> u64 \<Rightarrow> byte list option" where
  "reserved_for E f fsOffset sb bitmapBlock =
    (if BlocksPerGroup sb \<noteq> 0
     then case bitmapOwnerGroup f fsOffset sb bitmapBlock of
            Some (g, isBlock) \<Rightarrow> ae_rsv E g isBlock
          | None \<Rightarrow> None
     else None)"

definition readBitmap :: "alloc_env \<Rightarrow> device \<Rightarrow> int \<Rightarrow> superblock \<Rightarrow> u64 \<Rightarrow> byte list result" where
  "readBitmap E f fsOffset sb bitmapBlock =
    res_bind (readRawBlock f fsOffset sb bitmapBlock)
      (\<lambda>bmap. Inr (merge_reserved (reserved_for E f fsOffset sb bitmapBlock) bmap))"

definition persist_group :: "alloc_env \<Rightarrow> int \<Rightarrow> u32 \<Rightarrow> u64 \<Rightarrow> byte list \<Rightarrow> bgd \<Rightarrow> (fsys, unit) io" where
  "persist_group E fsOffset g bitmapBlock bmap d s =
    (let sb' = encodeRaw (fs_sb s)
     in on_dev (enqueueCommitWritesUnderLock (ae_route E) (ae_debug E) fsOffset sb' g
                  (meta_ops fsOffset sb' g bitmapBlock bmap (bg_raw d) (sb_raw sb')))
          (s\<lparr>fs_sb := sb'\<rparr>))"

definition group_order :: "alloc_env \<Rightarrow> u32 \<Rightarrow> u32 list" where
  "group_order E nGroups = map (\<lambda>i. w32 (ae_cursor E mod nGroups + i) mod nGroups) [0..<nGroups]"

fun alloc_inode_groups :: "alloc_env \<Rightarrow> int \<Rightarrow> bool \<Rightarrow> u32 list \<Rightarrow> (fsys, u32) io" where
  "alloc_inode_groups E fsOffset forDir [] s = (Inl ErrNoFreeInode, s)"
| "alloc_inode_groups E fsOffset forDir (g # gs) s =
    (case readBGD (fs_dev s) fsOffset (fs_sb s) g of
       Inl err \<Rightarrow> (Inl err, s)
     | Inr d \<Rightarrow>
       if bg_FreeInodesCount d = 0 \<or> ae_busy E g then alloc_inode_groups E fsOffset forDir gs s
       else case readBitmap E (fs_dev s) fsOffset (fs_sb s) (bg_InodeBitmapBlock d) of
         Inl err \<Rightarrow> (Inl err, s)
       | Inr bmap \<Rightarrow>
         (case findFreeBit bmap (InodesPerGroup (fs_sb s)) of
            Inl err \<Rightarrow> (Inl err, s)
          | Inr None \<Rightarrow> alloc_inode_groups E fsOffset forDir gs s
          | Inr (Some slot) \<Rightarrow>
            let sb = fs_sb s;
                bmap' = setBit bmap slot;
                d1 = d\<lparr>bg_FreeInodesCount := sub32 (bg_FreeInodesCount d) 1,
                       bg_UsedDirsCount := (if forDir then w32 (bg_UsedDirsCount d + 1) else bg_UsedDirsCount d)\<rparr>;
                d2 = bgd_encode (setBitmapCsum sb g d1 False bmap') sb;
                s1 = s\<lparr>fs_sb := sb\<lparr>FreeInodesCount := sub32 (FreeInodesCount sb) 1\<rparr>\<rparr>
            in case persist_group E fsOffset g (bg_InodeBitmapBlock d) bmap' d2 s1 of
                 (Inl err, s') \<Rightarrow> (Inl err, s')
               | (Inr _, s') \<Rightarrow> (Inr (w32 (g * InodesPerGroup sb + slot + 1)), s')))"

definition allocInode :: "alloc_env \<Rightarrow> int \<Rightarrow> bool \<Rightarrow> (fsys, u32) io" where
  "allocInode E fsOffset forDir s =
    (let nGroups = numBlockGroups (fs_sb s)
     in if nGroups = 0 then (Inl Panic, s)
        else alloc_inode_groups E fsOffset forDir (group_order E nGroups) s)"

text \<open>The update both block allocators make once they have chosen the bits.\<close>

definition take_blocks :: "alloc_env \<Rightarrow> int \<Rightarrow> u32 \<Rightarrow> u32 \<Rightarrow> bgd \<Rightarrow> byte list \<Rightarrow> nat list \<Rightarrow> (fsys, u64 list) io" where
  "take_blocks E fsOffset n g d bmap blocks s =
    (let sb = fs_sb s;
         bmap' = foldl setBit bmap blocks;
         d1 = d\<lparr>bg_FreeBlocksCount := sub32 (bg_FreeBlocksCount d) n\<rparr>;
         d2 = bgd_encode (setBitmapCsum sb g d1 True bmap') sb;
         s1 = s\<lparr>fs_sb := sb\<lparr>FreeBlocksCount := sub64 (FreeBlocksCount sb) n\<rparr>\<rparr>;
         groupStart = w64 (g * BlocksPerGroup sb + FirstDataBlock sb)
     in case persist_group E fsOffset g (bg_BlockBitmapBlock d) bmap' d2 s1 of
          (Inl err, s') \<Rightarrow> (Inl err, s')
        | (Inr _, s') \<Rightarrow> (Inr (map (\<lambda>b. w64 (groupStart + b)) blocks), s'))"

text \<open>The check, after the bits are on disk, that no block lies in the inode table of its group.\<close>

fun table_check :: "device \<Rightarrow> int \<Rightarrow> superblock \<Rightarrow> u64 list \<Rightarrow> unit result" where
  "table_check f fsOffset sb [] = Inr ()"
| "table_check f fsOffset sb (blk # blks) =
    (if blk < FirstDataBlock sb \<or> BlocksPerGroup sb = 0 then table_check f fsOffset sb blks
     else
       let g2 = w32 ((blk - FirstDataBlock sb) div BlocksPerGroup sb)
       in if g2 \<ge> numBlockGroups sb then table_check f fsOffset sb blks
          else case readBGD f fsOffset sb g2 of
            Inl err \<Rightarrow> Inl err
          | Inr d2 \<Rightarrow>
            let tstart = bg_InodeTableBlock d2;
                tblocks = (if BlockSize sb > 0
                  then sub64 (w64 (w64 (InodesPerGroup sb * InodeSize sb) + BlockSize sb)) 1 div BlockSize sb else 0)
            in if tblocks > 0 \<and> blk \<ge> tstart \<and> blk < w64 (tstart + tblocks) then Inl ErrAllocTable
               else table_check f fsOffset sb blks)"

fun locked_alloc_groups :: "alloc_env \<Rightarrow> int \<Rightarrow> u32 \<Rightarrow> u32 list \<Rightarrow> (fsys, u64 list) io" where
  "locked_alloc_groups E fsOffset n [] s = (Inl ErrNoFreeBlocks, s)"
| "locked_alloc_groups E fsOffset n (g # gs) s =
    (if ae_busy E g then locked_alloc_groups E fsOffset n gs s
     else case readBGD (fs_dev s) fsOffset (fs_sb s) g of
       Inl err \<Rightarrow> (Inl err, s)
     | Inr d \<Rightarrow>
       if bg_FreeBlocksCount d < n then locked_alloc_groups E fsOffset n gs s
       else case readBitmap E (fs_dev s) fsOffset (fs_sb s) (bg_BlockBitmapBlock d) of
         Inl err \<Rightarrow> (Inl err, s)
       | Inr bmap \<Rightarrow>
         (case findFreeRun bmap (BlocksPerGroup (fs_sb s)) n of
            Inl err \<Rightarrow> (Inl err, s)
          | Inr None \<Rightarrow> locked_alloc_groups E fsOffset n gs s
          | Inr (Some blocks) \<Rightarrow> take_blocks E fsOffset n g d bmap blocks s))"

definition lockedAllocBlocks :: "alloc_env \<Rightarrow> int \<Rightarrow> u32 \<Rightarrow> (fsys, u64 list) io" where
  "lockedAllocBlocks E fsOffset n s = locked_alloc_groups E fsOffset n [0..<numBlockGroups (fs_sb s)] s"

fun alloc_block_groups :: "alloc_env \<Rightarrow> int \<Rightarrow> u32 \<Rightarrow> u32 list \<Rightarrow> (fsys, u64 list) io" where
  "alloc_block_groups E fsOffset n [] s =
    (case lockedAllocBlocks E fsOffset n s of
       (Inr res, s') \<Rightarrow> (Inr res, s')
     | (Inl _, s') \<Rightarrow> (Inl ErrNoFreeBlocks, s'))"
| "alloc_block_groups E fsOffset n (g # gs) s =
    (case readBGD (fs_dev s) fsOffset (fs_sb s) g of
       Inl err \<Rightarrow> (Inl err, s)
     | Inr d \<Rightarrow>
       if bg_FreeBlocksCount d < n
          \<and> (case readBitmap E (fs_dev s) fsOffset (fs_sb s) (bg_BlockBitmapBlock d) of
                Inl _ \<Rightarrow> True
              | Inr bmapQuick \<Rightarrow> fst (countFreeInBitmap bmapQuick (BlocksPerGroup (fs_sb s))) < n)
       then alloc_block_groups E fsOffset n gs s
       else if ae_busy E g then alloc_block_groups E fsOffset n gs s
       else if bg_FreeBlocksCount d < n then alloc_block_groups E fsOffset n gs s
       else case readBitmap E (fs_dev s) fsOffset (fs_sb s) (bg_BlockBitmapBlock d) of
         Inl err \<Rightarrow> (Inl err, s)
       | Inr bmap \<Rightarrow>
         (case findFreeRun bmap (BlocksPerGroup (fs_sb s)) n of
            Inl err \<Rightarrow> (Inl err, s)
          | Inr None \<Rightarrow> alloc_block_groups E fsOffset n gs s
          | Inr (Some blocks) \<Rightarrow>
            (case take_blocks E fsOffset n g d bmap blocks s of
               (Inl err, s') \<Rightarrow> (Inl err, s')
             | (Inr result, s') \<Rightarrow>
                 (case table_check (fs_dev s') fsOffset (fs_sb s') result of
                    Inl err \<Rightarrow> (Inl err, s')
                  | Inr _ \<Rightarrow> (Inr result, s')))))"

definition allocBlocks :: "alloc_env \<Rightarrow> int \<Rightarrow> u32 \<Rightarrow> (fsys, u64 list) io" where
  "allocBlocks E fsOffset n s =
    (let nGroups = numBlockGroups (fs_sb s)
     in if nGroups = 0 then (Inl Panic, s)
        else alloc_block_groups E fsOffset n (group_order E nGroups) s)"

definition freeBlock :: "alloc_env \<Rightarrow> int \<Rightarrow> u64 \<Rightarrow> (fsys, unit) io" where
  "freeBlock E fsOffset physBlock s =
    (let sb = fs_sb s
     in if physBlock < FirstDataBlock sb then (Inr (), s)
        else if BlocksPerGroup sb = 0 then (Inl Panic, s)
        else
          let rel = physBlock - FirstDataBlock sb;
              g = w32 (rel div BlocksPerGroup sb);
              slot = rel mod BlocksPerGroup sb
          in case readBGD (fs_dev s) fsOffset sb g of
               Inl err \<Rightarrow> (Inl err, s)
             | Inr d \<Rightarrow>
               (case readBitmap E (fs_dev s) fsOffset sb (bg_BlockBitmapBlock d) of
                  Inl err \<Rightarrow> (Inl err, s)
                | Inr bmap \<Rightarrow>
                  if \<not> in_bitmap bmap slot then (Inl Panic, s)
                  else
                    let bmap' = clearBit bmap slot;
                        d1 = d\<lparr>bg_FreeBlocksCount := w32 (bg_FreeBlocksCount d + 1)\<rparr>;
                        d2 = setBGDChecksum sb g (bgd_encode (setBitmapCsum sb g d1 True bmap') sb);
                        s1 = s\<lparr>fs_sb := sb\<lparr>FreeBlocksCount := w64 (FreeBlocksCount sb + 1)\<rparr>\<rparr>
                    in persist_group E fsOffset g (bg_BlockBitmapBlock d) bmap' d2 s1))"

definition writeBitmapBufNoLock :: "int \<Rightarrow> superblock \<Rightarrow> u32 \<Rightarrow> bgd \<Rightarrow> bool \<Rightarrow> u64 \<Rightarrow> byte list \<Rightarrow> (device, bgd) io" where
  "writeBitmapBufNoLock fsOffset sb g d isBlockBitmap bitmapBlock bmap =
    io_bind (writeRawBlock fsOffset sb bitmapBlock bmap)
      (\<lambda>_. io_return (setBitmapCsum sb g d isBlockBitmap bmap))"

definition freeInodeSlot :: "alloc_env \<Rightarrow> int \<Rightarrow> u32 \<Rightarrow> (fsys, unit) io" where
  "freeInodeSlot E fsOffset inodeNum s =
    (let sb = fs_sb s;
         idx = sub32 inodeNum 1
     in if InodesPerGroup sb = 0 then (Inl Panic, s)
        else
          let g = idx div InodesPerGroup sb;
              slot = idx mod InodesPerGroup sb
          in case readBGD (fs_dev s) fsOffset sb g of
               Inl err \<Rightarrow> (Inl err, s)
             | Inr d \<Rightarrow>
               (case readBitmap E (fs_dev s) fsOffset sb (bg_InodeBitmapBlock d) of
                  Inl err \<Rightarrow> (Inl err, s)
                | Inr bmap \<Rightarrow>
                  if \<not> in_bitmap bmap slot then (Inl Panic, s)
                  else
                    let bmap' = clearBit bmap slot;
                        d1 = d\<lparr>bg_FreeInodesCount := w32 (bg_FreeInodesCount d + 1)\<rparr>
                    in case on_dev (writeBitmapBufNoLock fsOffset sb g d1 False (bg_InodeBitmapBlock d) bmap') s of
                         (Inl err, s1) \<Rightarrow> (Inl err, s1)
                       | (Inr d2, s1) \<Rightarrow>
                         (case on_dev (writeBGD (ae_route E) (ae_debug E) fsOffset sb g d2) s1 of
                            (Inl err, s2) \<Rightarrow> (Inl err, s2)
                          | (Inr _, s2) \<Rightarrow>
                              writeSuperblock (ae_route E) (ae_debug E) fsOffset
                                (s2\<lparr>fs_sb := sb\<lparr>FreeInodesCount := w32 (FreeInodesCount sb + 1)\<rparr>\<rparr>))))"

section \<open>Counters and the raw copy do not change the geometry\<close>

named_theorems sb_geom

lemma sb_geom_raw [sb_geom]:
  "block_off fsOffset (sb\<lparr>sb_raw := x\<rparr>) b = block_off fsOffset sb b"
  "descOff (sb\<lparr>sb_raw := x\<rparr>) g = descOff sb g"
  "readBGD f fsOffset (sb\<lparr>sb_raw := x\<rparr>) g = readBGD f fsOffset sb g"
  "readRawBlock f fsOffset (sb\<lparr>sb_raw := x\<rparr>) b = readRawBlock f fsOffset sb b"
  "decodeBGD raw (sb\<lparr>sb_raw := x\<rparr>) = decodeBGD raw sb"
  "meta_apart fsOffset (sb\<lparr>sb_raw := x\<rparr>) g b = meta_apart fsOffset sb g b"
  "clear_of fsOffset (sb\<lparr>sb_raw := x\<rparr>) g b off n = clear_of fsOffset sb g b off n"
  "desc_max (sb\<lparr>sb_raw := x\<rparr>) = desc_max sb"
  "put_bgd_csum (sb\<lparr>sb_raw := x\<rparr>) g raw = put_bgd_csum sb g raw"
  "numBlockGroups (sb\<lparr>sb_raw := x\<rparr>) = numBlockGroups sb"
  by (simp_all add: block_off_def descOff_def bgdTableBlock_def readBGD_def decodeBGD_def wide_desc_def readRawBlock_def
      meta_apart_def clear_of_def desc_range_apart_def desc_max_def put_bgd_csum_def bgd_csum_def csumSeed_def
      numBlockGroups_def)

lemma sb_geom_inodes [sb_geom]:
  "block_off fsOffset (sb\<lparr>FreeInodesCount := x\<rparr>) b = block_off fsOffset sb b"
  "descOff (sb\<lparr>FreeInodesCount := x\<rparr>) g = descOff sb g"
  "readBGD f fsOffset (sb\<lparr>FreeInodesCount := x\<rparr>) g = readBGD f fsOffset sb g"
  "readRawBlock f fsOffset (sb\<lparr>FreeInodesCount := x\<rparr>) b = readRawBlock f fsOffset sb b"
  "decodeBGD raw (sb\<lparr>FreeInodesCount := x\<rparr>) = decodeBGD raw sb"
  "meta_apart fsOffset (sb\<lparr>FreeInodesCount := x\<rparr>) g b = meta_apart fsOffset sb g b"
  "clear_of fsOffset (sb\<lparr>FreeInodesCount := x\<rparr>) g b off n = clear_of fsOffset sb g b off n"
  "desc_max (sb\<lparr>FreeInodesCount := x\<rparr>) = desc_max sb"
  "put_bgd_csum (sb\<lparr>FreeInodesCount := x\<rparr>) g raw = put_bgd_csum sb g raw"
  "numBlockGroups (sb\<lparr>FreeInodesCount := x\<rparr>) = numBlockGroups sb"
  by (simp_all add: block_off_def descOff_def bgdTableBlock_def readBGD_def decodeBGD_def wide_desc_def readRawBlock_def
      meta_apart_def clear_of_def desc_range_apart_def desc_max_def put_bgd_csum_def bgd_csum_def csumSeed_def
      numBlockGroups_def)

lemma sb_geom_blocks [sb_geom]:
  "block_off fsOffset (sb\<lparr>FreeBlocksCount := x\<rparr>) b = block_off fsOffset sb b"
  "descOff (sb\<lparr>FreeBlocksCount := x\<rparr>) g = descOff sb g"
  "readBGD f fsOffset (sb\<lparr>FreeBlocksCount := x\<rparr>) g = readBGD f fsOffset sb g"
  "readRawBlock f fsOffset (sb\<lparr>FreeBlocksCount := x\<rparr>) b = readRawBlock f fsOffset sb b"
  "decodeBGD raw (sb\<lparr>FreeBlocksCount := x\<rparr>) = decodeBGD raw sb"
  "meta_apart fsOffset (sb\<lparr>FreeBlocksCount := x\<rparr>) g b = meta_apart fsOffset sb g b"
  "clear_of fsOffset (sb\<lparr>FreeBlocksCount := x\<rparr>) g b off n = clear_of fsOffset sb g b off n"
  "desc_max (sb\<lparr>FreeBlocksCount := x\<rparr>) = desc_max sb"
  "put_bgd_csum (sb\<lparr>FreeBlocksCount := x\<rparr>) g raw = put_bgd_csum sb g raw"
  "numBlockGroups (sb\<lparr>FreeBlocksCount := x\<rparr>) = numBlockGroups sb"
  by (simp_all add: block_off_def descOff_def bgdTableBlock_def readBGD_def decodeBGD_def wide_desc_def readRawBlock_def
      meta_apart_def clear_of_def desc_range_apart_def desc_max_def put_bgd_csum_def bgd_csum_def csumSeed_def
      numBlockGroups_def)

lemma encodeRaw_upd: "encodeRaw sb = sb\<lparr>sb_raw := sb_raw (encodeRaw sb)\<rparr>"
  by (simp add: encodeRaw_def Let_def)

lemma sb_geom_encode [sb_geom]:
  "block_off fsOffset (encodeRaw sb) b = block_off fsOffset sb b"
  "descOff (encodeRaw sb) g = descOff sb g"
  "readBGD f fsOffset (encodeRaw sb) g = readBGD f fsOffset sb g"
  "readRawBlock f fsOffset (encodeRaw sb) b = readRawBlock f fsOffset sb b"
  "decodeBGD raw (encodeRaw sb) = decodeBGD raw sb"
  "meta_apart fsOffset (encodeRaw sb) g b = meta_apart fsOffset sb g b"
  "clear_of fsOffset (encodeRaw sb) g b off n = clear_of fsOffset sb g b off n"
  "desc_max (encodeRaw sb) = desc_max sb"
  "put_bgd_csum (encodeRaw sb) g raw = put_bgd_csum sb g raw"
  "numBlockGroups (encodeRaw sb) = numBlockGroups sb"
  by (subst encodeRaw_upd, simp only: sb_geom_raw)+

lemma encodeRaw_keeps [simp]:
  "BlockSize (encodeRaw sb) = BlockSize sb" "DescSize (encodeRaw sb) = DescSize sb"
  "InodesPerGroup (encodeRaw sb) = InodesPerGroup sb" "BlocksPerGroup (encodeRaw sb) = BlocksPerGroup sb"
  "FreeInodesCount (encodeRaw sb) = FreeInodesCount sb" "FreeBlocksCount (encodeRaw sb) = FreeBlocksCount sb"
  "FirstDataBlock (encodeRaw sb) = FirstDataBlock sb" "InodesCount (encodeRaw sb) = InodesCount sb"
  "BlocksCount (encodeRaw sb) = BlocksCount sb" "InodeSize (encodeRaw sb) = InodeSize sb"
  "FeatureROCompat (encodeRaw sb) = FeatureROCompat sb"
  by (subst encodeRaw_upd, simp)+

section \<open>Reservations\<close>

definition reserved_bit :: "byte list option \<Rightarrow> nat \<Rightarrow> bool" where
  "reserved_bit rb i \<longleftrightarrow> (case rb of None \<Rightarrow> False | Some r \<Rightarrow> in_bitmap r i \<and> bit_used r i)"

lemma length_merge [simp]: "length (merge_reserved rb bmap) = length bmap"
  by (simp add: merge_reserved_def split: option.splits)

lemma bit_used_merge:
  assumes "in_bitmap bmap i"
  shows "bit_used (merge_reserved rb bmap) i \<longleftrightarrow> bit_used bmap i \<or> reserved_bit rb i"
proof (cases rb)
  case (Some r)
  have "in_bitmap (merge_reserved rb bmap) i"
    using assms by (simp add: in_bitmap_def)
  then show ?thesis
    using assms Some
    by (auto simp: bit_used_iff merge_reserved_def reserved_bit_def bit_or_iff in_bitmap_def)
qed (simp add: merge_reserved_def reserved_bit_def)

section \<open>Persisting a group\<close>

lemma on_dev_Inr: "on_dev m s = (Inr x, s') \<longleftrightarrow> (\<exists>f'. m (fs_dev s) = (Inr x, f') \<and> s' = s\<lparr>fs_dev := f'\<rparr>)"
  by (auto simp: on_dev_def split: prod.splits)

lemma persist_effect:
  assumes p: "persist_group E fsOffset g blk bmap d s = (Inr (), s')"
    and len: "length bmap = BlockSize (fs_sb s)" "length (bg_raw d) = DescSize (fs_sb s)" "length (sb_raw (fs_sb s)) = 1024"
    and apart: "meta_apart fsOffset (fs_sb s) g blk"
  shows "fs_sb s' = encodeRaw (fs_sb s)"
    "readRawBlock (fs_dev s') fsOffset (fs_sb s) blk = Inr bmap"
    "ReadAt (fs_dev s') (i64 (fsOffset + 1024)) superblockSize = Inr (sb_raw (fs_sb s'))"
    "\<And>off n b. ReadAt (fs_dev s) off n = Inr b \<Longrightarrow> clear_of fsOffset (fs_sb s) g blk off n \<Longrightarrow> ReadAt (fs_dev s') off n = Inr b"
proof -
  from p obtain f' where e: "enqueueCommitWritesUnderLock (ae_route E) (ae_debug E) fsOffset (encodeRaw (fs_sb s)) g
      (meta_ops fsOffset (encodeRaw (fs_sb s)) g blk bmap (bg_raw d) (sb_raw (encodeRaw (fs_sb s)))) (fs_dev s) = (Inr (), f')"
    and s': "s' = s\<lparr>fs_sb := encodeRaw (fs_sb s), fs_dev := f'\<rparr>"
    by (auto simp: persist_group_def Let_def on_dev_Inr)
  show sb': "fs_sb s' = encodeRaw (fs_sb s)"
    by (simp add: s')
  note b = batch_effect [OF e, simplified sb_geom encodeRaw_keeps, OF len(1,2) length_encodeRaw [OF len(3)] apart]
  show "readRawBlock (fs_dev s') fsOffset (fs_sb s) blk = Inr bmap"
    "ReadAt (fs_dev s') (i64 (fsOffset + 1024)) superblockSize = Inr (sb_raw (fs_sb s'))"
    using b(1,2) by (simp_all add: s' readRawBlock_def)
  show "ReadAt (fs_dev s') off n = Inr b" if "ReadAt (fs_dev s) off n = Inr b" "clear_of fsOffset (fs_sb s) g blk off n" for off n b
    using b(4) [OF that] by (simp add: s')
qed

section \<open>Layout\<close>

text \<open>
  The layout the allocators rely on: the superblock, the descriptor and the bitmap of a group do
  not overlap, and a bitmap block has a bit for every inode and block of the group.
\<close>

definition good_layout :: "int \<Rightarrow> fsys \<Rightarrow> bool" where
  "good_layout fsOffset s \<longleftrightarrow>
    length (sb_raw (fs_sb s)) = 1024
    \<and> InodesPerGroup (fs_sb s) \<le> 8 * BlockSize (fs_sb s) \<and> BlocksPerGroup (fs_sb s) \<le> 8 * BlockSize (fs_sb s)
    \<and> list_all (\<lambda>g. case readBGD (fs_dev s) fsOffset (fs_sb s) g of
          Inl _ \<Rightarrow> True
        | Inr d \<Rightarrow> meta_apart fsOffset (fs_sb s) g (bg_InodeBitmapBlock d)
                 \<and> meta_apart fsOffset (fs_sb s) g (bg_BlockBitmapBlock d))
        [0..<numBlockGroups (fs_sb s)]"

lemma good_layout_group:
  assumes "good_layout fsOffset s" "g < numBlockGroups (fs_sb s)" "readBGD (fs_dev s) fsOffset (fs_sb s) g = Inr d"
  shows "meta_apart fsOffset (fs_sb s) g (bg_InodeBitmapBlock d)" "meta_apart fsOffset (fs_sb s) g (bg_BlockBitmapBlock d)"
    "length (bg_raw d) = DescSize (fs_sb s)" "32 \<le> DescSize (fs_sb s)" "length (sb_raw (fs_sb s)) = 1024"
proof -
  show m: "meta_apart fsOffset (fs_sb s) g (bg_InodeBitmapBlock d)" "meta_apart fsOffset (fs_sb s) g (bg_BlockBitmapBlock d)"
    using assms by (auto simp: good_layout_def list_all_iff dest!: bspec [of _ _ g])
  show "32 \<le> DescSize (fs_sb s)"
    using m(1) by (simp add: meta_apart_def)
  show "length (bg_raw d) = DescSize (fs_sb s)"
    using assms(3) by (auto simp: readBGD_def res_bind_Inr_iff dest: ReadAt_length)
  show "length (sb_raw (fs_sb s)) = 1024"
    using assms(1) by (simp add: good_layout_def)
qed

lemma readRawBlock_length: "readRawBlock f fsOffset sb b = Inr bmap \<Longrightarrow> length bmap = BlockSize sb"
  by (auto simp: readRawBlock_def dest: ReadAt_length)

lemma readBitmap_Inr:
  assumes "readBitmap E f fsOffset sb b = Inr bmap"
  obtains raw where "readRawBlock f fsOffset sb b = Inr raw" "bmap = merge_reserved (reserved_for E f fsOffset sb b) raw"
    "length raw = BlockSize sb" "length bmap = BlockSize sb"
  using assms by (auto simp: readBitmap_def res_bind_Inr_iff dest: readRawBlock_length)

lemma length_setBitmapCsum [simp]:
  "DescSize sb \<le> length (bg_raw d) \<Longrightarrow> 32 \<le> DescSize sb \<Longrightarrow>
    length (bg_raw (setBitmapCsum sb g d isB bmap)) = length (bg_raw d)"
  by (simp add: setBitmapCsum_def Let_def)

lemma group_order_set: "g \<in> set (group_order E n) \<Longrightarrow> g < n"
  by (cases "n = 0") (auto simp: group_order_def)

text \<open>Every group is visited once the number of groups leaves the cursor sum within 32 bits.\<close>

lemma group_order_all:
  assumes "g < n" "n \<le> 2147483648"
  shows "g \<in> set (group_order E n)"
proof -
  define c where "c = ae_cursor E mod n"
  define i where "i = (g + n - c) mod n"
  have c: "c < n"
    using assms by (simp add: c_def)
  have i: "i < n"
    using assms by (simp add: i_def)
  have "(c + i) mod n = (c + (g + n - c)) mod n"
    by (simp add: i_def mod_add_right_eq)
  also have "\<dots> = g"
    using assms c by simp
  finally have "(c + i) mod n = g" .
  moreover have "w32 (c + i) = c + i"
    using c i assms(2) by simp
  ultimately have "w32 (ae_cursor E mod n + i) mod n = g"
    by (simp add: c_def)
  then show ?thesis
    unfolding group_order_def set_map set_upt using i by (intro image_eqI [of _ _ i]) auto
qed

section \<open>Inodes\<close>

text \<open>The descriptor and superblock \<open>allocInode\<close> hands to the dispatcher.\<close>

abbreviation (input) inode_bgd :: "superblock \<Rightarrow> u32 \<Rightarrow> bool \<Rightarrow> bgd \<Rightarrow> byte list \<Rightarrow> bgd" where
  "inode_bgd sb g forDir d bmap' \<equiv>
    bgd_encode (setBitmapCsum sb g (d\<lparr>bg_FreeInodesCount := sub32 (bg_FreeInodesCount d) 1,
      bg_UsedDirsCount := (if forDir then w32 (bg_UsedDirsCount d + 1) else bg_UsedDirsCount d)\<rparr>) False bmap') sb"

lemma alloc_inode_groups_take:
  assumes "alloc_inode_groups E fsOffset forDir gs s = (Inr ino, s')"
  shows "\<exists>g d bmap slot. g \<in> set gs \<and> readBGD (fs_dev s) fsOffset (fs_sb s) g = Inr d
    \<and> readBitmap E (fs_dev s) fsOffset (fs_sb s) (bg_InodeBitmapBlock d) = Inr bmap
    \<and> findFreeBit bmap (InodesPerGroup (fs_sb s)) = Inr (Some slot)
    \<and> persist_group E fsOffset g (bg_InodeBitmapBlock d) (setBit bmap slot) (inode_bgd (fs_sb s) g forDir d (setBit bmap slot))
        (s\<lparr>fs_sb := (fs_sb s)\<lparr>FreeInodesCount := sub32 (FreeInodesCount (fs_sb s)) 1\<rparr>\<rparr>) = (Inr (), s')
    \<and> ino = w32 (g * InodesPerGroup (fs_sb s) + slot + 1)"
  using assms
proof (induction gs)
  case (Cons g gs)
  obtain d where d: "readBGD (fs_dev s) fsOffset (fs_sb s) g = Inr d"
    using Cons.prems by (cases "readBGD (fs_dev s) fsOffset (fs_sb s) g") simp_all
  have skip: ?case if "alloc_inode_groups E fsOffset forDir gs s = (Inr ino, s')"
    using Cons.IH [OF that] by (metis list.set_intros(2))
  show ?case
  proof (cases "bg_FreeInodesCount d = 0 \<or> ae_busy E g")
    case True
    then show ?thesis
      using Cons.prems d by (intro skip) simp
  next
    case False
    obtain bmap where b: "readBitmap E (fs_dev s) fsOffset (fs_sb s) (bg_InodeBitmapBlock d) = Inr bmap"
      using Cons.prems d False
      by (cases "readBitmap E (fs_dev s) fsOffset (fs_sb s) (bg_InodeBitmapBlock d)") simp_all
    show ?thesis
    proof (cases "findFreeBit bmap (InodesPerGroup (fs_sb s))")
      case (Inr r)
      show ?thesis
      proof (cases r)
        case None
        then show ?thesis
          using Cons.prems d False b Inr by (intro skip) simp
      next
        case (Some slot)
        then have "(case persist_group E fsOffset g (bg_InodeBitmapBlock d) (setBit bmap slot) (inode_bgd (fs_sb s) g forDir d (setBit bmap slot))
              (s\<lparr>fs_sb := (fs_sb s)\<lparr>FreeInodesCount := sub32 (FreeInodesCount (fs_sb s)) 1\<rparr>\<rparr>) of
             (Inl err, s') \<Rightarrow> (Inl err, s')
           | (Inr _, s') \<Rightarrow> (Inr (w32 (g * InodesPerGroup (fs_sb s) + slot + 1)), s')) = (Inr ino, s')"
          using Cons.prems d False b Inr by (simp add: Let_def)
        then show ?thesis
          using d b Inr Some by (intro exI conjI) (auto split: prod.splits sum.splits)
      qed
    qed (use Cons.prems d False b in simp)
  qed
qed simp

lemma findFreeBit_some:
  assumes "findFreeBit bmap m = Inr (Some slot)" "m \<le> 8 * length bmap"
  shows "slot < m" "\<not> bit_used bmap slot" "in_bitmap bmap slot"
  using findFreeBit_from_spec [OF assms(2), of 0] assms in_bitmap_le [OF assms(2)] by (auto simp: findFreeBit_def)

lemma persist_with:
  assumes p: "persist_group E fsOffset g blk bmap' d2 (s\<lparr>fs_sb := sb1\<rparr>) = (Inr (), s')"
    and sb1: "sb1 = (fs_sb s)\<lparr>FreeInodesCount := c\<rparr> \<or> sb1 = (fs_sb s)\<lparr>FreeBlocksCount := c\<rparr>"
    and lay: "good_layout fsOffset s" "g < numBlockGroups (fs_sb s)" "readBGD (fs_dev s) fsOffset (fs_sb s) g = Inr d"
    and blk: "blk = bg_InodeBitmapBlock d \<or> blk = bg_BlockBitmapBlock d" "length bmap' = BlockSize (fs_sb s)"
      "length (bg_raw d2) = DescSize (fs_sb s)"
  shows "fs_sb s' = encodeRaw sb1"
    "readRawBlock (fs_dev s') fsOffset (fs_sb s) blk = Inr bmap'"
    "ReadAt (fs_dev s') (i64 (fsOffset + 1024)) superblockSize = Inr (sb_raw (fs_sb s'))"
    "\<And>off n b. ReadAt (fs_dev s) off n = Inr b \<Longrightarrow> clear_of fsOffset (fs_sb s) g blk off n \<Longrightarrow> ReadAt (fs_dev s') off n = Inr b"
proof -
  note l = good_layout_group [OF lay]
  have geo: "BlockSize sb1 = BlockSize (fs_sb s)" "DescSize sb1 = DescSize (fs_sb s)" "length (sb_raw sb1) = 1024"
    "meta_apart fsOffset sb1 g blk" "clear_of fsOffset sb1 g blk = clear_of fsOffset (fs_sb s) g blk"
    "readRawBlock (fs_dev s') fsOffset sb1 blk = readRawBlock (fs_dev s') fsOffset (fs_sb s) blk"
    using sb1 l blk(1) by (auto simp: sb_geom fun_eq_iff)
  note e = persist_effect [OF p]
  show "fs_sb s' = encodeRaw sb1"
    "readRawBlock (fs_dev s') fsOffset (fs_sb s) blk = Inr bmap'"
    "ReadAt (fs_dev s') (i64 (fsOffset + 1024)) superblockSize = Inr (sb_raw (fs_sb s'))"
    "\<And>off n b. ReadAt (fs_dev s) off n = Inr b \<Longrightarrow> clear_of fsOffset (fs_sb s) g blk off n \<Longrightarrow> ReadAt (fs_dev s') off n = Inr b"
    using e blk geo by simp_all
qed

lemmas take_simps = length_setBit length_merge length_bgd_encode length_setBitmapCsum

section \<open>Success\<close>

lemma dev_writable_store [simp]: "dev_writable (dev_store f off data) = dev_writable f"
  by (simp add: dev_writable_def dev_store_def)

lemma plain_writes_total:
  "dev_writable f \<Longrightarrow> \<forall>op\<in>set ops. 0 \<le> fst op \<Longrightarrow> \<exists>f'. plain_writes fsOffset sb ops f = (Inr (), f')"
proof (induction ops arbitrary: f)
  case (Cons op ops)
  then show ?case
    by (cases op) (simp add: writeAtWithTrace_eq WriteAt_Inr_unless)
qed simp

lemma worker_direct_total:
  "dev_writable f \<Longrightarrow> \<forall>op\<in>set ops. 0 \<le> fst op \<Longrightarrow> \<exists>f'. worker_direct dbg l fsOffset sb g ops f = (Inr (), f')"
proof (induction ops arbitrary: f l)
  case (Cons op ops)
  then show ?case
    by (cases op) (simp add: writeAtWithTrace_eq WriteAt_Inr_unless Let_def)
qed simp

lemma persist_total:
  assumes "dev_writable (fs_dev s)" "0 \<le> block_off fsOffset (fs_sb s) blk" "0 \<le> i64 (fsOffset + descOff (fs_sb s) g)"
    "0 \<le> i64 (fsOffset + 1024)"
  shows "\<exists>s'. persist_group E fsOffset g blk bmap d s = (Inr (), s')"
proof -
  have o: "\<forall>op\<in>set (meta_ops fsOffset (encodeRaw (fs_sb s)) g blk bmap (bg_raw d) (sb_raw (encodeRaw (fs_sb s)))). 0 \<le> fst op"
    using assms(2-4) by (simp add: meta_ops_def sb_geom)
  show ?thesis
    using plain_writes_total [OF assms(1) o, of fsOffset "encodeRaw (fs_sb s)"]
      worker_direct_total [OF assms(1) o, of "ae_debug E" None fsOffset "encodeRaw (fs_sb s)" g]
    by (cases "ae_route E") (auto simp: persist_group_def Let_def on_dev_Inr enqueueCommitWritesUnderLock_def)
qed

text \<open>A group the inode allocator can use.\<close>

definition inode_group_free :: "alloc_env \<Rightarrow> int \<Rightarrow> fsys \<Rightarrow> u32 \<Rightarrow> bool" where
  "inode_group_free E fsOffset s g \<longleftrightarrow> \<not> ae_busy E g \<and>
    (case readBGD (fs_dev s) fsOffset (fs_sb s) g of
       Inl _ \<Rightarrow> False
     | Inr d \<Rightarrow> 0 < bg_FreeInodesCount d \<and>
        (case readBitmap E (fs_dev s) fsOffset (fs_sb s) (bg_InodeBitmapBlock d) of
           Inl _ \<Rightarrow> False
         | Inr bmap \<Rightarrow> list_ex (\<lambda>i. \<not> bit_used bmap i) [0..<InodesPerGroup (fs_sb s)]))"

text \<open>The descriptors and bitmaps of a group can be read, and written back.\<close>

definition group_io_ok :: "int \<Rightarrow> fsys \<Rightarrow> u32 \<Rightarrow> bool" where
  "group_io_ok fsOffset s g \<longleftrightarrow>
    0 \<le> i64 (fsOffset + descOff (fs_sb s) g) \<and> 0 \<le> i64 (fsOffset + 1024) \<and>
    (case readBGD (fs_dev s) fsOffset (fs_sb s) g of
       Inl _ \<Rightarrow> False
     | Inr d \<Rightarrow> list_all (\<lambda>b. 0 \<le> block_off fsOffset (fs_sb s) b
         \<and> (case readRawBlock (fs_dev s) fsOffset (fs_sb s) b of Inl _ \<Rightarrow> False | Inr _ \<Rightarrow> True))
         [bg_BlockBitmapBlock d, bg_InodeBitmapBlock d])"

lemma group_io_okE:
  assumes "group_io_ok fsOffset s g"
  obtains d bb ib where "readBGD (fs_dev s) fsOffset (fs_sb s) g = Inr d"
    "readRawBlock (fs_dev s) fsOffset (fs_sb s) (bg_BlockBitmapBlock d) = Inr bb"
    "readRawBlock (fs_dev s) fsOffset (fs_sb s) (bg_InodeBitmapBlock d) = Inr ib"
    "0 \<le> block_off fsOffset (fs_sb s) (bg_BlockBitmapBlock d)" "0 \<le> block_off fsOffset (fs_sb s) (bg_InodeBitmapBlock d)"
    "0 \<le> i64 (fsOffset + descOff (fs_sb s) g)" "0 \<le> i64 (fsOffset + 1024)"
  using assms by (auto simp: group_io_ok_def split: sum.splits)

lemma alloc_inode_groups_succeeds:
  assumes ex: "\<exists>g\<in>set gs. inode_group_free E fsOffset s g"
    and io: "\<forall>g\<in>set gs. group_io_ok fsOffset s g" "dev_writable (fs_dev s)"
    and ipg: "InodesPerGroup (fs_sb s) \<le> 8 * BlockSize (fs_sb s)"
  shows "\<exists>ino s'. alloc_inode_groups E fsOffset forDir gs s = (Inr ino, s')"
  using ex io(1)
proof (induction gs)
  case (Cons g gs)
  from Cons.prems(2) have "group_io_ok fsOffset s g"
    by simp
  then obtain d bb ib where d: "readBGD (fs_dev s) fsOffset (fs_sb s) g = Inr d"
    and ib: "readRawBlock (fs_dev s) fsOffset (fs_sb s) (bg_InodeBitmapBlock d) = Inr ib"
    and off: "0 \<le> block_off fsOffset (fs_sb s) (bg_InodeBitmapBlock d)"
      "0 \<le> i64 (fsOffset + descOff (fs_sb s) g)" "0 \<le> i64 (fsOffset + 1024)"
    by (rule group_io_okE)
  obtain bmap where b: "readBitmap E (fs_dev s) fsOffset (fs_sb s) (bg_InodeBitmapBlock d) = Inr bmap"
    and len: "length bmap = BlockSize (fs_sb s)"
    using ib by (auto simp: readBitmap_def res_bind_def dest: readRawBlock_length)
  from ipg len have ipg': "InodesPerGroup (fs_sb s) \<le> 8 * length bmap"
    by simp
  obtain r where r: "findFreeBit bmap (InodesPerGroup (fs_sb s)) = Inr r"
    and rN: "r = None \<Longrightarrow> \<forall>j < InodesPerGroup (fs_sb s). bit_used bmap j"
    using findFreeBit_from_spec [OF ipg', of 0] by (auto simp: findFreeBit_def split: option.splits)
  have skip: "\<exists>ino s'. alloc_inode_groups E fsOffset forDir gs s = (Inr ino, s')" if "\<not> inode_group_free E fsOffset s g"
    using Cons.IH Cons.prems that by simp
  show ?case
  proof (cases "bg_FreeInodesCount d = 0 \<or> ae_busy E g")
    case True
    then have "\<not> inode_group_free E fsOffset s g"
      using d by (auto simp: inode_group_free_def)
    with skip True d show ?thesis
      by simp
  next
    case False
    show ?thesis
    proof (cases r)
      case None
      then have "\<not> inode_group_free E fsOffset s g"
        using d b rN by (auto simp: inode_group_free_def list_ex_iff)
      with skip False d b r None show ?thesis
        by simp
    next
      case (Some slot)
      have "\<exists>s'. persist_group E fsOffset g (bg_InodeBitmapBlock d) (setBit bmap slot) (inode_bgd (fs_sb s) g forDir d (setBit bmap slot))
          (s\<lparr>fs_sb := (fs_sb s)\<lparr>FreeInodesCount := sub32 (FreeInodesCount (fs_sb s)) 1\<rparr>\<rparr>) = (Inr (), s')"
        using io(2) off by (intro persist_total) (simp_all add: sb_geom)
      with False d b r Some show ?thesis
        by (auto simp: Let_def)
    qed
  qed
qed simp

end
