(* ===== verification/AllocSample.thy ===== *)
theory AllocSample
  imports Alloc Sample
begin

text \<open>The allocators on the sample file system.\<close>

definition mini_fs :: fsys where
  "mini_fs = \<lparr>fs_dev = mini_dev, fs_sb = mini_sb\<rparr>"

definition quiet :: "route \<Rightarrow> alloc_env" where
  "quiet r = \<lparr>ae_cursor = 0, ae_busy = (\<lambda>_. False), ae_rsv = (\<lambda>_ _. None), ae_route = r, ae_debug = False\<rparr>"

lemma mini_fs_simps [simp]: "fs_dev mini_fs = mini_dev" "fs_sb mini_fs = mini_sb"
  by (simp_all add: mini_fs_def)

lemma quiet_simps [simp]:
  "ae_cursor (quiet r) = 0" "\<not> ae_busy (quiet r) g" "ae_rsv (quiet r) g isB = None" "ae_route (quiet r) = r" "\<not> ae_debug (quiet r)"
  by (simp_all add: quiet_def)

definition mini_bm :: "byte list" where "mini_bm = map mini_byte [192..<256]"
definition mini_im :: "byte list" where "mini_im = map mini_byte [256..<320]"

lemma mini_block_off: "b < 100 \<Longrightarrow> block_off 0 mini_sb b = int (b * 64)"
  by (simp add: block_off_def i64_nat flip: of_nat_mult)

lemma mini_raw:
  "readRawBlock mini_dev 0 mini_sb 3 = Inr mini_bm" "readRawBlock mini_dev 0 mini_sb 4 = Inr mini_im"
  by (simp_all add: readRawBlock_def mini_block_off ReadAt_Inr_iff mini_bm_def mini_im_def)

lemma mini_reserved: "reserved_for (quiet r) f off sb b = None"
  by (simp add: reserved_for_def split: option.splits)

lemma mini_bitmap:
  "readBitmap (quiet r) mini_dev 0 mini_sb 3 = Inr mini_bm" "readBitmap (quiet r) mini_dev 0 mini_sb 4 = Inr mini_im"
  by (simp_all add: readBitmap_def mini_raw mini_reserved merge_reserved_def res_bind_def)

lemma mini_bits:
  "\<forall>i\<in>set [0..<64]. bit_used mini_bm i = (i < 32)" "\<forall>i\<in>set [0..<4]. bit_used mini_im i = (i < 2)"
  by code_simp+

lemma mini_apart:
  "meta_apart 0 mini_sb 0 3" "meta_apart 0 mini_sb 0 4"
  by (simp_all add: meta_apart_def desc_range_apart_def mini_block_off)

lemma mini_bgd_blocks [simp]:
  "bg_BlockBitmapBlock mini_bgd = 3" "bg_InodeBitmapBlock mini_bgd = 4" "bg_InodeTableBlock mini_bgd = 5"
  "bg_FreeBlocksCount mini_bgd = 32" "bg_FreeInodesCount mini_bgd = 2" "bg_UsedDirsCount mini_bgd = 0"
  by (simp_all add: mini_bgd_def)

lemma mini_good: "good_layout 0 mini_fs"
  by (simp add: good_layout_def readBGD_mini mini_apart)

lemma mini_io: "group_io_ok 0 mini_fs 0"
  by (simp add: group_io_ok_def readBGD_mini mini_raw mini_block_off)

lemma mini_inode_free: "inode_group_free (quiet r) 0 mini_fs 0"
proof -
  have "\<not> bit_used mini_im 2"
    using mini_bits(2) by simp
  then have "\<exists>i\<in>set [0..<4]. \<not> bit_used mini_im i"
    by (intro bexI [of _ 2]) simp_all
  then show ?thesis
    by (simp add: inode_group_free_def readBGD_mini mini_bitmap list_ex_iff)
qed

end
