(* ===== verification/AllocInodes.thy ===== *)
theory AllocInodes
  imports AllocSample
begin

text \<open>Correctness of \<open>allocInode\<close>: what a successful call has done, and when a call succeeds.\<close>

text \<open>C25: when \<open>allocInode\<close> succeeds, the number it returns names an inode of some group whose bit
  was clear in the bitmap on the device and reserved by no other operation.  Afterwards the bitmap
  on the device has that bit set, and otherwise only the reserved bits added; the superblock on the
  device is the one in memory, whose free-inode count has gone down by one; and every range of
  the device outside the bitmap, the descriptor and the superblock is unchanged.\<close>

theorem allocInode_correct:
  assumes a: "allocInode E fsOffset forDir s = (Inr ino, s')"
    and lay: "good_layout fsOffset s" "numBlockGroups (fs_sb s) * InodesPerGroup (fs_sb s) < 4294967296"
  shows "\<exists>g slot d bm bm'. g < numBlockGroups (fs_sb s) \<and> slot < InodesPerGroup (fs_sb s)
    \<and> ino = g * InodesPerGroup (fs_sb s) + slot + 1
    \<and> readBGD (fs_dev s) fsOffset (fs_sb s) g = Inr d
    \<and> readRawBlock (fs_dev s) fsOffset (fs_sb s) (bg_InodeBitmapBlock d) = Inr bm
    \<and> \<not> bit_used bm slot
    \<and> \<not> reserved_bit (reserved_for E (fs_dev s) fsOffset (fs_sb s) (bg_InodeBitmapBlock d)) slot
    \<and> readRawBlock (fs_dev s') fsOffset (fs_sb s) (bg_InodeBitmapBlock d) = Inr bm'
    \<and> (\<forall>i < 8 * BlockSize (fs_sb s). bit_used bm' i \<longleftrightarrow> bit_used bm i \<or> i = slot
          \<or> reserved_bit (reserved_for E (fs_dev s) fsOffset (fs_sb s) (bg_InodeBitmapBlock d)) i)
    \<and> FreeInodesCount (fs_sb s') = sub32 (FreeInodesCount (fs_sb s)) 1
    \<and> ReadAt (fs_dev s') (i64 (fsOffset + 1024)) superblockSize = Inr (sb_raw (fs_sb s'))
    \<and> (\<forall>off n b. ReadAt (fs_dev s) off n = Inr b
          \<and> clear_of fsOffset (fs_sb s) g (bg_InodeBitmapBlock d) off n \<longrightarrow> ReadAt (fs_dev s') off n = Inr b)"
proof -
  define sb where "sb = fs_sb s"
  have "alloc_inode_groups E fsOffset forDir (group_order E (numBlockGroups sb)) s = (Inr ino, s')"
    using a by (simp add: allocInode_def sb_def Let_def split: if_splits)
  from alloc_inode_groups_take [OF this, folded sb_def] obtain g d bmap slot where
    g: "g \<in> set (group_order E (numBlockGroups sb))" and d: "readBGD (fs_dev s) fsOffset sb g = Inr d"
    and b: "readBitmap E (fs_dev s) fsOffset sb (bg_InodeBitmapBlock d) = Inr bmap"
    and slot: "findFreeBit bmap (InodesPerGroup sb) = Inr (Some slot)"
    and p: "persist_group E fsOffset g (bg_InodeBitmapBlock d) (setBit bmap slot) (inode_bgd sb g forDir d (setBit bmap slot))
        (s\<lparr>fs_sb := sb\<lparr>FreeInodesCount := sub32 (FreeInodesCount sb) 1\<rparr>\<rparr>) = (Inr (), s')"
    and ino: "ino = w32 (g * InodesPerGroup sb + slot + 1)"
    by blast
  have gn: "g < numBlockGroups sb"
    using g by (rule group_order_set)
  define rb where "rb = reserved_for E (fs_dev s) fsOffset sb (bg_InodeBitmapBlock d)"
  from b obtain bm where bm: "readRawBlock (fs_dev s) fsOffset sb (bg_InodeBitmapBlock d) = Inr bm"
    and mg: "bmap = merge_reserved rb bm" and len: "length bm = BlockSize sb" "length bmap = BlockSize sb"
    unfolding rb_def by (rule readBitmap_Inr)
  have ipg: "InodesPerGroup sb \<le> 8 * length bmap"
    using lay(1) len by (simp add: good_layout_def sb_def)
  note fs = findFreeBit_some [OF slot ipg]
  have in_bm: "in_bitmap bm i" if "i < 8 * BlockSize sb" for i
    using that len by (simp add: in_bitmap_def)
  have slot_lt: "slot < 8 * BlockSize sb"
    using fs(1) ipg len by simp
  note l = good_layout_group [OF lay(1) gn [unfolded sb_def] d [unfolded sb_def], folded sb_def]
  note e = persist_with [OF p [unfolded sb_def] _ lay(1) gn [unfolded sb_def] d [unfolded sb_def], OF disjI1 [OF refl] disjI1 [OF refl],
      folded sb_def]
  have len': "length (setBit bmap slot) = BlockSize sb"
    "length (bg_raw (inode_bgd sb g forDir d (setBit bmap slot))) = DescSize sb"
    using len l(3,4) by simp_all
  note e = e [OF len']
  have bits: "bit_used (setBit bmap slot) i \<longleftrightarrow> bit_used bm i \<or> i = slot \<or> reserved_bit rb i"
    if "i < 8 * BlockSize sb" for i
    using bit_used_setBit [OF fs(3), of i] bit_used_merge [OF in_bm [OF that], of rb] that len mg
    by (auto simp: in_bitmap_def)
  have free: "\<not> bit_used bm slot" "\<not> reserved_bit rb slot"
    using fs(2) bit_used_merge [OF in_bm [OF slot_lt], of rb] mg by simp_all
  have "g * InodesPerGroup sb + slot + 1 \<le> g * InodesPerGroup sb + InodesPerGroup sb"
    using fs(1) by simp
  also have "\<dots> = Suc g * InodesPerGroup sb"
    by simp
  also have "\<dots> \<le> numBlockGroups sb * InodesPerGroup sb"
    using gn by (intro mult_le_mono1) simp
  finally have "ino = g * InodesPerGroup sb + slot + 1"
    using lay(2) ino by (simp add: sb_def)
  moreover have "FreeInodesCount (fs_sb s') = sub32 (FreeInodesCount sb) 1"
    by (simp add: e(1))
  ultimately show ?thesis
    unfolding sb_def [symmetric] rb_def [symmetric]
    using gn fs(1) d bm free e(2-4) bits rb_def by blast
qed

lemma mini_alloc_inode: "\<exists>ino s'. allocInode (quiet r) 0 forDir mini_fs = (Inr ino, s')"
proof -
  have "group_order (quiet r) 1 = [0]"
    by (simp add: group_order_def)
  moreover have "\<exists>ino s'. alloc_inode_groups (quiet r) 0 forDir [0] mini_fs = (Inr ino, s')"
    by (rule alloc_inode_groups_succeeds) (simp_all add: mini_inode_free mini_io)
  ultimately show ?thesis
    by (simp add: allocInode_def)
qed

theorem allocInode_correct_witness:
  "\<exists>ino s'. allocInode (quiet Queued) 0 True mini_fs = (Inr ino, s') \<and> ino \<in> {3, 4} \<and> FreeInodesCount (fs_sb s') = 1"
proof -
  obtain ino s' where a: "allocInode (quiet Queued) 0 True mini_fs = (Inr ino, s')"
    using mini_alloc_inode by blast
  have n: "numBlockGroups (fs_sb mini_fs) * InodesPerGroup (fs_sb mini_fs) < 4294967296"
    by simp
  from allocInode_correct [OF a mini_good n] obtain g slot d bm where
    g: "g < 1" "slot < 4" "ino = g * 4 + slot + 1" "readBGD mini_dev 0 mini_sb g = Inr d"
    "readRawBlock mini_dev 0 mini_sb (bg_InodeBitmapBlock d) = Inr bm" "\<not> bit_used bm slot"
    and c: "FreeInodesCount (fs_sb s') = sub32 2 1"
    by auto
  have "\<not> bit_used mini_im slot"
    using g by (simp add: readBGD_mini mini_raw)
  then have "\<not> slot < 2"
    using mini_bits(2) g(2) by simp
  then have "ino \<in> {3, 4}"
    using g(1-3) by auto
  moreover have "FreeInodesCount (fs_sb s') = 1"
    using c by (simp add: sub32_def w32_def)
  ultimately show ?thesis
    using a by blast
qed

text \<open>C26: on a writable device whose group metadata can be read, \<open>allocInode\<close> finds an inode
  whenever some group is not locked by others, has a nonzero free count and has a clear bit,
  wherever the rotating cursor stands.\<close>

theorem allocInode_succeeds:
  assumes "\<exists>g < numBlockGroups (fs_sb s). inode_group_free E fsOffset s g"
    and "\<forall>g < numBlockGroups (fs_sb s). group_io_ok fsOffset s g" "dev_writable (fs_dev s)"
    and "InodesPerGroup (fs_sb s) \<le> 8 * BlockSize (fs_sb s)" "numBlockGroups (fs_sb s) \<le> 2147483648"
  shows "\<exists>ino s'. allocInode E fsOffset forDir s = (Inr ino, s')"
proof -
  have "\<exists>g\<in>set (group_order E (numBlockGroups (fs_sb s))). inode_group_free E fsOffset s g"
    using assms(1,5) group_order_all by blast
  moreover have "\<forall>g\<in>set (group_order E (numBlockGroups (fs_sb s))). group_io_ok fsOffset s g"
    using assms(2) group_order_set by blast
  ultimately have "\<exists>ino s'. alloc_inode_groups E fsOffset forDir (group_order E (numBlockGroups (fs_sb s))) s = (Inr ino, s')"
    using assms(3,4) by (rule alloc_inode_groups_succeeds)
  then show ?thesis
    using assms(1) by (auto simp: allocInode_def Let_def)
qed

theorem allocInode_succeeds_witness:
  "\<exists>ino s'. allocInode (quiet QueueFull) 0 False mini_fs = (Inr ino, s')"
  by (rule allocInode_succeeds) (simp_all add: mini_inode_free mini_io)

end
