(* ===== verification/AllocBlocks.thy ===== *)
theory AllocBlocks
  imports AllocSample
begin

text \<open>
  Correctness of the block allocators \<open>allocBlocks\<close> and \<open>lockedAllocBlocks\<close> and of \<open>freeBlock\<close>,
  and of the counts the dispatcher's worker stores with them.
\<close>

section \<open>Bytes of the descriptor\<close>

lemma decode_blocks_put:
  assumes "length raw = DescSize sb" "32 \<le> DescSize sb"
    and "\<not> wide_desc sb \<or> 64 \<le> DescSize sb"
    and "off \<in> {12, 14, 16, 24, 26, 30, 44, 46, 48, 56, 58}" "off + 2 \<le> DescSize sb"
  shows "bg_BlockBitmapBlock (decodeBGD (put_u16 raw off v) sb) = bg_BlockBitmapBlock (decodeBGD raw sb)"
    "bg_InodeBitmapBlock (decodeBGD (put_u16 raw off v) sb) = bg_InodeBitmapBlock (decodeBGD raw sb)"
  using assms by (auto simp: decodeBGD_def get32_put_other)

definition same_blocks :: "superblock \<Rightarrow> byte list \<Rightarrow> byte list \<Rightarrow> bool" where
  "same_blocks sb raw raw' \<longleftrightarrow> length raw' = length raw
    \<and> bg_BlockBitmapBlock (decodeBGD raw' sb) = bg_BlockBitmapBlock (decodeBGD raw sb)
    \<and> bg_InodeBitmapBlock (decodeBGD raw' sb) = bg_InodeBitmapBlock (decodeBGD raw sb)"

lemma same_blocks_put:
  assumes "same_blocks sb raw raw'" "length raw = DescSize sb" "32 \<le> DescSize sb" "wide_desc sb \<Longrightarrow> 64 \<le> DescSize sb"
    and "off \<in> {12, 14, 16, 24, 26, 30, 44, 46, 48, 56, 58}" "off + 2 \<le> DescSize sb"
  shows "same_blocks sb raw (put_u16 raw' off v)"
  using assms decode_blocks_put [of raw' sb off v] by (auto simp: same_blocks_def)

lemma same_blocks_encode:
  assumes "same_blocks sb raw (bg_raw d)" "length raw = DescSize sb" "32 \<le> DescSize sb"
  shows "same_blocks sb raw (bg_raw (bgd_encode d sb))"
  using assms by (auto simp: bgd_encode_def Let_def wide_desc_def intro!: same_blocks_put)

lemma same_blocks_csum:
  assumes "same_blocks sb raw (bg_raw d)" "length raw = DescSize sb" "32 \<le> DescSize sb"
  shows "same_blocks sb raw (bg_raw (setBitmapCsum sb g d isB bmap))"
  using assms by (auto simp: setBitmapCsum_def Let_def wide_desc_def intro!: same_blocks_put)

lemma same_blocks_bgd_csum:
  assumes "same_blocks sb raw raw'" "length raw = DescSize sb" "32 \<le> DescSize sb"
  shows "same_blocks sb raw (put_bgd_csum sb g raw')"
  using assms by (auto simp: put_bgd_csum_def Let_def wide_desc_def intro!: same_blocks_put)

lemma readBGD_Inr: "readBGD f fsOffset sb g = Inr d \<Longrightarrow> d = decodeBGD (bg_raw d) sb \<and> length (bg_raw d) = DescSize sb"
  by (auto simp: readBGD_def res_bind_Inr_iff dest: ReadAt_length)

lemma used_dirs_max: "bg_UsedDirsCount (decodeBGD raw sb) < desc_max sb"
proof -
  have "join16 (u16_at raw 48) (u16_at raw 16) < 4294967296"
    using u16_at_less [of raw 48] u16_at_less [of raw 16] by (simp add: join16_eq del: u16_at_less)
  then show ?thesis
    by (simp add: decodeBGD_def desc_max_def)
qed

lemma count_clear_le: "count_clear bmp m \<le> m"
  unfolding count_clear_def Let_def by (rule order_trans [OF length_filter_le]) simp

lemma decode_encode_blocks:
  assumes "length (bg_raw d) = DescSize sb" "32 \<le> DescSize sb" "bg_FreeBlocksCount d < desc_max sb"
  shows "bg_FreeBlocksCount (decodeBGD (bg_raw (bgd_encode d sb)) sb) = bg_FreeBlocksCount d"
proof (cases "wide_desc sb")
  case True
  then have "64 \<le> length (bg_raw d)" "bg_FreeBlocksCount d div 65536 < 65536"
    using assms by (simp_all add: wide_desc_def desc_max_def)
  with True show ?thesis
    by (simp add: bgd_encode_def Let_def decodeBGD_def get16_put_other and_mask16 drop_bit_eq_div)
next
  case False
  with assms show ?thesis
    by (simp add: bgd_encode_def Let_def decodeBGD_def desc_max_def get16_put_other)
qed

lemma free_blocks_max: "bg_FreeBlocksCount (decodeBGD raw sb) < desc_max sb"
proof -
  have "join16 (u16_at raw 44) (u16_at raw 12) < 4294967296"
    using u16_at_less [of raw 44] u16_at_less [of raw 12] by (simp add: join16_eq del: u16_at_less)
  then show ?thesis
    by (simp add: decodeBGD_def desc_max_def)
qed

lemma setBitmapCsum_count [simp]: "bg_FreeBlocksCount (setBitmapCsum sb g d isB bmap) = bg_FreeBlocksCount d"
  by (simp add: setBitmapCsum_def Let_def)

text \<open>The worker's recount of the free blocks, whether it can read the inode bitmap or not.\<close>

lemma recount_blocks:
  assumes len: "length data = DescSize sb" "32 \<le> DescSize sb"
    and bb: "recount_bitmap l f sb (block_off fsOffset sb (bg_BlockBitmapBlock (decodeBGD data sb))) (BlocksPerGroup sb) = Some fb"
    and rng: "fb < desc_max sb"
  shows "bg_FreeBlocksCount (decodeBGD (recount l f fsOffset sb g data) sb) = fb"
proof -
  define d where "d = decodeBGD data sb"
  define d1 where "d1 = d\<lparr>bg_FreeBlocksCount := fb\<rparr>"
  define d2 where "d2 = (case recount_bitmap l f sb (block_off fsOffset sb (bg_InodeBitmapBlock d)) (InodesPerGroup sb) of
    Some c \<Rightarrow> d1\<lparr>bg_FreeInodesCount := w32 c\<rparr> | None \<Rightarrow> d1)"
  have w: "w32 fb = fb"
    using rng by (simp add: desc_max_def split: if_splits)
  have d2: "bg_FreeBlocksCount d2 = fb" "bg_raw d2 = data"
    by (simp_all add: d2_def d1_def d_def split: option.split)
  have r: "recount l f fsOffset sb g data =
    (if bg_FreeBlocksCount d2 \<noteq> bg_FreeBlocksCount d \<or> bg_FreeInodesCount d2 \<noteq> bg_FreeInodesCount d
     then put_bgd_csum sb g (bg_raw (bgd_encode d2 sb)) else data)"
    unfolding recount_def Let_def d_def [symmetric] bb [folded d_def] option.case w d1_def [symmetric] d2_def [symmetric] ..
  have "bg_FreeBlocksCount (decodeBGD (bg_raw (bgd_encode d2 sb)) sb) = fb"
    using decode_encode_blocks [of d2 sb] d2 len rng by simp
  then show ?thesis
    using d2 len put_bgd_csum_decode [of "bg_raw (bgd_encode d2 sb)" sb g] by (simp add: r d_def)
qed

lemma batch_block_count:
  assumes enq: "enqueueCommitWritesUnderLock r dbg fsOffset sb g (meta_ops fsOffset sb g blk bmap raw sbRaw) f = (Inr (), f')"
    and len: "length bmap = BlockSize sb" "length raw = DescSize sb" "length sbRaw = 1024"
    and apart: "meta_apart fsOffset sb g blk" and blk: "blk = bg_BlockBitmapBlock (decodeBGD raw sb)"
    and rng: "BlocksPerGroup sb < desc_max sb"
  shows "\<exists>d'. readBGD f' fsOffset sb g = Inr d'
    \<and> bg_FreeBlocksCount d' = (if r = Queued then count_clear bmap (BlocksPerGroup sb) else bg_FreeBlocksCount (decodeBGD raw sb))"
proof -
  from batch_effect(3) [OF enq len apart] obtain raw' where
    rd: "readBGD f' fsOffset sb g = Inr (decodeBGD raw' sb)" "r \<noteq> Queued \<Longrightarrow> raw' = raw"
    and q: "r = Queued \<Longrightarrow> \<exists>l f1. raw' = recount l f1 fsOffset sb g raw
            \<and> WriteAt (block_off fsOffset sb blk) bmap f = (Inr (length bmap), f1)
            \<and> (l = None \<or> l = Some (bmap, block_off fsOffset sb blk))"
    by blast
  have "bg_FreeBlocksCount (decodeBGD raw' sb) = count_clear bmap (BlocksPerGroup sb)" if Q: "r = Queued"
  proof -
    from q [OF Q] obtain l f1 where l: "raw' = recount l f1 fsOffset sb g raw"
      "WriteAt (block_off fsOffset sb blk) bmap f = (Inr (length bmap), f1)" "l = None \<or> l = Some (bmap, block_off fsOffset sb blk)"
      by blast
    have "ReadAt f1 (block_off fsOffset sb blk) (BlockSize sb) = Inr bmap"
      using dv.read_back [OF l(2)] len(1) by simp
    then have "recount_bitmap l f1 sb (block_off fsOffset sb (bg_BlockBitmapBlock (decodeBGD raw sb))) (BlocksPerGroup sb)
        = Some (count_clear bmap (BlocksPerGroup sb))"
      using l(3) by (auto simp: recount_bitmap_def blk [symmetric])
    moreover have "count_clear bmap (BlocksPerGroup sb) < desc_max sb"
      using count_clear_le rng by (rule order.strict_trans1)
    moreover have "32 \<le> DescSize sb"
      using apart by (simp add: meta_apart_def)
    ultimately show ?thesis
      using recount_blocks [OF len(2)] l(1) by simp
  qed
  then show ?thesis
    using rd by auto
qed

lemma encodeRaw_free:
  assumes "length (sb_raw sb) = 1024" "FreeBlocksCount sb < 18446744073709551616"
  shows "join32 (u32_at (sb_raw (encodeRaw sb)) 0x158) (u32_at (sb_raw (encodeRaw sb)) 12) = FreeBlocksCount sb"
proof -
  have "FreeBlocksCount sb div 4294967296 < 4294967296"
    using assms(2) by auto
  then have "u32_at (sb_raw (encodeRaw sb)) 0x158 = FreeBlocksCount sb div 4294967296" "u32_at (sb_raw (encodeRaw sb)) 12 = FreeBlocksCount sb mod 4294967296"
    using assms by (simp_all add: encodeRaw_def Let_def get_put_sb_csum get_put_same get32_put_other length_put and_mask32 drop_bit_eq_div)
  then show ?thesis
    by simp
qed

section \<open>Blocks\<close>

text \<open>The descriptor the block allocators and \<open>freeBlock\<close> hand to the dispatcher.\<close>

abbreviation (input) block_bgd :: "superblock \<Rightarrow> u32 \<Rightarrow> nat \<Rightarrow> bgd \<Rightarrow> byte list \<Rightarrow> bgd" where
  "block_bgd sb g c d bmap' \<equiv> bgd_encode (setBitmapCsum sb g (d\<lparr>bg_FreeBlocksCount := c\<rparr>) True bmap') sb"

definition takes_blocks :: "alloc_env \<Rightarrow> int \<Rightarrow> u32 \<Rightarrow> fsys \<Rightarrow> u64 list \<Rightarrow> fsys \<Rightarrow> u32 \<Rightarrow> bgd \<Rightarrow> byte list \<Rightarrow> nat list \<Rightarrow> bool" where
  "takes_blocks E fsOffset n s res s' g d bmap blocks \<longleftrightarrow>
    readBGD (fs_dev s) fsOffset (fs_sb s) g = Inr d
    \<and> n \<le> bg_FreeBlocksCount d
    \<and> readBitmap E (fs_dev s) fsOffset (fs_sb s) (bg_BlockBitmapBlock d) = Inr bmap
    \<and> findFreeRun bmap (BlocksPerGroup (fs_sb s)) n = Inr (Some blocks)
    \<and> take_blocks E fsOffset n g d bmap blocks s = (Inr res, s')"

lemma locked_alloc_groups_take:
  assumes "locked_alloc_groups E fsOffset n gs s = (Inr res, s')"
  shows "\<exists>g\<in>set gs. \<exists>d bmap blocks. takes_blocks E fsOffset n s res s' g d bmap blocks"
  using assms
proof (induction gs)
  case (Cons g gs)
  have skip: ?case if "locked_alloc_groups E fsOffset n gs s = (Inr res, s')"
    using Cons.IH [OF that] by auto
  show ?case
  proof (cases "ae_busy E g")
    case True
    then show ?thesis
      using Cons.prems by (intro skip) simp
  next
    case nb: False
    obtain d where d: "readBGD (fs_dev s) fsOffset (fs_sb s) g = Inr d"
      using Cons.prems nb by (cases "readBGD (fs_dev s) fsOffset (fs_sb s) g") simp_all
    show ?thesis
    proof (cases "bg_FreeBlocksCount d < n")
      case True
      then show ?thesis
        using Cons.prems nb d by (intro skip) simp
    next
      case False
      obtain bmap where b: "readBitmap E (fs_dev s) fsOffset (fs_sb s) (bg_BlockBitmapBlock d) = Inr bmap"
        using Cons.prems d False nb
        by (cases "readBitmap E (fs_dev s) fsOffset (fs_sb s) (bg_BlockBitmapBlock d)") simp_all
      obtain r where r: "findFreeRun bmap (BlocksPerGroup (fs_sb s)) n = Inr r"
        using Cons.prems d False nb b
        by (cases "findFreeRun bmap (BlocksPerGroup (fs_sb s)) n") simp_all
      show ?thesis
      proof (cases r)
        case None
        then show ?thesis
          using Cons.prems nb d b r False by (intro skip) simp
      next
        case (Some blocks)
        then have "takes_blocks E fsOffset n s res s' g d bmap blocks"
          using Cons.prems nb d b r False by (simp add: takes_blocks_def)
        then show ?thesis
          by auto
      qed
    qed
  qed
qed simp

lemma alloc_block_groups_take:
  assumes "alloc_block_groups E fsOffset n gs s = (Inr res, s')" "\<forall>g\<in>set gs. g < numBlockGroups (fs_sb s)"
  shows "\<exists>g < numBlockGroups (fs_sb s). \<exists>d bmap blocks. takes_blocks E fsOffset n s res s' g d bmap blocks"
  using assms
proof (induction gs)
  case Nil
  then have "locked_alloc_groups E fsOffset n [0..<numBlockGroups (fs_sb s)] s = (Inr res, s')"
    by (auto simp: lockedAllocBlocks_def split: prod.splits sum.splits)
  from locked_alloc_groups_take [OF this] show ?case
    by (metis atLeastLessThan_iff set_upt)
next
  case (Cons g gs)
  have skip: ?case if "alloc_block_groups E fsOffset n gs s = (Inr res, s')"
    using Cons.IH [OF that] Cons.prems(2) by simp
  obtain d where d: "readBGD (fs_dev s) fsOffset (fs_sb s) g = Inr d"
    using Cons.prems(1) by (cases "readBGD (fs_dev s) fsOffset (fs_sb s) g") simp_all
  show ?case
  proof (cases "bg_FreeBlocksCount d < n \<or> ae_busy E g")
    case True
    then show ?thesis
      using Cons.prems(1) d by (intro skip) (auto split: if_splits)
  next
    case False
    obtain bmap where b: "readBitmap E (fs_dev s) fsOffset (fs_sb s) (bg_BlockBitmapBlock d) = Inr bmap"
      using Cons.prems(1) d False
      by (cases "readBitmap E (fs_dev s) fsOffset (fs_sb s) (bg_BlockBitmapBlock d)") simp_all
    obtain r where r: "findFreeRun bmap (BlocksPerGroup (fs_sb s)) n = Inr r"
      using Cons.prems(1) d False b
      by (cases "findFreeRun bmap (BlocksPerGroup (fs_sb s)) n") simp_all
    show ?thesis
    proof (cases r)
      case None
      then show ?thesis
        using Cons.prems(1) d b r False by (intro skip) simp
    next
      case (Some blocks)
      then have "take_blocks E fsOffset n g d bmap blocks s = (Inr res, s')"
        using Cons.prems(1) d b r False by (auto split: prod.splits sum.splits)
      then have "takes_blocks E fsOffset n s res s' g d bmap blocks"
        using Some d b r False by (simp add: takes_blocks_def)
      then show ?thesis
        using Cons.prems(2) by auto
    qed
  qed
qed

lemma take_blocks_persist:
  assumes "take_blocks E fsOffset n g d bmap blocks s = (Inr res, s')"
  shows "persist_group E fsOffset g (bg_BlockBitmapBlock d) (foldl setBit bmap blocks)
      (block_bgd (fs_sb s) g (sub32 (bg_FreeBlocksCount d) n) d (foldl setBit bmap blocks))
      (s\<lparr>fs_sb := (fs_sb s)\<lparr>FreeBlocksCount := sub64 (FreeBlocksCount (fs_sb s)) n\<rparr>\<rparr>) = (Inr (), s')"
    "res = map (\<lambda>b. w64 (w64 (g * BlocksPerGroup (fs_sb s) + FirstDataBlock (fs_sb s)) + b)) blocks"
  using assms by (auto simp: take_blocks_def Let_def split: prod.splits sum.splits)

lemma findFreeRun_some:
  assumes "findFreeRun bm m n = Inr (Some bits)" "m \<le> 8 * length bm"
  shows "length bits = n" "sorted_wrt (<) bits" "\<forall>b\<in>set bits. b < m \<and> \<not> bit_used bm b"
proof -
  have "length bits = n \<and> sorted_wrt (<) bits \<and> (\<forall>b\<in>set bits. b < m \<and> \<not> bit_used bm b)"
  proof (cases "n = 0")
    case True
    then show ?thesis
      using assms(1) by (simp add: findFreeRun_def)
  next
    case False
    then have "0 < n"
      by simp
    from findFreeRun_cases [OF assms(2) this] assms(1) show ?thesis
    proof (elim disjE exE conjE)
      fix s
      assume "findFreeRun bm m n = Inr (Some [s..<s + n])" "s + n \<le> m" "is_run bm s n"
      then show ?thesis
        using assms(1) by (auto simp: is_run_iff)
    next
      assume "findFreeRun bm m n = Inr (if n \<le> card (bm.free_bits bm m)
                 then Some (take n (filter (\<lambda>j. \<not> bit_used bm j) [0..<m])) else None)"
      then have n: "n \<le> card (bm.free_bits bm m)" and b: "bits = take n (filter (\<lambda>j. \<not> bit_used bm j) [0..<m])"
        using assms(1) by (simp_all split: if_splits)
      have "length bits = n"
        using n by (simp add: b length_filter_free)
      with take_filter_free [OF b] show ?thesis
        by blast
    qed
  qed
  then show "length bits = n" "sorted_wrt (<) bits" "\<forall>b\<in>set bits. b < m \<and> \<not> bit_used bm b"
    by blast+
qed

lemma used_foldl_setBit:
  assumes "\<forall>b\<in>set blocks. b < 8 * length bm" "i < 8 * length bm"
  shows "bit_used (foldl setBit bm blocks) i \<longleftrightarrow> bit_used bm i \<or> i \<in> set blocks"
  using assms bm.used_mark_all [of blocks bm i] by auto

lemma length_foldl_setBit [simp]: "length (foldl setBit bm blocks) = length bm"
  by (induction blocks arbitrary: bm) simp_all

lemma take_blocks_desc:
  assumes tk: "take_blocks E fsOffset n g d bmap blocks s = (Inr res, s')"
    and d: "readBGD (fs_dev s) fsOffset (fs_sb s) g = Inr d" "n \<le> bg_FreeBlocksCount d" "BlocksPerGroup (fs_sb s) < desc_max (fs_sb s)"
    and lay: "meta_apart fsOffset (fs_sb s) g (bg_BlockBitmapBlock d)" "32 \<le> DescSize (fs_sb s)" "length (sb_raw (fs_sb s)) = 1024"
    and bm: "length bmap = BlockSize (fs_sb s)"
  shows "\<exists>d'. readBGD (fs_dev s') fsOffset (fs_sb s) g = Inr d' \<and> bg_FreeBlocksCount d' =
    (if ae_route E = Queued then count_clear (foldl setBit bmap blocks) (BlocksPerGroup (fs_sb s)) else bg_FreeBlocksCount d - n)"
proof -
  define sb where "sb = fs_sb s"
  define bmap' where "bmap' = foldl setBit bmap blocks"
  define sb1 where "sb1 = encodeRaw (sb\<lparr>FreeBlocksCount := sub64 (FreeBlocksCount sb) n\<rparr>)"
  define d1 where "d1 = setBitmapCsum sb g (d\<lparr>bg_FreeBlocksCount := sub32 (bg_FreeBlocksCount d) n\<rparr>) True bmap'"
  have dd: "d = decodeBGD (bg_raw d) sb" "length (bg_raw d) = DescSize sb"
    using readBGD_Inr [OF d(1)] by (simp_all add: sb_def)
  have "bg_FreeBlocksCount d < desc_max sb"
    using free_blocks_max [of "bg_raw d" sb] dd(1) by simp
  moreover have "desc_max sb \<le> 4294967296"
    by (simp add: desc_max_def)
  ultimately have c: "sub32 (bg_FreeBlocksCount d) n = bg_FreeBlocksCount d - n" "bg_FreeBlocksCount d - n < desc_max sb"
    using d(2) by (simp_all add: sub32_ge)
  have l1: "length (bg_raw d1) = DescSize sb"
    using dd(2) lay(2) by (simp add: d1_def sb_def)
  have cnt: "bg_FreeBlocksCount (decodeBGD (bg_raw (bgd_encode d1 sb)) sb) = bg_FreeBlocksCount d - n"
    using decode_encode_blocks [OF l1] lay(2) c by (simp add: d1_def sb_def)
  have "same_blocks sb (bg_raw d) (bg_raw d1)"
    using same_blocks_csum [of sb "bg_raw d" "d\<lparr>bg_FreeBlocksCount := sub32 (bg_FreeBlocksCount d) n\<rparr>"] dd(2) lay(2)
    by (simp add: same_blocks_def d1_def sb_def)
  from same_blocks_encode [OF this dd(2)] have blk: "bg_BlockBitmapBlock d = bg_BlockBitmapBlock (decodeBGD (bg_raw (bgd_encode d1 sb)) sb)"
    using dd(1) lay(2) by (simp add: same_blocks_def sb_def)
  from take_blocks_persist(1) [OF tk] obtain f' where
    e: "enqueueCommitWritesUnderLock (ae_route E) (ae_debug E) fsOffset sb1 g
      (meta_ops fsOffset sb1 g (bg_BlockBitmapBlock d) bmap' (bg_raw (bgd_encode d1 sb)) (sb_raw sb1)) (fs_dev s) = (Inr (), f')"
    and s': "fs_dev s' = f'"
    by (auto simp: persist_group_def Let_def on_dev_Inr sb1_def sb_def d1_def bmap'_def)
  have g1: "BlockSize sb1 = BlockSize sb" "DescSize sb1 = DescSize sb" "length (sb_raw sb1) = 1024" "decodeBGD x sb1 = decodeBGD x sb"
    "meta_apart fsOffset sb1 g (bg_BlockBitmapBlock d)" "BlocksPerGroup sb1 = BlocksPerGroup sb" "desc_max sb1 = desc_max sb"
    "readBGD f' fsOffset sb1 g = readBGD f' fsOffset sb g" for x
    using lay by (simp_all add: sb1_def sb_geom sb_def)
  have "length bmap' = BlockSize sb1" "length (bg_raw (bgd_encode d1 sb)) = DescSize sb1"
    using bm l1 lay(2) by (simp_all add: bmap'_def g1 sb_def)
  from batch_block_count [OF e this g1(3,5)] show ?thesis
    using blk cnt d(3) by (simp add: g1 s' bmap'_def sb_def cong: if_cong)
qed

lemma run_bits:
  assumes bmap: "bmap = merge_reserved rb bm" and run: "findFreeRun bmap m n = Inr (Some blocks)" and m: "m \<le> 8 * length bm"
  shows "\<forall>b\<in>set blocks. b < m \<and> \<not> bit_used bm b \<and> \<not> reserved_bit rb b"
    and "\<forall>i < 8 * length bm. bit_used (foldl setBit bmap blocks) i \<longleftrightarrow> bit_used bm i \<or> i \<in> set blocks \<or> reserved_bit rb i"
proof -
  have fr: "\<forall>b\<in>set blocks. b < m \<and> \<not> bit_used bmap b"
    using findFreeRun_some(3) [OF run] m bmap by simp
  have mg: "bit_used bmap i \<longleftrightarrow> bit_used bm i \<or> reserved_bit rb i" if "i < 8 * length bm" for i
    using bit_used_merge [of bm i rb] that bmap by (simp add: in_bitmap_def)
  show "\<forall>b\<in>set blocks. b < m \<and> \<not> bit_used bm b \<and> \<not> reserved_bit rb b"
    using fr mg m by fastforce
  show "\<forall>i < 8 * length bm. bit_used (foldl setBit bmap blocks) i \<longleftrightarrow> bit_used bm i \<or> i \<in> set blocks \<or> reserved_bit rb i"
  proof (intro allI impI)
    fix i
    assume i: "i < 8 * length bm"
    then show "bit_used (foldl setBit bmap blocks) i \<longleftrightarrow> bit_used bm i \<or> i \<in> set blocks \<or> reserved_bit rb i"
      using used_foldl_setBit [of blocks bmap i] mg [OF i] fr m bmap by fastforce
  qed
qed

lemma group_block:
  assumes "g < numBlockGroups sb" "b < BlocksPerGroup sb"
    "numBlockGroups sb * BlocksPerGroup sb + FirstDataBlock sb < 18446744073709551616"
  shows "w64 (w64 (g * BlocksPerGroup sb + FirstDataBlock sb) + b) = g * BlocksPerGroup sb + FirstDataBlock sb + b"
proof -
  have "g * BlocksPerGroup sb + b < Suc g * BlocksPerGroup sb"
    using assms(2) by simp
  also have "\<dots> \<le> numBlockGroups sb * BlocksPerGroup sb"
    using assms(1) by (intro mult_le_mono1) simp
  finally have "g * BlocksPerGroup sb + FirstDataBlock sb + b < 18446744073709551616"
    using assms(3) by simp
  then show ?thesis
    by simp
qed

text \<open>C23: when \<open>allocBlocks\<close> succeeds, whether in its own scan or in the fallback under the global
  lock, it returns \<open>n\<close> distinct blocks of one group whose bits were clear on the device and reserved
  by no other operation.  Afterwards the bitmap on the device has exactly those bits and the
  reserved ones added.  The superblock in memory counts \<open>n\<close> free blocks fewer, and the two halves of
  the count in the superblock on the device hold that number.  The descriptor on the device counts,
  when the worker has written the batch, the clear bits of the new bitmap, and otherwise \<open>n\<close> blocks
  fewer than before.  Every range outside the bitmap, the descriptor and the superblock is
  unchanged.  The number of blocks of a group has to fit the count of the descriptor.\<close>

theorem allocBlocks_correct:
  assumes a: "allocBlocks E fsOffset n s = (Inr res, s')"
    and lay: "good_layout fsOffset s"
      "numBlockGroups (fs_sb s) * BlocksPerGroup (fs_sb s) + FirstDataBlock (fs_sb s) < 18446744073709551616"
      "BlocksPerGroup (fs_sb s) < desc_max (fs_sb s)"
  shows "\<exists>g d bm bm' d' slots. g < numBlockGroups (fs_sb s)
    \<and> res = map (\<lambda>b. g * BlocksPerGroup (fs_sb s) + FirstDataBlock (fs_sb s) + b) slots
    \<and> length res = n \<and> distinct res
    \<and> readBGD (fs_dev s) fsOffset (fs_sb s) g = Inr d
    \<and> readRawBlock (fs_dev s) fsOffset (fs_sb s) (bg_BlockBitmapBlock d) = Inr bm
    \<and> (\<forall>b\<in>set slots. b < BlocksPerGroup (fs_sb s) \<and> \<not> bit_used bm b
         \<and> \<not> reserved_bit (reserved_for E (fs_dev s) fsOffset (fs_sb s) (bg_BlockBitmapBlock d)) b)
    \<and> readRawBlock (fs_dev s') fsOffset (fs_sb s) (bg_BlockBitmapBlock d) = Inr bm'
    \<and> (\<forall>i < 8 * BlockSize (fs_sb s). bit_used bm' i \<longleftrightarrow> bit_used bm i \<or> i \<in> set slots
          \<or> reserved_bit (reserved_for E (fs_dev s) fsOffset (fs_sb s) (bg_BlockBitmapBlock d)) i)
    \<and> FreeBlocksCount (fs_sb s') = sub64 (FreeBlocksCount (fs_sb s)) n
    \<and> ReadAt (fs_dev s') (i64 (fsOffset + 1024)) superblockSize = Inr (sb_raw (fs_sb s'))
    \<and> join32 (u32_at (sb_raw (fs_sb s')) 0x158) (u32_at (sb_raw (fs_sb s')) 12) = FreeBlocksCount (fs_sb s')
    \<and> readBGD (fs_dev s') fsOffset (fs_sb s) g = Inr d' \<and> n \<le> bg_FreeBlocksCount d
    \<and> bg_FreeBlocksCount d' = (if ae_route E = Queued then count_clear bm' (BlocksPerGroup (fs_sb s)) else bg_FreeBlocksCount d - n)
    \<and> (\<forall>off k b. ReadAt (fs_dev s) off k = Inr b
          \<and> clear_of fsOffset (fs_sb s) g (bg_BlockBitmapBlock d) off k \<longrightarrow> ReadAt (fs_dev s') off k = Inr b)"
proof -
  define sb where "sb = fs_sb s"
  have "alloc_block_groups E fsOffset n (group_order E (numBlockGroups sb)) s = (Inr res, s')"
    using a by (simp add: allocBlocks_def sb_def Let_def split: if_splits)
  moreover have "\<forall>g\<in>set (group_order E (numBlockGroups sb)). g < numBlockGroups (fs_sb s)"
    unfolding sb_def using group_order_set by blast
  ultimately have "\<exists>g < numBlockGroups (fs_sb s). \<exists>d bmap blocks. takes_blocks E fsOffset n s res s' g d bmap blocks"
    by (rule alloc_block_groups_take)
  then obtain g d bmap blocks where gn: "g < numBlockGroups sb" and d: "readBGD (fs_dev s) fsOffset sb g = Inr d"
    and b: "readBitmap E (fs_dev s) fsOffset sb (bg_BlockBitmapBlock d) = Inr bmap"
    and run: "findFreeRun bmap (BlocksPerGroup sb) n = Inr (Some blocks)" and nd: "n \<le> bg_FreeBlocksCount d"
    and tk: "take_blocks E fsOffset n g d bmap blocks s = (Inr res, s')"
    unfolding takes_blocks_def sb_def by blast
  define rb where "rb = reserved_for E (fs_dev s) fsOffset sb (bg_BlockBitmapBlock d)"
  from b obtain bm where bm: "readRawBlock (fs_dev s) fsOffset sb (bg_BlockBitmapBlock d) = Inr bm"
    and mg: "bmap = merge_reserved rb bm" and len: "length bm = BlockSize sb" "length bmap = BlockSize sb"
    unfolding rb_def by (rule readBitmap_Inr)
  have bpg: "BlocksPerGroup sb \<le> 8 * length bmap"
    using lay(1) len by (simp add: good_layout_def sb_def)
  note fr = findFreeRun_some [OF run bpg]
  note rb = run_bits [OF mg run bpg [unfolded len(2), folded len(1)], unfolded len(1)]
  note l = good_layout_group [OF lay(1) gn [unfolded sb_def] d [unfolded sb_def], folded sb_def]
  note tp = take_blocks_persist [OF tk]
  note e = persist_with [OF tp(1) _ lay(1) gn [unfolded sb_def] d [unfolded sb_def], OF disjI2 [OF refl] disjI2 [OF refl], folded sb_def]
  have len': "length (foldl setBit bmap blocks) = BlockSize sb"
    "length (bg_raw (block_bgd sb g (sub32 (bg_FreeBlocksCount d) n) d (foldl setBit bmap blocks))) = DescSize sb"
    using len l(3,4) by simp_all
  note e = e [OF len']
  have res: "res = map (\<lambda>b. g * BlocksPerGroup sb + FirstDataBlock sb + b) blocks"
    using tp(2) fr(3) group_block [OF gn _ lay(2) [folded sb_def]] by (simp add: sb_def)
  have dist: "distinct res" "length res = n"
    using fr(1,2) by (auto simp: res distinct_map strict_sorted_iff)
  have cnt: "FreeBlocksCount (fs_sb s') = sub64 (FreeBlocksCount sb) n"
    by (simp add: e(1))
  have raw: "join32 (u32_at (sb_raw (fs_sb s')) 0x158) (u32_at (sb_raw (fs_sb s')) 12) = FreeBlocksCount (fs_sb s')"
    using encodeRaw_free [of "sb\<lparr>FreeBlocksCount := sub64 (FreeBlocksCount sb) n\<rparr>"] l(5) by (simp add: e(1) sub64_def w64_def)
  obtain d' where d': "readBGD (fs_dev s') fsOffset sb g = Inr d'"
    "bg_FreeBlocksCount d' = (if ae_route E = Queued then count_clear (foldl setBit bmap blocks) (BlocksPerGroup sb) else bg_FreeBlocksCount d - n)"
    using take_blocks_desc [OF tk d [unfolded sb_def] nd lay(3) l(2,4,5) [unfolded sb_def]] len(2) by (auto simp: sb_def)
  show ?thesis
    unfolding sb_def [symmetric]
    by (intro exI [of _ g] exI [of _ d] exI [of _ bm] exI [of _ "foldl setBit bmap blocks"] exI [of _ d'] exI [of _ blocks] conjI)
      (use gn res dist d bm rb(1) [unfolded rb_def] e(2-4) rb(2) [unfolded rb_def] cnt raw d' nd in \<open>assumption | blast\<close>)+
qed

lemma mini_take:
  obtains s' where "take_blocks (quiet InWorker) 0 1 0 mini_bgd mini_bm [32] mini_fs = (Inr [32], s')"
    "\<exists>d. readBGD (fs_dev s') 0 (fs_sb s') 0 = Inr d \<and> bg_InodeTableBlock d = 5"
    "fs_sb s' = encodeRaw (mini_sb\<lparr>FreeBlocksCount := 31\<rparr>)"
proof -
  define bmap where "bmap = foldl setBit mini_bm [32]"
  define d2 where "d2 = block_bgd mini_sb 0 31 mini_bgd bmap"
  define s1 where "s1 = mini_fs\<lparr>fs_sb := mini_sb\<lparr>FreeBlocksCount := 31\<rparr>\<rparr>"
  obtain s' where p: "persist_group (quiet InWorker) 0 0 3 bmap d2 s1 = (Inr (), s')"
    using persist_total [of s1 0 3 0 "quiet InWorker" bmap d2] by (auto simp: s1_def sb_geom mini_block_off)
  have raw: "bg_raw mini_bgd = map mini_byte [128..<128 + 32]"
    by (simp add: mini_bgd_def)
  have len: "length bmap = 64" "length (bg_raw d2) = 32"
    by (simp_all add: bmap_def mini_bm_def d2_def raw)
  from p have e: "enqueueCommitWritesUnderLock InWorker False 0 (encodeRaw (fs_sb s1)) 0
      (meta_ops 0 (encodeRaw (fs_sb s1)) 0 3 bmap (bg_raw d2) (sb_raw (encodeRaw (fs_sb s1)))) (fs_dev s1) = (Inr (), fs_dev s')"
    and sb': "fs_sb s' = encodeRaw (fs_sb s1)"
    by (auto simp: persist_group_def Let_def on_dev_Inr)
  have "meta_apart 0 (encodeRaw (fs_sb s1)) 0 3"
    by (simp add: sb_geom s1_def mini_apart)
  from batch_effect(3) [OF e _ _ _ this] len
  have rd: "readBGD (fs_dev s') 0 (encodeRaw (fs_sb s1)) 0 = Inr (decodeBGD (bg_raw d2) (encodeRaw (fs_sb s1)))"
    by (simp add: s1_def)
  have d2: "d2 = bgd_encode ((decodeBGD (map mini_byte [128..<128 + 32]) mini_sb)\<lparr>bg_FreeBlocksCount := 31,
      bg_FreeInodesCount := 2, bg_UsedDirsCount := 0\<rparr>) mini_sb"
    unfolding d2_def decode_mini by (simp add: setBitmapCsum_def has_flag_def mini_bgd_def)
  have "decodeBGD (bg_raw d2) mini_sb = d2"
    unfolding d2 by (rule decode_encode_aux [OF _ _ refl]) (simp_all add: desc_max_def)
  then have "readBGD (fs_dev s') 0 (fs_sb s') 0 = Inr d2"
    using rd by (simp add: sb' sb_geom s1_def)
  moreover have "bg_InodeTableBlock d2 = 5"
    by (simp add: d2_def bgd_encode_def Let_def setBitmapCsum_def has_flag_def)
  moreover have "take_blocks (quiet InWorker) 0 1 0 mini_bgd mini_bm [32] mini_fs = (Inr [32], s')"
    using p by (simp add: take_blocks_def Let_def bmap_def d2_def s1_def sub32_def sub64_def w64_def w32_def)
  ultimately show ?thesis
    using sb' by (intro that [of s']) (simp_all add: s1_def)
qed

lemma mini_alloc_blocks: "\<exists>s'. allocBlocks (quiet InWorker) 0 1 mini_fs = (Inr [32], s')"
proof -
  obtain s' d where tk: "take_blocks (quiet InWorker) 0 1 0 mini_bgd mini_bm [32] mini_fs = (Inr [32], s')"
    and d: "readBGD (fs_dev s') 0 (fs_sb s') 0 = Inr d" "bg_InodeTableBlock d = 5"
    and sb': "fs_sb s' = encodeRaw (mini_sb\<lparr>FreeBlocksCount := 31\<rparr>)"
    by (rule mini_take) blast
  have "table_check (fs_dev s') 0 (fs_sb s') [32] = Inr ()"
    using d by (simp add: Let_def sb' sb_geom sub64_def w64_def)
  moreover have "findFreeRun mini_bm 64 1 = Inr (Some [32])"
    by code_simp
  moreover have "group_order (quiet InWorker) 1 = [0]"
    by (simp add: group_order_def)
  ultimately show ?thesis
    using tk by (simp add: allocBlocks_def readBGD_mini mini_bitmap)
qed

theorem allocBlocks_correct_witness:
  "\<exists>s' raw. allocBlocks (quiet InWorker) 0 1 mini_fs = (Inr [32], s') \<and> FreeBlocksCount (fs_sb s') = 31
     \<and> ReadAt (fs_dev s') 1024 1024 = Inr raw \<and> join32 (u32_at raw 0x158) (u32_at raw 12) = 31
     \<and> \<not> bit_used mini_bm 32
     \<and> (\<exists>bm'. readRawBlock (fs_dev s') 0 mini_sb 3 = Inr bm' \<and> bit_used bm' 32 \<and> \<not> bit_used bm' 33)"
proof -
  obtain s' where a: "allocBlocks (quiet InWorker) 0 1 mini_fs = (Inr [32], s')"
    using mini_alloc_blocks by blast
  have n: "numBlockGroups (fs_sb mini_fs) * BlocksPerGroup (fs_sb mini_fs) + FirstDataBlock (fs_sb mini_fs) < 18446744073709551616"
    by simp
  have m: "BlocksPerGroup (fs_sb mini_fs) < desc_max (fs_sb mini_fs)"
    by (simp add: desc_max_def)
  from allocBlocks_correct [OF a mini_good n m] obtain g d bm bm' slots where
    g: "g < 1" "[32] = map (\<lambda>b. g * 64 + 0 + b) slots" "readBGD mini_dev 0 mini_sb g = Inr d"
    "readRawBlock mini_dev 0 mini_sb (bg_BlockBitmapBlock d) = Inr bm" "\<forall>b\<in>set slots. \<not> bit_used bm b"
    and r: "readRawBlock (fs_dev s') 0 mini_sb (bg_BlockBitmapBlock d) = Inr bm'"
      "\<forall>i < 512. bit_used bm' i \<longleftrightarrow> bit_used bm i \<or> i \<in> set slots \<or> reserved_bit None i"
    and c: "FreeBlocksCount (fs_sb s') = sub64 32 1"
    and raw: "ReadAt (fs_dev s') (i64 (0 + 1024)) superblockSize = Inr (sb_raw (fs_sb s'))"
      "join32 (u32_at (sb_raw (fs_sb s')) 0x158) (u32_at (sb_raw (fs_sb s')) 12) = FreeBlocksCount (fs_sb s')"
    by (auto simp: mini_reserved)
  have sl: "slots = [32]" and d: "d = mini_bgd" and bm: "bm = mini_bm"
    using g by (auto simp: readBGD_mini mini_raw)
  have "\<not> bit_used mini_bm 33"
    using mini_bits(1) by simp
  then have "bit_used bm' 32 \<and> \<not> bit_used bm' 33"
    using r(2) by (simp add: sl bm reserved_bit_def)
  then show ?thesis
    using a c r(1) g(5) raw by (simp add: sl d bm sub64_def w64_def)
qed

lemma numBlockGroups_lt: "numBlockGroups sb < 4294967296"
  by (simp add: numBlockGroups_def w32_def)

text \<open>C27: when \<open>freeBlock\<close> succeeds on a block of the file system, the bitmap on the device has the
  bit of the block clear and every other bit set exactly when it was set or is reserved by
  another operation, the superblock in memory and on the device counts one free block more, and
  every range outside the bitmap, the descriptor and the superblock is unchanged.\<close>

theorem freeBlock_correct:
  assumes a: "freeBlock E fsOffset physBlock s = (Inr (), s')"
    and lay: "good_layout fsOffset s" "FirstDataBlock (fs_sb s) \<le> physBlock"
      "g = (physBlock - FirstDataBlock (fs_sb s)) div BlocksPerGroup (fs_sb s)" "g < numBlockGroups (fs_sb s)"
      "slot = (physBlock - FirstDataBlock (fs_sb s)) mod BlocksPerGroup (fs_sb s)"
    and d: "readBGD (fs_dev s) fsOffset (fs_sb s) g = Inr d"
    and bm: "readRawBlock (fs_dev s) fsOffset (fs_sb s) (bg_BlockBitmapBlock d) = Inr bm"
  shows "(\<exists>bm'. readRawBlock (fs_dev s') fsOffset (fs_sb s) (bg_BlockBitmapBlock d) = Inr bm'
      \<and> (\<forall>i < 8 * BlockSize (fs_sb s). bit_used bm' i \<longleftrightarrow> i \<noteq> slot \<and> (bit_used bm i
          \<or> reserved_bit (reserved_for E (fs_dev s) fsOffset (fs_sb s) (bg_BlockBitmapBlock d)) i)))
    \<and> FreeBlocksCount (fs_sb s') = w64 (FreeBlocksCount (fs_sb s) + 1)
    \<and> ReadAt (fs_dev s') (i64 (fsOffset + 1024)) superblockSize = Inr (sb_raw (fs_sb s'))
    \<and> (\<forall>off k b. ReadAt (fs_dev s) off k = Inr b
          \<and> clear_of fsOffset (fs_sb s) g (bg_BlockBitmapBlock d) off k \<longrightarrow> ReadAt (fs_dev s') off k = Inr b)"
proof -
  define sb where "sb = fs_sb s"
  define rb where "rb = reserved_for E (fs_dev s) fsOffset sb (bg_BlockBitmapBlock d)"
  have g32: "w32 g = g"
    using lay(4) numBlockGroups_lt [of "fs_sb s"] by simp
  have bpg: "BlocksPerGroup sb \<noteq> 0"
    using a lay(2) by (auto simp: freeBlock_def sb_def Let_def split: if_splits)
  have len: "length bm = BlockSize sb"
    using readRawBlock_length [OF bm] by (simp add: sb_def)
  have rbm: "readBitmap E (fs_dev s) fsOffset sb (bg_BlockBitmapBlock d) = Inr (merge_reserved rb bm)"
    using bm by (simp add: readBitmap_def res_bind_def rb_def sb_def)
  define bmap' where "bmap' = clearBit (merge_reserved rb bm) slot"
  define d2 where "d2 = setBGDChecksum sb g (block_bgd sb g (w32 (bg_FreeBlocksCount d + 1)) d bmap')"
  have slot: "slot < 8 * BlockSize sb"
  proof -
    have "slot < BlocksPerGroup sb"
      using bpg lay(5) by (simp add: sb_def)
    then show ?thesis
      using lay(1) by (simp add: good_layout_def sb_def)
  qed
  then have ib: "in_bitmap (merge_reserved rb bm) slot"
    using len by (simp add: in_bitmap_def)
  have p: "persist_group E fsOffset g (bg_BlockBitmapBlock d) bmap' d2
      (s\<lparr>fs_sb := sb\<lparr>FreeBlocksCount := w64 (FreeBlocksCount sb + 1)\<rparr>\<rparr>) = (Inr (), s')"
    using a lay(2) bpg d rbm ib unfolding freeBlock_def Let_def sb_def [symmetric]
    by (simp add: lay(3,5) [folded sb_def, symmetric] g32 bmap'_def d2_def not_less [symmetric] sb_def [symmetric])
  note l = good_layout_group [OF lay(1,4) d, folded sb_def]
  note e = persist_with [OF p [unfolded sb_def] _ lay(1,4) d, OF disjI2 [OF refl] disjI2 [OF refl], folded sb_def]
  have len': "length bmap' = BlockSize sb" "length (bg_raw d2) = DescSize sb"
    using len l(3,4) by (simp_all add: bmap'_def d2_def setBGDChecksum_def)
  note e = e [OF len']
  have bits: "\<forall>i < 8 * BlockSize sb. bit_used bmap' i \<longleftrightarrow> i \<noteq> slot \<and> (bit_used bm i \<or> reserved_bit rb i)"
    using bit_used_clearBit [OF ib] bit_used_merge [of bm _ rb] len by (auto simp: bmap'_def in_bitmap_def)
  have "FreeBlocksCount (fs_sb s') = w64 (FreeBlocksCount sb + 1)"
    by (simp add: e(1))
  then show ?thesis
    unfolding sb_def [symmetric] using e(2-4) bits [unfolded rb_def] by blast
qed

theorem freeBlock_correct_witness:
  "\<exists>s'. freeBlock (quiet Queued) 0 20 mini_fs = (Inr (), s') \<and> FreeBlocksCount (fs_sb s') = 33
     \<and> (\<exists>bm'. readRawBlock (fs_dev s') 0 mini_sb 3 = Inr bm' \<and> \<not> bit_used bm' 20 \<and> bit_used bm' 21)"
proof -
  define d2 where "d2 = setBGDChecksum mini_sb 0 (block_bgd mini_sb 0 33 mini_bgd (clearBit mini_bm 20))"
  define s1 where "s1 = mini_fs\<lparr>fs_sb := mini_sb\<lparr>FreeBlocksCount := 33\<rparr>\<rparr>"
  obtain s' where p: "persist_group (quiet Queued) 0 0 3 (clearBit mini_bm 20) d2 s1 = (Inr (), s')"
    using persist_total [of s1 0 3 0 "quiet Queued" "clearBit mini_bm 20" d2] by (auto simp: s1_def sb_geom mini_block_off)
  then have a: "freeBlock (quiet Queued) 0 20 mini_fs = (Inr (), s')"
    by (simp add: freeBlock_def readBGD_mini mini_bitmap in_bitmap_def mini_bm_def d2_def s1_def)
  from freeBlock_correct [OF a mini_good, of 0 20 mini_bgd mini_bm]
  obtain bm' where r: "readRawBlock (fs_dev s') 0 mini_sb 3 = Inr bm'"
    "\<forall>i < 512. bit_used bm' i \<longleftrightarrow> i \<noteq> 20 \<and> (bit_used mini_bm i \<or> reserved_bit None i)"
    and c: "FreeBlocksCount (fs_sb s') = w64 33"
    by (auto simp: readBGD_mini mini_raw mini_reserved)
  have "bit_used mini_bm 21"
    using mini_bits(1) by simp
  then have "\<not> bit_used bm' 20 \<and> bit_used bm' 21"
    using r(2) by simp
  then show ?thesis
    using a c r(1) by simp
qed

end
