(* ===== verification/AllocInv.thy ===== *)
theory AllocInv
  imports AllocBlocks
begin

text \<open>
  The invariant of the allocators on the dispatcher's queue: in every group the free counts of
  the descriptor are the numbers of clear bits of the two bitmaps.  Every operation keeps it,
  whatever its result, and so does every sequence of operations.
\<close>

section \<open>The invariant\<close>

definition bitmaps :: "device \<Rightarrow> int \<Rightarrow> superblock \<Rightarrow> u32 \<Rightarrow> u64 list" where
  "bitmaps f fsOffset sb g =
    (case readBGD f fsOffset sb g of
       Inl _ \<Rightarrow> []
     | Inr d \<Rightarrow> [bg_BlockBitmapBlock d, bg_InodeBitmapBlock d])"

text \<open>No metadata range of a group is touched by an update of another bitmap.\<close>

definition layout_ok :: "int \<Rightarrow> superblock \<Rightarrow> (u32 \<Rightarrow> u64 list) \<Rightarrow> bool" where
  "layout_ok fsOffset sb L \<longleftrightarrow>
    0 < BlockSize sb \<and> InodesPerGroup sb \<le> 8 * BlockSize sb \<and> BlocksPerGroup sb \<le> 8 * BlockSize sb
    \<and> InodesPerGroup sb < desc_max sb \<and> BlocksPerGroup sb < desc_max sb \<and> 0 \<le> i64 (fsOffset + 1024)
    \<and> (\<forall>g\<in>{..<numBlockGroups sb}. distinct (L g) \<and>
        (\<forall>b\<in>set (L g). meta_apart fsOffset sb g b
          \<and> (\<forall>h\<in>{..<numBlockGroups sb}.
               (h \<noteq> g \<longrightarrow> clear_of fsOffset sb g b (i64 (fsOffset + descOff sb h)) (DescSize sb))
               \<and> (\<forall>b'\<in>set (L h). h \<noteq> g \<or> b' \<noteq> b \<longrightarrow>
                    clear_of fsOffset sb g b (block_off fsOffset sb b') (BlockSize sb)))))"

definition counts_ok :: "device \<Rightarrow> int \<Rightarrow> superblock \<Rightarrow> u32 \<Rightarrow> bool" where
  "counts_ok f fsOffset sb g \<longleftrightarrow>
    (case readBGD f fsOffset sb g of
       Inl _ \<Rightarrow> False
     | Inr d \<Rightarrow>
       (case readRawBlock f fsOffset sb (bg_BlockBitmapBlock d) of
          Inl _ \<Rightarrow> False
        | Inr bm \<Rightarrow>
          (case readRawBlock f fsOffset sb (bg_InodeBitmapBlock d) of
             Inl _ \<Rightarrow> False
           | Inr im \<Rightarrow> bg_FreeBlocksCount d = count_clear bm (BlocksPerGroup sb)
                     \<and> bg_FreeInodesCount d = count_clear im (InodesPerGroup sb))))"

definition consistent :: "int \<Rightarrow> fsys \<Rightarrow> bool" where
  "consistent fsOffset s \<longleftrightarrow>
    length (sb_raw (fs_sb s)) = 1024
    \<and> layout_ok fsOffset (fs_sb s) (bitmaps (fs_dev s) fsOffset (fs_sb s))
    \<and> (\<forall>g\<in>{..<numBlockGroups (fs_sb s)}. counts_ok (fs_dev s) fsOffset (fs_sb s) g)"

text \<open>One call of an allocator operation, whatever it returns.\<close>

inductive alloc_step :: "int \<Rightarrow> fsys \<Rightarrow> fsys \<Rightarrow> bool" for fsOffset where
  step_inode: "ae_route E = Queued \<Longrightarrow> allocInode E fsOffset forDir s = (r, s') \<Longrightarrow> alloc_step fsOffset s s'"
| step_blocks: "ae_route E = Queued \<Longrightarrow> allocBlocks E fsOffset n s = (r, s') \<Longrightarrow> alloc_step fsOffset s s'"
| step_free: "ae_route E = Queued \<Longrightarrow> freeBlock E fsOffset physBlock s = (r, s') \<Longrightarrow>
    (physBlock - FirstDataBlock (fs_sb s)) div BlocksPerGroup (fs_sb s) < numBlockGroups (fs_sb s) \<Longrightarrow> alloc_step fsOffset s s'"
| step_slot: "ae_route E = Queued \<Longrightarrow> freeInodeSlot E fsOffset inodeNum s = (r, s') \<Longrightarrow>
    sub32 inodeNum 1 div InodesPerGroup (fs_sb s) < numBlockGroups (fs_sb s) \<Longrightarrow> alloc_step fsOffset s s'"

section \<open>Counters do not matter to the invariant\<close>

lemma inv_geom_inodes:
  "layout_ok fsOffset (sb\<lparr>FreeInodesCount := c\<rparr>) L = layout_ok fsOffset sb L"
  "counts_ok f fsOffset (sb\<lparr>FreeInodesCount := c\<rparr>) g = counts_ok f fsOffset sb g"
  "bitmaps f fsOffset (sb\<lparr>FreeInodesCount := c\<rparr>) = bitmaps f fsOffset sb"
  by (simp_all add: layout_ok_def counts_ok_def bitmaps_def sb_geom fun_eq_iff split: sum.split)

lemma inv_geom_blocks:
  "layout_ok fsOffset (sb\<lparr>FreeBlocksCount := c\<rparr>) L = layout_ok fsOffset sb L"
  "counts_ok f fsOffset (sb\<lparr>FreeBlocksCount := c\<rparr>) g = counts_ok f fsOffset sb g"
  "bitmaps f fsOffset (sb\<lparr>FreeBlocksCount := c\<rparr>) = bitmaps f fsOffset sb"
  by (simp_all add: layout_ok_def counts_ok_def bitmaps_def sb_geom fun_eq_iff split: sum.split)

lemma inv_geom_encode:
  "layout_ok fsOffset (encodeRaw sb) L = layout_ok fsOffset sb L"
  "counts_ok f fsOffset (encodeRaw sb) g = counts_ok f fsOffset sb g"
  "bitmaps f fsOffset (encodeRaw sb) = bitmaps f fsOffset sb"
  by (simp_all add: layout_ok_def counts_ok_def bitmaps_def sb_geom fun_eq_iff split: sum.split)

lemma consistent_counter:
  "consistent fsOffset (s\<lparr>fs_sb := (fs_sb s)\<lparr>FreeInodesCount := c\<rparr>\<rparr>) = consistent fsOffset s"
  "consistent fsOffset (s\<lparr>fs_sb := (fs_sb s)\<lparr>FreeBlocksCount := c\<rparr>\<rparr>) = consistent fsOffset s"
  by (simp_all add: consistent_def inv_geom_inodes inv_geom_blocks sb_geom)

lemma consistent_encode:
  "consistent fsOffset s \<Longrightarrow> consistent fsOffset (s\<lparr>fs_sb := encodeRaw (fs_sb s)\<rparr>)"
  by (simp add: consistent_def inv_geom_encode sb_geom)

lemma counts_okE:
  assumes "counts_ok f fsOffset sb g"
  obtains d bm im where "readBGD f fsOffset sb g = Inr d" "readRawBlock f fsOffset sb (bg_BlockBitmapBlock d) = Inr bm"
    "readRawBlock f fsOffset sb (bg_InodeBitmapBlock d) = Inr im"
    "bg_FreeBlocksCount d = count_clear bm (BlocksPerGroup sb)" "bg_FreeInodesCount d = count_clear im (InodesPerGroup sb)"
  using assms by (auto simp: counts_ok_def split: sum.splits)

lemma counts_okI:
  assumes "readBGD f fsOffset sb g = Inr d" "readRawBlock f fsOffset sb (bg_BlockBitmapBlock d) = Inr bm"
    "readRawBlock f fsOffset sb (bg_InodeBitmapBlock d) = Inr im"
    "bg_FreeBlocksCount d = count_clear bm (BlocksPerGroup sb)" "bg_FreeInodesCount d = count_clear im (InodesPerGroup sb)"
  shows "counts_ok f fsOffset sb g"
  using assms by (simp add: counts_ok_def)

section \<open>An update keeps the invariant\<close>

text \<open>Groups the update does not belong to.\<close>

lemma other_group_kept:
  assumes c: "counts_ok f fsOffset sb h"
    and fr: "\<And>off n b. ReadAt f off n = Inr b \<Longrightarrow> clear_of fsOffset sb g blk off n \<Longrightarrow> ReadAt f' off n = Inr b"
    and lay: "layout_ok fsOffset sb (bitmaps f fsOffset sb)" "g < numBlockGroups sb" "h < numBlockGroups sb" "h \<noteq> g"
      "blk \<in> set (bitmaps f fsOffset sb g)"
  shows "counts_ok f' fsOffset sb h" "bitmaps f' fsOffset sb h = bitmaps f fsOffset sb h"
proof -
  from c obtain d bm im where d: "readBGD f fsOffset sb h = Inr d" "readRawBlock f fsOffset sb (bg_BlockBitmapBlock d) = Inr bm"
    "readRawBlock f fsOffset sb (bg_InodeBitmapBlock d) = Inr im"
    and n: "bg_FreeBlocksCount d = count_clear bm (BlocksPerGroup sb)" "bg_FreeInodesCount d = count_clear im (InodesPerGroup sb)"
    by (rule counts_okE)
  have L: "bitmaps f fsOffset sb h = [bg_BlockBitmapBlock d, bg_InodeBitmapBlock d]"
    using d(1) by (simp add: bitmaps_def)
  have cl: "clear_of fsOffset sb g blk (i64 (fsOffset + descOff sb h)) (DescSize sb)"
    and cb: "\<forall>b'\<in>set (bitmaps f fsOffset sb h). clear_of fsOffset sb g blk (block_off fsOffset sb b') (BlockSize sb)"
    using lay unfolding layout_ok_def by blast+
  have d': "readBGD f' fsOffset sb h = Inr d"
    using d(1) fr [OF _ cl] by (auto simp: readBGD_def res_bind_Inr_iff)
  then show "bitmaps f' fsOffset sb h = bitmaps f fsOffset sb h"
    using L by (simp add: bitmaps_def)
  have "readRawBlock f' fsOffset sb (bg_BlockBitmapBlock d) = Inr bm" "readRawBlock f' fsOffset sb (bg_InodeBitmapBlock d) = Inr im"
    using d(2,3) cb L by (auto simp: readRawBlock_def intro!: fr)
  with d' show "counts_ok f' fsOffset sb h"
    using n by (rule counts_okI)
qed

lemma own_group_counts:
  assumes e: "enqueueCommitWritesUnderLock Queued dbg fsOffset sb g (meta_ops fsOffset sb g blk bmap raw sbRaw) f = (Inr (), f')"
    and len: "length bmap = BlockSize sb" "length sbRaw = 1024"
    and c: "counts_ok f fsOffset sb g" "readBGD f fsOffset sb g = Inr d" "same_blocks sb (bg_raw d) raw"
    and lay: "layout_ok fsOffset sb (bitmaps f fsOffset sb)" "g < numBlockGroups sb" "blk \<in> set (bitmaps f fsOffset sb g)"
  shows "counts_ok f' fsOffset sb g" "bitmaps f' fsOffset sb g = bitmaps f fsOffset sb g"
proof -
  define d0 where "d0 = decodeBGD raw sb"
  from c(1,2) obtain bm im where rd: "readRawBlock f fsOffset sb (bg_BlockBitmapBlock d) = Inr bm"
    "readRawBlock f fsOffset sb (bg_InodeBitmapBlock d) = Inr im"
    by (auto elim: counts_okE)
  note dd = readBGD_Inr [OF c(2)]
  have d0: "bg_BlockBitmapBlock d0 = bg_BlockBitmapBlock d" "bg_InodeBitmapBlock d0 = bg_InodeBitmapBlock d"
    and raw: "length raw = DescSize sb"
    using c(3) dd by (auto simp: same_blocks_def d0_def)
  have L: "bitmaps f fsOffset sb g = [bg_BlockBitmapBlock d, bg_InodeBitmapBlock d]"
    using c(2) by (simp add: bitmaps_def)
  have ne: "bg_BlockBitmapBlock d \<noteq> bg_InodeBitmapBlock d"
  proof -
    have "distinct (bitmaps f fsOffset sb g)"
      using lay(1,2) unfolding layout_ok_def by blast
    then show ?thesis
      by (simp add: L)
  qed
  define isB where "isB = (blk = bg_BlockBitmapBlock d)"
  define oblk where "oblk = (if isB then bg_InodeBitmapBlock d0 else bg_BlockBitmapBlock d0)"
  define omap where "omap = (if isB then im else bm)"
  have blk: "blk = (if isB then bg_BlockBitmapBlock d0 else bg_InodeBitmapBlock d0)"
    using lay(3) L d0 by (auto simp: isB_def)
  have ob: "oblk \<in> set (bitmaps f fsOffset sb g)" "oblk \<noteq> blk"
    using blk ne d0 L by (auto simp: oblk_def)
  have ap: "meta_apart fsOffset sb g blk" "clear_of fsOffset sb g blk (block_off fsOffset sb oblk) (BlockSize sb)"
    "0 < BlockSize sb"
    using lay ob unfolding layout_ok_def by blast+
  have om: "ReadAt f (block_off fsOffset sb oblk) (BlockSize sb) = Inr omap"
    using rd d0 by (simp add: oblk_def omap_def readRawBlock_def)
  define fb where "fb = count_clear (if isB then bmap else omap) (BlocksPerGroup sb)"
  define fi where "fi = count_clear (if isB then omap else bmap) (InodesPerGroup sb)"
  have "BlocksPerGroup sb < desc_max sb" "InodesPerGroup sb < desc_max sb"
    using lay(1) by (simp_all add: layout_ok_def)
  then have rng: "fb < desc_max sb" "fi < desc_max sb"
    unfolding fb_def fi_def by (blast intro: order.strict_trans1 [OF count_clear_le])+
  from batch_counts [OF e len(1) raw len(2) ap(1) d0_def blk oblk_def om ap(2,3) fb_def fi_def rng used_dirs_max [of raw sb, folded d0_def]]
  obtain raw' where r': "readBGD f' fsOffset sb g = Inr (d0\<lparr>bg_FreeBlocksCount := fb, bg_FreeInodesCount := fi, bg_raw := raw'\<rparr>)"
    and o': "ReadAt f' (block_off fsOffset sb oblk) (BlockSize sb) = Inr omap"
    by blast
  show "bitmaps f' fsOffset sb g = bitmaps f fsOffset sb g"
    using r' L d0 by (simp add: bitmaps_def)
  have b': "ReadAt f' (block_off fsOffset sb blk) (BlockSize sb) = Inr bmap"
    using batch_effect(1) [OF e len(1) raw len(2) ap(1)] .
  show "counts_ok f' fsOffset sb g"
    by (rule counts_okI [OF r', of "if isB then bmap else omap" "if isB then omap else bmap"])
      (use b' o' blk oblk_def d0 in \<open>auto simp: readRawBlock_def fb_def fi_def split: if_splits\<close>)
qed

lemma ReadAt_nonneg: "ReadAt f off n = Inr b \<Longrightarrow> 0 \<le> off"
  by (simp add: ReadAt_Inr_iff)

lemma worker_readonly:
  "\<not> dev_writable f \<Longrightarrow> snd (worker_direct dbg l fsOffset sb g ops f) = f"
  by (cases ops) (auto simp: writeAtWithTrace_eq WriteAt_def Let_def)

lemma persist_consistent:
  assumes p: "persist_group E fsOffset g blk bmap d2 s = (r, s')" and E: "ae_route E = Queued"
    and inv: "consistent fsOffset s" "g < numBlockGroups (fs_sb s)"
    and d: "readBGD (fs_dev s) fsOffset (fs_sb s) g = Inr d" "blk \<in> {bg_BlockBitmapBlock d, bg_InodeBitmapBlock d}"
    and len: "length bmap = BlockSize (fs_sb s)" "same_blocks (fs_sb s) (bg_raw d) (bg_raw d2)"
  shows "consistent fsOffset s'"
proof -
  define sb where "sb = encodeRaw (fs_sb s)"
  define f where "f = fs_dev s"
  define m where "m = enqueueCommitWritesUnderLock Queued (ae_debug E) fsOffset sb g (meta_ops fsOffset sb g blk bmap (bg_raw d2) (sb_raw sb)) f"
  have s': "r = fst m" "s' = s\<lparr>fs_sb := sb, fs_dev := snd m\<rparr>"
    using p E by (simp_all add: persist_group_def Let_def on_dev_def m_def sb_def f_def split: prod.splits)
  have cs: "consistent fsOffset (s\<lparr>fs_sb := sb\<rparr>)"
    unfolding sb_def by (rule consistent_encode) (rule inv(1))
  then have len_sb: "length (sb_raw sb) = 1024" and lay: "layout_ok fsOffset sb (bitmaps f fsOffset sb)"
    and cnt: "\<And>h. h < numBlockGroups sb \<Longrightarrow> counts_ok f fsOffset sb h"
    by (simp_all add: consistent_def f_def)
  have g: "g < numBlockGroups sb" and d1: "readBGD f fsOffset sb g = Inr d" and bs: "length bmap = BlockSize sb"
    and sm: "same_blocks sb (bg_raw d) (bg_raw d2)"
    using inv(2) d(1) len by (simp_all add: sb_def f_def sb_geom same_blocks_def)
  have blk: "blk \<in> set (bitmaps f fsOffset sb g)"
    using d1 d(2) by (simp add: bitmaps_def)
  show ?thesis
  proof (cases "dev_writable f")
    case False
    then have "snd m = f"
      by (simp add: m_def enqueueCommitWritesUnderLock_def worker_readonly)
    then show ?thesis
      using cs s'(2) by (simp add: f_def)
  next
    case True
    obtain bm im where rd: "readRawBlock f fsOffset sb (bg_BlockBitmapBlock d) = Inr bm"
      "readRawBlock f fsOffset sb (bg_InodeBitmapBlock d) = Inr im"
      using cnt [OF g] d1 by (auto elim: counts_okE)
    have "\<forall>op\<in>set (meta_ops fsOffset sb g blk bmap (bg_raw d2) (sb_raw sb)). 0 \<le> fst op"
    proof -
      have "0 \<le> block_off fsOffset sb blk"
        using rd d(2) by (auto simp: readRawBlock_def dest: ReadAt_nonneg)
      moreover have "0 \<le> i64 (fsOffset + descOff sb g)"
        using d1 by (auto simp: readBGD_def res_bind_Inr_iff dest: ReadAt_nonneg)
      moreover have "0 \<le> i64 (fsOffset + 1024)"
        using lay by (simp add: layout_ok_def)
      ultimately show ?thesis
        by (simp add: meta_ops_def)
    qed
    from worker_direct_total [OF True this, of "ae_debug E" None fsOffset sb g]
    obtain f' where e: "m = (Inr (), f')"
      by (auto simp: m_def enqueueCommitWritesUnderLock_def)
    note e' = e [unfolded m_def]
    have raw: "length (bg_raw d2) = DescSize sb"
      using sm readBGD_Inr [OF d1] by (simp add: same_blocks_def)
    have ap: "meta_apart fsOffset sb g blk"
      using lay g blk unfolding layout_ok_def by blast
    note fr = batch_effect(4) [OF e' bs raw len_sb ap]
    note own = own_group_counts [OF e' bs len_sb cnt [OF g] d1 sm lay g blk]
    have all: "counts_ok f' fsOffset sb h \<and> bitmaps f' fsOffset sb h = bitmaps f fsOffset sb h" if "h < numBlockGroups sb" for h
    proof (cases "h = g")
      case False
      show ?thesis
        using other_group_kept [OF cnt [OF that] fr lay g that False blk] by blast
    qed (use own in blast)
    have "layout_ok fsOffset sb (bitmaps f' fsOffset sb)"
      using lay all by (simp add: layout_ok_def)
    then show ?thesis
      using all len_sb by (simp add: consistent_def s'(2) e)
  qed
qed

section \<open>Every operation keeps the invariant\<close>

lemma consistent_group:
  assumes "consistent fsOffset s" "g < numBlockGroups (fs_sb s)" "readBGD (fs_dev s) fsOffset (fs_sb s) g = Inr d"
  shows "32 \<le> DescSize (fs_sb s)" "length (bg_raw d) = DescSize (fs_sb s)"
proof -
  have "bg_BlockBitmapBlock d \<in> set (bitmaps (fs_dev s) fsOffset (fs_sb s) g)"
    using assms(3) by (simp add: bitmaps_def)
  then have "meta_apart fsOffset (fs_sb s) g (bg_BlockBitmapBlock d)"
    using assms(1,2) unfolding consistent_def layout_ok_def by blast
  then show "32 \<le> DescSize (fs_sb s)"
    by (simp add: meta_apart_def)
  show "length (bg_raw d) = DescSize (fs_sb s)"
    using readBGD_Inr [OF assms(3)] by blast
qed

lemma same_blocks_update:
  assumes "length raw = DescSize sb" "32 \<le> DescSize sb" "bg_raw d = raw"
  shows "same_blocks sb raw (bg_raw (bgd_encode (setBitmapCsum sb g d isB bmap) sb))"
  using assms by (intro same_blocks_encode same_blocks_csum) (simp_all add: same_blocks_def)

lemma same_blocks_counter:
  "same_blocks (sb\<lparr>FreeInodesCount := c\<rparr>) = same_blocks sb" "same_blocks (sb\<lparr>FreeBlocksCount := c\<rparr>) = same_blocks sb"
  by (simp_all add: same_blocks_def sb_geom fun_eq_iff)

lemma inode_step:
  assumes "alloc_inode_groups E fsOffset forDir gs s = (r, s')" and E: "ae_route E = Queued"
    and inv: "consistent fsOffset s" and gs: "\<forall>g\<in>set gs. g < numBlockGroups (fs_sb s)"
  shows "consistent fsOffset s'"
  using assms(1) gs
proof (induction gs)
  case (Cons g gs)
  show ?case
  proof (cases "readBGD (fs_dev s) fsOffset (fs_sb s) g")
    case (Inr d)
    note g = consistent_group [OF inv _ Inr]
    have gn: "g < numBlockGroups (fs_sb s)"
      using Cons.prems(2) by simp
    have up: "consistent fsOffset s2"
      if p: "persist_group E fsOffset g (bg_InodeBitmapBlock d) (setBit bmap slot) (inode_bgd (fs_sb s) g forDir d (setBit bmap slot))
          (s\<lparr>fs_sb := (fs_sb s)\<lparr>FreeInodesCount := c\<rparr>\<rparr>) = (r2, s2)"
        and b: "readBitmap E (fs_dev s) fsOffset (fs_sb s) (bg_InodeBitmapBlock d) = Inr bmap" for bmap slot c r2 s2
    proof -
      have "length bmap = BlockSize (fs_sb s)"
        using b by (auto elim: readBitmap_Inr)
      then show ?thesis
        using inv gn Inr g [OF gn]
        by (intro persist_consistent [OF p E, of d])
          (simp_all add: consistent_counter sb_geom same_blocks_update same_blocks_counter)
    qed
    have skip: "consistent fsOffset s'" if "alloc_inode_groups E fsOffset forDir gs s = (r, s')"
      using Cons.IH [OF that] Cons.prems(2) by simp
    show ?thesis
    proof (cases "bg_FreeInodesCount d = 0 \<or> ae_busy E g")
      case True
      then show ?thesis
        using Cons.prems(1) Inr by (intro skip) simp
    next
      case False
      show ?thesis
      proof (cases "readBitmap E (fs_dev s) fsOffset (fs_sb s) (bg_InodeBitmapBlock d)")
        case (Inl err)
        then show ?thesis
          using Cons.prems(1) Inr False inv by simp
      next
        case b: (Inr bmap)
        show ?thesis
        proof (cases "findFreeBit bmap (InodesPerGroup (fs_sb s))")
          case (Inl err)
          then show ?thesis
            using Cons.prems(1) Inr False b inv by simp
        next
          case fr: (Inr ro)
          show ?thesis
          proof (cases ro)
            case None
            then show ?thesis
              using Cons.prems(1) Inr False b fr by (intro skip) simp
          next
            case (Some slot)
            obtain r2 s2 where p: "persist_group E fsOffset g (bg_InodeBitmapBlock d) (setBit bmap slot) (inode_bgd (fs_sb s) g forDir d (setBit bmap slot))
                (s\<lparr>fs_sb := (fs_sb s)\<lparr>FreeInodesCount := sub32 (FreeInodesCount (fs_sb s)) 1\<rparr>\<rparr>) = (r2, s2)"
              by (rule prod.exhaust)
            with Cons.prems(1) Inr False b fr Some have "s2 = s'"
              by (cases r2) (simp_all add: Let_def)
            with up [OF p b] show ?thesis
              by simp
          qed
        qed
      qed
    qed
  qed (use Cons.prems inv in simp)
qed (use inv in simp)

lemma block_update:
  assumes p: "persist_group E fsOffset g (bg_BlockBitmapBlock d) bmap' d2 (s\<lparr>fs_sb := (fs_sb s)\<lparr>FreeBlocksCount := c\<rparr>\<rparr>) = (r, s')"
    and E: "ae_route E = Queued" and inv: "consistent fsOffset s" and g: "g < numBlockGroups (fs_sb s)"
    and d: "readBGD (fs_dev s) fsOffset (fs_sb s) g = Inr d" "length bmap' = BlockSize (fs_sb s)"
    and d2: "d2 = block_bgd (fs_sb s) g k d bmap' \<or> d2 = setBGDChecksum (fs_sb s) g (block_bgd (fs_sb s) g k d bmap')"
  shows "consistent fsOffset s'"
proof -
  note l = consistent_group [OF inv g d(1)]
  have "same_blocks (fs_sb s) (bg_raw d) (bg_raw d2)"
    using d2 l by (auto simp: setBGDChecksum_def intro!: same_blocks_update same_blocks_bgd_csum)
  then show ?thesis
    using inv g d by (intro persist_consistent [OF p E, of d]) (simp_all add: consistent_counter sb_geom same_blocks_counter)
qed

lemma take_step:
  assumes tk: "take_blocks E fsOffset n g d bmap blocks s = (r, s')"
    and E: "ae_route E = Queued" and inv: "consistent fsOffset s" and g: "g < numBlockGroups (fs_sb s)"
    and d: "readBGD (fs_dev s) fsOffset (fs_sb s) g = Inr d"
    and b: "readBitmap E (fs_dev s) fsOffset (fs_sb s) (bg_BlockBitmapBlock d) = Inr bmap"
  shows "consistent fsOffset s'"
proof -
  obtain r2 where p: "persist_group E fsOffset g (bg_BlockBitmapBlock d) (foldl setBit bmap blocks)
      (block_bgd (fs_sb s) g (sub32 (bg_FreeBlocksCount d) n) d (foldl setBit bmap blocks))
      (s\<lparr>fs_sb := (fs_sb s)\<lparr>FreeBlocksCount := sub64 (FreeBlocksCount (fs_sb s)) n\<rparr>\<rparr>) = (r2, s')"
    using tk by (auto simp: take_blocks_def Let_def split: prod.splits sum.splits)
  have "length (foldl setBit bmap blocks) = BlockSize (fs_sb s)"
    using b by (auto elim: readBitmap_Inr)
  with p E inv g d show ?thesis
    by (rule block_update) (rule disjI1 [OF refl])
qed

lemma take_choice:
  assumes res: "(case readBitmap E (fs_dev s) fsOffset (fs_sb s) (bg_BlockBitmapBlock d) of
         Inl err \<Rightarrow> (Inl err, s)
       | Inr bmap \<Rightarrow>
         (case findFreeRun bmap (BlocksPerGroup (fs_sb s)) n of
            Inl err \<Rightarrow> (Inl err, s)
          | Inr None \<Rightarrow> other
          | Inr (Some blocks) \<Rightarrow> finish (take_blocks E fsOffset n g d bmap blocks s))) = (r, s')"
    and E: "ae_route E = Queued" and inv: "consistent fsOffset s" and g: "g < numBlockGroups (fs_sb s)"
    and d: "readBGD (fs_dev s) fsOffset (fs_sb s) g = Inr d"
    and other: "other = (r, s') \<Longrightarrow> consistent fsOffset s'"
    and finish: "\<And>p. snd (finish p) = snd p"
  shows "consistent fsOffset s'"
proof (cases "readBitmap E (fs_dev s) fsOffset (fs_sb s) (bg_BlockBitmapBlock d)")
  case b: (Inr bmap)
  show ?thesis
  proof (cases "findFreeRun bmap (BlocksPerGroup (fs_sb s)) n")
    case (Inr ro)
    show ?thesis
    proof (cases ro)
      case (Some blocks)
      then have "snd (finish (take_blocks E fsOffset n g d bmap blocks s)) = s'"
        using res b Inr by simp
      then have "take_blocks E fsOffset n g d bmap blocks s = (fst (take_blocks E fsOffset n g d bmap blocks s), s')"
        by (simp add: finish prod_eq_iff)
      then show ?thesis
        using E inv g d b by (rule take_step)
    qed (use res b Inr other in simp)
  qed (use res b inv in simp)
qed (use res inv in simp)

lemma locked_step:
  assumes "locked_alloc_groups E fsOffset n gs s = (r, s')" and E: "ae_route E = Queued"
    and inv: "consistent fsOffset s" and gs: "\<forall>g\<in>set gs. g < numBlockGroups (fs_sb s)"
  shows "consistent fsOffset s'"
  using assms(1) gs
proof (induction gs)
  case (Cons g gs)
  have skip: "consistent fsOffset s'" if "locked_alloc_groups E fsOffset n gs s = (r, s')"
    using Cons.IH [OF that] Cons.prems(2) by simp
  show ?case
  proof (cases "ae_busy E g")
    case True
    then show ?thesis
      using Cons.prems(1) by (intro skip) simp
  next
    case nb: False
    show ?thesis
    proof (cases "readBGD (fs_dev s) fsOffset (fs_sb s) g")
      case (Inl err)
      then show ?thesis
        using Cons.prems(1) nb inv by simp
    next
      case (Inr d)
      show ?thesis
      proof (cases "bg_FreeBlocksCount d < n")
        case True
        then show ?thesis
          using Cons.prems(1) nb Inr by (intro skip) simp
      next
        case False
        show ?thesis
          by (rule take_choice [where finish = "\<lambda>p. p" and other = "locked_alloc_groups E fsOffset n gs s", OF _ E inv _ Inr skip])
            (use Cons.prems nb Inr False in simp_all)
      qed
    qed
  qed
qed (use inv in simp)

lemma block_step:
  assumes "alloc_block_groups E fsOffset n gs s = (r, s')" and E: "ae_route E = Queued"
    and inv: "consistent fsOffset s" and gs: "\<forall>g\<in>set gs. g < numBlockGroups (fs_sb s)"
  shows "consistent fsOffset s'"
  using assms(1) gs
proof (induction gs)
  case Nil
  obtain r2 where "locked_alloc_groups E fsOffset n [0..<numBlockGroups (fs_sb s)] s = (r2, s')"
    using Nil.prems(1) by (auto simp: lockedAllocBlocks_def split: prod.splits sum.splits)
  then show ?case
    by (rule locked_step [OF _ E inv]) simp
next
  case (Cons g gs)
  show ?case
  proof (cases "readBGD (fs_dev s) fsOffset (fs_sb s) g")
    case (Inr d)
    have skip: "consistent fsOffset s'" if "alloc_block_groups E fsOffset n gs s = (r, s')"
      using Cons.IH [OF that] Cons.prems(2) by simp
    show ?thesis
    proof (cases "bg_FreeBlocksCount d < n \<or> ae_busy E g")
      case True
      then show ?thesis
        using Cons.prems(1) Inr by (intro skip) (auto split: if_splits)
    next
      case False
      define finish where "finish p = (case p of
               (Inl err, s') \<Rightarrow> (Inl err, s')
             | (Inr result, s') \<Rightarrow>
                 (case table_check (fs_dev s') fsOffset (fs_sb s') result of
                    Inl err \<Rightarrow> (Inl err, s')
                  | Inr _ \<Rightarrow> (Inr result, s')))" for p :: "u64 list result \<times> fsys"
      have fin: "snd (finish p) = snd p" for p
        by (auto simp: finish_def split: prod.splits sum.splits)
      show ?thesis
        by (rule take_choice [where finish = finish and other = "alloc_block_groups E fsOffset n gs s" and n = n, OF _ E inv _ Inr skip fin])
          (unfold finish_def, use Cons.prems Inr False in simp_all)
    qed
  qed (use Cons.prems inv in simp)
qed

lemma free_step:
  assumes f: "freeBlock E fsOffset physBlock s = (r, s')" and E: "ae_route E = Queued"
    and inv: "consistent fsOffset s"
    and g: "(physBlock - FirstDataBlock (fs_sb s)) div BlocksPerGroup (fs_sb s) < numBlockGroups (fs_sb s)"
  shows "consistent fsOffset s'"
proof -
  define g where "g = (physBlock - FirstDataBlock (fs_sb s)) div BlocksPerGroup (fs_sb s)"
  define slot where "slot = (physBlock - FirstDataBlock (fs_sb s)) mod BlocksPerGroup (fs_sb s)"
  have gn: "g < numBlockGroups (fs_sb s)" and g32: "w32 g = g"
    using g numBlockGroups_lt [of "fs_sb s"] by (simp_all add: g_def)
  show ?thesis
  proof (cases "physBlock < FirstDataBlock (fs_sb s) \<or> BlocksPerGroup (fs_sb s) = 0")
    case True
    then show ?thesis
      using f inv by (auto simp: freeBlock_def Let_def split: if_splits)
  next
    case nz: False
    define upd where "upd d bmap = persist_group E fsOffset g (bg_BlockBitmapBlock d) (clearBit bmap slot)
        (setBGDChecksum (fs_sb s) g (block_bgd (fs_sb s) g (w32 (bg_FreeBlocksCount d + 1)) d (clearBit bmap slot)))
        (s\<lparr>fs_sb := (fs_sb s)\<lparr>FreeBlocksCount := w64 (FreeBlocksCount (fs_sb s) + 1)\<rparr>\<rparr>)" for d bmap
    have f': "(case readBGD (fs_dev s) fsOffset (fs_sb s) g of
          Inl err \<Rightarrow> (Inl err, s)
        | Inr d \<Rightarrow>
          (case readBitmap E (fs_dev s) fsOffset (fs_sb s) (bg_BlockBitmapBlock d) of
             Inl err \<Rightarrow> (Inl err, s)
           | Inr bmap \<Rightarrow> if \<not> in_bitmap bmap slot then (Inl Panic, s) else upd d bmap)) = (r, s')"
      using f nz unfolding freeBlock_def Let_def g_def [symmetric] slot_def [symmetric] g32 upd_def by simp
    show ?thesis
    proof (cases "readBGD (fs_dev s) fsOffset (fs_sb s) g")
      case d: (Inr d)
      show ?thesis
      proof (cases "readBitmap E (fs_dev s) fsOffset (fs_sb s) (bg_BlockBitmapBlock d)")
        case b: (Inr bmap)
        have len: "length (clearBit bmap slot) = BlockSize (fs_sb s)"
          using b by (auto elim: readBitmap_Inr)
        show ?thesis
        proof (cases "in_bitmap bmap slot")
          case True
          then have "upd d bmap = (r, s')"
            using f' d b by simp
          then show ?thesis
            unfolding upd_def using E inv gn d len by (rule block_update) (rule disjI2 [OF refl])
        qed (use f' d b inv in simp)
      qed (use f' d inv in simp)
    qed (use f' inv in simp)
  qed
qed

text \<open>
  \<open>freeInodeSlot\<close> writes bitmap, descriptor and superblock one after the other; on a device that
  takes the writes that is the batch the other operations hand to the worker.
\<close>

lemma recount_geom: "recount l f fsOffset (encodeRaw (sb\<lparr>FreeInodesCount := c\<rparr>)) g data = recount l f fsOffset sb g data"
proof -
  have "bgd_encode d (encodeRaw (sb\<lparr>FreeInodesCount := c\<rparr>)) = bgd_encode d sb" for d
  proof -
    have "wide_desc (encodeRaw (sb\<lparr>FreeInodesCount := c\<rparr>)) = wide_desc sb"
      by (subst encodeRaw_upd) (simp add: wide_desc_def)
    then show ?thesis
      by (simp add: bgd_encode_def)
  qed
  moreover have "recount_bitmap l f (encodeRaw (sb\<lparr>FreeInodesCount := c\<rparr>)) = recount_bitmap l f sb"
    by (simp add: recount_bitmap_def fun_eq_iff sb_geom split: option.split)
  ultimately show ?thesis
    by (simp add: recount_def sb_geom Let_def cong: if_cong)
qed

lemma slot_writes:
  fixes s :: fsys
  defines "sb \<equiv> fs_sb s" and "f \<equiv> fs_dev s"
  assumes w: "dev_writable f" and E: "ae_route E = Queued"
    and off: "0 \<le> block_off fsOffset sb blk" "0 \<le> i64 (fsOffset + descOff sb g)" "0 \<le> i64 (fsOffset + 1024)"
    and raw: "raw = put_bgd_csum sb g (bg_raw (bgd_encode d2 sb))" "length raw = DescSize sb"
    and len: "length bmap = BlockSize sb" "DescSize sb \<noteq> BlockSize sb" "DescSize sb \<noteq> 1024" "length (sb_raw sb) = 1024"
    and sb2: "sb2 = sb\<lparr>FreeInodesCount := c\<rparr>"
  obtains f1 f2 where "writeBitmapBufNoLock fsOffset sb g d isB blk bmap f = (Inr (setBitmapCsum sb g d isB bmap), f1)"
    "writeBGD Queued dbg fsOffset sb g d2 f1 = (Inr (), f2)"
    "writeSuperblock Queued dbg fsOffset (s\<lparr>fs_dev := f2, fs_sb := sb2\<rparr>)
      = persist_group (E\<lparr>ae_debug := False\<rparr>) fsOffset g blk bmap (d2\<lparr>bg_raw := raw\<rparr>) (s\<lparr>fs_sb := sb2\<rparr>)"
proof -
  define f1 where "f1 = dev_store f (nat (block_off fsOffset sb blk)) bmap"
  define raw' where "raw' = recount None f1 fsOffset sb g raw"
  define f2 where "f2 = dev_store f1 (nat (i64 (fsOffset + descOff sb g))) raw'"
  define sb' where "sb' = encodeRaw sb2"
  have w1: "dev_writable f1" and w2: "dev_writable f2"
    using w by (simp_all add: f1_def f2_def)
  have g1: "DescSize sb' = DescSize sb" "BlockSize sb' = BlockSize sb" "length (sb_raw sb') = 1024" "block_off fsOffset sb' blk = block_off fsOffset sb blk"
    "descOff sb' g = descOff sb g" "recount l x fsOffset sb' g data = recount l x fsOffset sb g data" for l x data
    using len(4) by (simp_all add: sb'_def sb2 sb_geom recount_geom)
  have a: "WriteAt (block_off fsOffset sb blk) bmap f = (Inr (length bmap), f1)"
    "WriteAt (i64 (fsOffset + descOff sb g)) raw' f1 = (Inr (length raw'), f2)"
    using w w1 off by (simp_all add: WriteAt_Inr_unless f1_def f2_def)
  have 1: "writeBitmapBufNoLock fsOffset sb g d isB blk bmap f = (Inr (setBitmapCsum sb g d isB bmap), f1)"
    by (simp add: writeBitmapBufNoLock_def writeRawBlock_def writeAtWithTrace_eq io_bind_def io_return_def a)
  have 2: "writeBGD Queued dbg fsOffset sb g d2 f1 = (Inr (), f2)"
    using raw len(2) by (simp add: writeBGD_def raw(1) [symmetric] enqueueCommitWritesUnderLock_def writeAtWithTrace_eq raw'_def [symmetric] a)
  have 3: "worker_direct False None fsOffset sb' g (meta_ops fsOffset sb' g blk bmap raw (sb_raw sb')) f
      = worker_direct dbg None fsOffset sb' 0 [(i64 (fsOffset + 1024), sb_raw sb')] f2"
    using len raw(2) by (simp add: meta_ops_def writeAtWithTrace_eq g1 a raw'_def [symmetric] split: prod.split sum.split)
  have "writeSuperblock Queued dbg fsOffset (s\<lparr>fs_dev := f2, fs_sb := sb2\<rparr>)
      = persist_group (E\<lparr>ae_debug := False\<rparr>) fsOffset g blk bmap (d2\<lparr>bg_raw := raw\<rparr>) (s\<lparr>fs_sb := sb2\<rparr>)"
    using E 3 by (simp add: writeSuperblock_def persist_group_def Let_def sb'_def [symmetric] on_dev_def enqueueCommitWritesUnderLock_def
        f_def [symmetric] split: prod.split)
  with 1 2 show ?thesis
    by (rule that)
qed

lemma slot_update:
  fixes E :: alloc_env
  assumes E: "ae_route E = Queued" and inv: "consistent fsOffset s" and g: "g < numBlockGroups (fs_sb s)"
    and d: "readBGD (fs_dev s) fsOffset (fs_sb s) g = Inr d" "length bmap = BlockSize (fs_sb s)" "bg_raw d1 = bg_raw d"
    and run: "(case on_dev (writeBitmapBufNoLock fsOffset (fs_sb s) g d1 False (bg_InodeBitmapBlock d) bmap) s of
        (Inl err, s1) \<Rightarrow> (Inl err, s1)
      | (Inr d2, s1) \<Rightarrow>
        (case on_dev (writeBGD (ae_route E) (ae_debug E) fsOffset (fs_sb s) g d2) s1 of
           (Inl err, s2) \<Rightarrow> (Inl err, s2)
         | (Inr _, s2) \<Rightarrow> writeSuperblock (ae_route E) (ae_debug E) fsOffset
             (s2\<lparr>fs_sb := (fs_sb s)\<lparr>FreeInodesCount := c\<rparr>\<rparr>))) = (r, s')"
  shows "consistent fsOffset s'"
proof (cases "dev_writable (fs_dev s)")
  case False
  then have "on_dev (writeBitmapBufNoLock fsOffset (fs_sb s) g d1 False (bg_InodeBitmapBlock d) bmap) s
      = (fst (writeBitmapBufNoLock fsOffset (fs_sb s) g d1 False (bg_InodeBitmapBlock d) bmap (fs_dev s)), s)"
    "\<exists>err. fst (writeBitmapBufNoLock fsOffset (fs_sb s) g d1 False (bg_InodeBitmapBlock d) bmap (fs_dev s)) = Inl err"
    by (auto simp: on_dev_def writeBitmapBufNoLock_def writeRawBlock_def writeAtWithTrace_eq WriteAt_def io_bind_def)
  then show ?thesis
    using run inv by auto
next
  case True
  note l = consistent_group [OF inv g d(1)]
  define sb where "sb = fs_sb s"
  define d2 where "d2 = setBitmapCsum sb g d1 False bmap"
  define raw where "raw = put_bgd_csum sb g (bg_raw (bgd_encode d2 sb))"
  have lay: "layout_ok fsOffset sb (bitmaps (fs_dev s) fsOffset sb)" "length (sb_raw sb) = 1024" "counts_ok (fs_dev s) fsOffset sb g"
    using inv g by (simp_all add: consistent_def sb_def)
  have "bg_InodeBitmapBlock d \<in> set (bitmaps (fs_dev s) fsOffset sb g)"
    using d(1) by (simp add: bitmaps_def sb_def)
  then have ap: "meta_apart fsOffset sb g (bg_InodeBitmapBlock d)"
    using lay(1) g unfolding layout_ok_def sb_def by blast
  obtain im where "readRawBlock (fs_dev s) fsOffset sb (bg_InodeBitmapBlock d) = Inr im"
    using lay(3) d(1) by (auto simp: sb_def elim: counts_okE)
  then have off: "0 \<le> block_off fsOffset sb (bg_InodeBitmapBlock d)" "0 \<le> i64 (fsOffset + descOff sb g)" "0 \<le> i64 (fsOffset + 1024)"
    using d(1) lay(1) by (auto simp: readRawBlock_def readBGD_def res_bind_Inr_iff layout_ok_def sb_def dest: ReadAt_nonneg)
  have sm: "same_blocks sb (bg_raw d) raw"
    using l d(3) by (auto simp: raw_def d2_def sb_def intro!: same_blocks_bgd_csum same_blocks_update)
  have rl: "length raw = DescSize sb"
    using sm l(2) by (simp add: same_blocks_def sb_def)
  have ne: "DescSize sb \<noteq> BlockSize sb" "DescSize sb \<noteq> 1024"
    using ap by (simp_all add: meta_apart_def)
  obtain f1 f2 where fs: "writeBitmapBufNoLock fsOffset sb g d1 False (bg_InodeBitmapBlock d) bmap (fs_dev s) = (Inr d2, f1)"
    "writeBGD Queued (ae_debug E) fsOffset sb g d2 f1 = (Inr (), f2)"
    "writeSuperblock Queued (ae_debug E) fsOffset (s\<lparr>fs_dev := f2, fs_sb := sb\<lparr>FreeInodesCount := c\<rparr>\<rparr>)
      = persist_group (E\<lparr>ae_debug := False\<rparr>) fsOffset g (bg_InodeBitmapBlock d) bmap (d2\<lparr>bg_raw := raw\<rparr>) (s\<lparr>fs_sb := sb\<lparr>FreeInodesCount := c\<rparr>\<rparr>)"
    unfolding sb_def d2_def
    by (rule slot_writes [of s E fsOffset "bg_InodeBitmapBlock d" g raw d2 bmap "(fs_sb s)\<lparr>FreeInodesCount := c\<rparr>" c d1 False "ae_debug E"])
      (use True E off rl ne d(2) lay(2) in \<open>simp_all add: sb_def raw_def d2_def\<close>)
  then have p: "persist_group (E\<lparr>ae_debug := False\<rparr>) fsOffset g (bg_InodeBitmapBlock d) bmap (d2\<lparr>bg_raw := raw\<rparr>)
      (s\<lparr>fs_sb := (fs_sb s)\<lparr>FreeInodesCount := c\<rparr>\<rparr>) = (r, s')"
    using run E by (simp add: on_dev_def sb_def)
  have "ae_route (E\<lparr>ae_debug := False\<rparr>) = Queued"
    using E by simp
  then show ?thesis
    using inv g d sm by (intro persist_consistent [OF p, of d]) (simp_all add: consistent_counter sb_geom same_blocks_counter sb_def)
qed

lemma slot_step:
  assumes f: "freeInodeSlot E fsOffset inodeNum s = (r, s')" and E: "ae_route E = Queued" and inv: "consistent fsOffset s"
    and g: "sub32 inodeNum 1 div InodesPerGroup (fs_sb s) < numBlockGroups (fs_sb s)"
  shows "consistent fsOffset s'"
proof (cases "InodesPerGroup (fs_sb s) = 0")
  case True
  then show ?thesis
    using f inv by (simp add: freeInodeSlot_def)
next
  case nz: False
  define slot where "slot = sub32 inodeNum 1 mod InodesPerGroup (fs_sb s)"
  show ?thesis
  proof (cases "readBGD (fs_dev s) fsOffset (fs_sb s) (sub32 inodeNum 1 div InodesPerGroup (fs_sb s))")
    case d: (Inr d)
    show ?thesis
    proof (cases "readBitmap E (fs_dev s) fsOffset (fs_sb s) (bg_InodeBitmapBlock d)")
      case b: (Inr bmap)
      have len: "length (clearBit bmap slot) = BlockSize (fs_sb s)"
        using b by (auto elim: readBitmap_Inr)
      show ?thesis
      proof (cases "in_bitmap bmap slot")
        case True
        show ?thesis
          by (rule slot_update [OF E inv g d len, of "d\<lparr>bg_FreeInodesCount := w32 (bg_FreeInodesCount d + 1)\<rparr>"
                "w32 (FreeInodesCount (fs_sb s) + 1)" r])
            (use f nz d b True in \<open>simp_all add: freeInodeSlot_def Let_def slot_def del: One_nat_def\<close>)
      qed (use f nz d b inv in \<open>simp add: freeInodeSlot_def Let_def slot_def\<close>)
    qed (use f nz d inv in \<open>simp add: freeInodeSlot_def Let_def\<close>)
  qed (use f nz inv in \<open>simp add: freeInodeSlot_def Let_def\<close>)
qed

text \<open>
  The device model performs every write it accepts.  A device that fails between the writes of a
  batch breaks the invariant: with the bitmap on the device and the descriptor as it was, the
  counts disagree.
\<close>

lemma interrupted_batch:
  assumes "counts_ok f fsOffset sb g" "readBGD f fsOffset sb g = Inr d" "readRawBlock f fsOffset sb (bg_BlockBitmapBlock d) = Inr bm"
    and w: "WriteAt (block_off fsOffset sb (bg_BlockBitmapBlock d)) bm' f = (Inr k, f1)" "length bm' = BlockSize sb"
    and ap: "meta_apart fsOffset sb g (bg_BlockBitmapBlock d)"
    and ch: "count_clear bm' (BlocksPerGroup sb) \<noteq> count_clear bm (BlocksPerGroup sb)"
  shows "\<not> counts_ok f1 fsOffset sb g"
proof -
  have "bg_FreeBlocksCount d = count_clear bm (BlocksPerGroup sb)"
    using assms(1-3) by (auto elim: counts_okE)
  moreover have "readRawBlock f1 fsOffset sb (bg_BlockBitmapBlock d) = Inr bm'"
    using dv.read_back [OF w(1)] w(2) by (simp add: readRawBlock_def)
  moreover have "readBGD f1 fsOffset sb g = Inr d"
    using assms(2) dv.read_frame [OF w(1)] w(2) ap by (auto simp: readBGD_def res_bind_Inr_iff meta_apart_def desc_range_apart_def)
  ultimately show ?thesis
    using ch by (auto elim: counts_okE)
qed

lemma step_consistent: "alloc_step fsOffset s s' \<Longrightarrow> consistent fsOffset s \<Longrightarrow> consistent fsOffset s'"
proof (induction rule: alloc_step.induct)
  case (step_inode E forDir s r s')
  show ?case
  proof (cases "numBlockGroups (fs_sb s) = 0")
    case True
    then show ?thesis
      using step_inode(2,3) by (simp add: allocInode_def)
  next
    case False
    then have "alloc_inode_groups E fsOffset forDir (group_order E (numBlockGroups (fs_sb s))) s = (r, s')"
      using step_inode(2) by (simp add: allocInode_def)
    then show ?thesis
      by (rule inode_step [OF _ step_inode(1,3)]) (blast intro: group_order_set)
  qed
next
  case (step_blocks E n s r s')
  show ?case
  proof (cases "numBlockGroups (fs_sb s) = 0")
    case True
    then show ?thesis
      using step_blocks(2,3) by (simp add: allocBlocks_def)
  next
    case False
    then have "alloc_block_groups E fsOffset n (group_order E (numBlockGroups (fs_sb s))) s = (r, s')"
      using step_blocks(2) by (simp add: allocBlocks_def)
    then show ?thesis
      by (rule block_step [OF _ step_blocks(1,3)]) (blast intro: group_order_set)
  qed
next
  case (step_free E physBlock s r s')
  show ?case
    by (rule free_step [OF step_free(2,1,4,3)])
next
  case (step_slot E inodeNum s r s')
  show ?case
    by (rule slot_step [OF step_slot(2,1,4,3)])
qed

text \<open>C24: from a state in which every descriptor's free counts are the numbers of clear bits of its
  two bitmaps, every sequence of calls of \<open>allocInode\<close>, \<open>allocBlocks\<close>, \<open>freeBlock\<close> and
  \<open>freeInodeSlot\<close> through the dispatcher's queue leads to such a state, whether a call succeeds or is
  refused and whatever other operations have locked or reserved.  The blocks and inodes freed
  belong to groups of the file system, and the device performs every write it accepts: it is
  writable or read-only, and does not fail between two writes of a batch.\<close>

theorem alloc_run_consistent:
  assumes "(alloc_step fsOffset)\<^sup>*\<^sup>* s s'" "consistent fsOffset s"
  shows "consistent fsOffset s'"
  using assms by (induction rule: rtranclp_induct) (blast intro: step_consistent)+

lemma mini_consistent: "consistent 0 mini_fs"
proof -
  have L: "bitmaps mini_dev 0 mini_sb 0 = [3, 4]"
    by (simp add: bitmaps_def readBGD_mini)
  have z: "{..<1 :: nat} = {0}"
    by auto
  have "clear_of 0 mini_sb 0 3 (block_off 0 mini_sb 4) 64" "clear_of 0 mini_sb 0 4 (block_off 0 mini_sb 3) 64"
    by (simp_all add: clear_of_def desc_range_apart_def mini_block_off)
  then have "layout_ok 0 mini_sb (bitmaps mini_dev 0 mini_sb)"
    by (simp add: layout_ok_def z L mini_apart desc_max_def del: One_nat_def)
  moreover have "count_clear mini_bm 64 = 32" "count_clear mini_im 4 = 2"
    by code_simp+
  then have "counts_ok mini_dev 0 mini_sb 0"
    by (intro counts_okI [OF readBGD_mini]) (simp_all add: mini_raw)
  ultimately show ?thesis
    by (simp add: consistent_def)
qed

theorem alloc_run_consistent_witness:
  "\<exists>r1 s1 r2 s2 r3 s3 r4 s4. freeBlock (quiet Queued) 0 20 mini_fs = (r1, s1) \<and> allocBlocks (quiet Queued) 0 2 s1 = (r2, s2)
     \<and> freeInodeSlot (quiet Queued) 0 1 mini_fs = (r3, s3) \<and> allocInode (quiet Queued) 0 True s3 = (r4, s4)
     \<and> consistent 0 s2 \<and> consistent 0 s4"
proof -
  obtain r1 s1 where 1: "freeBlock (quiet Queued) 0 20 mini_fs = (r1, s1)"
    by (rule prod.exhaust)
  obtain r2 s2 where 2: "allocBlocks (quiet Queued) 0 2 s1 = (r2, s2)"
    by (rule prod.exhaust)
  obtain r3 s3 where 3: "freeInodeSlot (quiet Queued) 0 1 mini_fs = (r3, s3)"
    by (rule prod.exhaust)
  obtain r4 s4 where 4: "allocInode (quiet Queued) 0 True s3 = (r4, s4)"
    by (rule prod.exhaust)
  have "alloc_step 0 mini_fs s1"
    by (rule step_free [OF _ 1]) simp_all
  moreover have "alloc_step 0 s1 s2"
    by (rule step_blocks [OF _ 2]) simp
  moreover have "alloc_step 0 mini_fs s3"
    by (rule step_slot [OF _ 3]) (simp_all add: sub32_def w32_def)
  moreover have "alloc_step 0 s3 s4"
    by (rule step_inode [OF _ 4]) simp
  ultimately have "(alloc_step 0)\<^sup>*\<^sup>* mini_fs s2" "(alloc_step 0)\<^sup>*\<^sup>* mini_fs s4"
    by (meson converse_rtranclp_into_rtranclp r_into_rtranclp)+
  then have "consistent 0 s2" "consistent 0 s4"
    using alloc_run_consistent [OF _ mini_consistent] by blast+
  with 1 2 3 4 show ?thesis
    by blast
qed

end
