(* ===== verification/Journal.thy ===== *)
theory Journal
  imports Rawio
begin

text \<open>
  The sidecar journal of \<open>journal.go\<close>: transactions of whole blocks, the record they are written
  as, the commit that appends the record and applies the blocks in sequence order, and the replay
  of the committed records when the image is opened.  The sidecar is the list of its bytes.
  \<open>Sync\<close> has no observable effect on it, and the data-block, descriptor and inode-table locks
  are left out of the sequential definitions; commits of several goroutines are the step relation
  of \<open>JournalSteps\<close>.
\<close>

section \<open>Transactions\<close>

definition journalMagic :: u32 where "journalMagic = 0x4A424432"
definition commitMagic :: u32 where "commitMagic = 0x434D4954"
definition descSize :: nat where "descSize = 12"

record journalEntry =
  je_Block :: u64
  je_Data :: "byte list"

record Transaction =
  tx_entries :: "journalEntry list"
  tx_committed :: bool

definition StartTx :: Transaction where
  "StartTx = \<lparr>tx_entries = [], tx_committed = False\<rparr>"

fun upsert :: "u64 \<Rightarrow> byte list \<Rightarrow> journalEntry list \<Rightarrow> journalEntry list" where
  "upsert blockNum data [] = [\<lparr>je_Block = blockNum, je_Data = data\<rparr>]"
| "upsert blockNum data (e # es) =
    (if je_Block e = blockNum then e\<lparr>je_Data := data\<rparr> # es else e # upsert blockNum data es)"

definition AddBlock :: "u64 \<Rightarrow> byte list \<Rightarrow> (Transaction, unit) io" where
  "AddBlock blockNum data tx =
    (if tx_committed tx then (Inl ErrTxState, tx)
     else (Inr (), tx\<lparr>tx_entries := upsert blockNum data (tx_entries tx)\<rparr>))"

definition GetBlock :: "Transaction \<Rightarrow> u64 \<Rightarrow> byte list option" where
  "GetBlock tx blockNum = map_option je_Data (find (\<lambda>e. je_Block e = blockNum) (tx_entries tx))"

definition Abort :: "(Transaction, unit) io" where
  "Abort tx = (if tx_committed tx then (Inl ErrTxState, tx) else (Inr (), tx\<lparr>tx_entries := []\<rparr>))"

section \<open>Staging a byte range\<close>

text \<open>
  The pieces of a range, block by block: the offset in the block and the number of bytes.  The
  second alternative of the guard never holds, since the first offset is a remainder.
\<close>

function pieces :: "nat \<Rightarrow> nat \<Rightarrow> nat \<Rightarrow> (nat \<times> nat) list" where
  "pieces bs off len =
    (if len = 0 \<or> bs \<le> off then []
     else (off, min (bs - off) len) # pieces bs 0 (len - min (bs - off) len))"
  by pat_completeness auto
termination
  by (relation "measure (\<lambda>(bs, off, len). len)") auto

declare pieces.simps [simp del]

text \<open>The group whose inode table holds the block, with the start of that table.\<close>

definition table_of_block :: "device \<Rightarrow> int \<Rightarrow> superblock \<Rightarrow> u64 \<Rightarrow> cand option" where
  "table_of_block f fsOffset sb b =
    (if b \<ge> FirstDataBlock sb \<and> BlocksPerGroup sb \<noteq> 0 then
       let g = w32 ((b - FirstDataBlock sb) div BlocksPerGroup sb)
       in if g < numBlockGroups sb then
            case readBGD f fsOffset sb g of
              Inl _ \<Rightarrow> None
            | Inr d \<Rightarrow>
                let inodeTableStart = bg_InodeTableBlock d;
                    inodeTableBlocks = w64 (sub64 (w64 (w64 (InodeSize sb * InodesPerGroup sb) + BlockSize sb)) 1) div BlockSize sb
                in if b \<ge> inodeTableStart \<and> b < w64 (inodeTableStart + inodeTableBlocks) then Some (g, inodeTableStart) else None
          else None
     else None)"

definition groupsMap :: "device \<Rightarrow> int \<Rightarrow> superblock \<Rightarrow> u64 \<Rightarrow> nat \<Rightarrow> cand list" where
  "groupsMap f fsOffset sb bnum n = nub (List.map_filter (table_of_block f fsOffset sb) [bnum..<bnum + n])"

text \<open>
  The attempts to find the descriptors stable under their locks.  As in \<open>Rawio\<close>, \<open>obs\<close> gives the
  device as each read of a descriptor sees it: \<open>obs 0\<close> for the first scan, \<open>obs (2 k + 1)\<close> for the
  check of attempt \<open>k\<close> and \<open>obs (2 k + 2)\<close> for the scan after it.
\<close>

fun find_stable :: "nat \<Rightarrow> nat \<Rightarrow> (nat \<Rightarrow> device) \<Rightarrow> int \<Rightarrow> superblock \<Rightarrow> u64 \<Rightarrow> nat \<Rightarrow> cand list \<Rightarrow> bool" where
  "find_stable 0 k obs fsOffset sb bnum n gm = False"
| "find_stable (Suc m) k obs fsOffset sb bnum n gm =
    (if list_all (\<lambda>(g, it). case readBGD (obs (2 * k + 1)) fsOffset sb g of
           Inl _ \<Rightarrow> False | Inr d2 \<Rightarrow> bg_InodeTableBlock d2 = it) gm
     then True
     else find_stable m (k + 1) obs fsOffset sb bnum n (groupsMap (obs (2 * k + 2)) fsOffset sb bnum n))"

definition addRangeMaxAttempts :: nat where
  "addRangeMaxAttempts = 8"

fun merge_pieces :: "device \<Rightarrow> int \<Rightarrow> superblock \<Rightarrow> u64 \<Rightarrow> (nat \<times> nat) list \<Rightarrow> byte list \<Rightarrow> (Transaction, unit) io" where
  "merge_pieces f fsOffset sb bnum [] data tx = (Inr (), tx)"
| "merge_pieces f fsOffset sb bnum ((offInBlock, copyLen) # ps) data tx =
    (case (case GetBlock tx bnum of Some inTx \<Rightarrow> Inr inTx | None \<Rightarrow> ReadAt f (block_off fsOffset sb bnum) (BlockSize sb)) of
       Inl err \<Rightarrow> (Inl err, tx)
     | Inr blockBuf \<Rightarrow>
         io_bind (AddBlock bnum (put_bytes blockBuf offInBlock (take copyLen data))) (\<lambda>_.
           merge_pieces f fsOffset sb (bnum + 1) ps (drop copyLen data)) tx)"

definition addRangeToTx_obs :: "(nat \<Rightarrow> device) \<Rightarrow> device \<Rightarrow> int \<Rightarrow> superblock \<Rightarrow> int \<Rightarrow> byte list \<Rightarrow> (Transaction, unit) io" where
  "addRangeToTx_obs obs f fsOffset sb startAbs data tx =
    (if BlockSize sb = 0 then (Inl ErrTxBlockSize, tx)
     else
       let relStart = i64 (startAbs - fsOffset)
       in if relStart < 0 then (Inl ErrNegOffset, tx)
          else
            let bnum = nat relStart div BlockSize sb;
                ps = pieces (BlockSize sb) (nat relStart mod BlockSize sb) (length data);
                gm = groupsMap (obs 0) fsOffset sb bnum (length ps)
            in if gm \<noteq> [] \<and> \<not> find_stable addRangeMaxAttempts 0 obs fsOffset sb bnum (length ps) gm
               then (Inl ErrUnstable, tx)
               else merge_pieces f fsOffset sb bnum ps data tx)"

definition addRangeToTx :: "device \<Rightarrow> int \<Rightarrow> superblock \<Rightarrow> int \<Rightarrow> byte list \<Rightarrow> (Transaction, unit) io" where
  "addRangeToTx f = addRangeToTx_obs (\<lambda>_. f) f"

section \<open>The record of a transaction\<close>

definition encode_tx :: "u64 \<Rightarrow> journalEntry list \<Rightarrow> byte list" where
  "encode_tx seq entries =
    le_bytes 4 journalMagic @ le_bytes 8 seq @ le_bytes 4 (w32 (length entries))
    @ concat (map (\<lambda>e. le_bytes 8 (je_Block e) @ le_bytes 4 (w32 (length (je_Data e)))) entries)
    @ concat (map je_Data entries)"

definition commit_record :: "u64 \<Rightarrow> byte list \<Rightarrow> byte list" where
  "commit_record seq body = le_bytes 4 commitMagic @ le_bytes 8 seq @ le_bytes 4 (crc32_Update 0 body)"

definition tx_record :: "u64 \<Rightarrow> journalEntry list \<Rightarrow> byte list" where
  "tx_record seq entries = encode_tx seq entries @ commit_record seq (encode_tx seq entries)"

section \<open>Commit\<close>

record Journal =
  j_js :: "byte list"
  j_fsOffset :: int
  j_blockSize :: nat
  j_sb :: superblock
  j_enabled :: bool
  j_nextSeq :: u64
  j_applySeq :: u64
  j_appendOff :: nat

record jsys =
  js_journal :: Journal
  js_dev :: device

definition reserveAppend :: "nat \<Rightarrow> Journal \<Rightarrow> nat \<times> Journal" where
  "reserveAppend n j =
    (let off = max (j_appendOff j) (length (j_js j))
     in (off, j\<lparr>j_appendOff := off + n\<rparr>))"

definition file_write :: "byte list \<Rightarrow> nat \<Rightarrow> byte list \<Rightarrow> byte list" where
  "file_write js off data = take off (js @ zeros (off - length js)) @ data @ drop (off + length data) js"

definition entry_off :: "int \<Rightarrow> nat \<Rightarrow> u64 \<Rightarrow> int" where
  "entry_off fsOffset blockSize b = i64 (fsOffset + i64 (i64 (int b) * int blockSize))"

fun apply_entries :: "int \<Rightarrow> nat \<Rightarrow> superblock \<Rightarrow> journalEntry list \<Rightarrow> (device, unit) io" where
  "apply_entries fsOffset blockSize sb [] f = (Inr (), f)"
| "apply_entries fsOffset blockSize sb (e # es) f =
    io_bind (writeAtWithTrace fsOffset sb (entry_off fsOffset blockSize (je_Block e)) (je_Data e)) (\<lambda>_.
      apply_entries fsOffset blockSize sb es) f"

text \<open>
  A commit with no other commit under way.  It waits for its turn: when \<open>applySeq\<close> is not its
  sequence number nobody else will advance it, and the call does not return (\<open>None\<close>).
\<close>

definition Commit :: "Transaction \<Rightarrow> jsys \<Rightarrow> (unit result \<times> Transaction \<times> jsys) option" where
  "Commit tx s =
    (if tx_committed tx then Some (Inl ErrTxState, tx, s)
     else
       let entries = tx_entries tx;
           tx' = tx\<lparr>tx_committed := True\<rparr>;
           j = js_journal s
       in if \<not> j_enabled j then Some (Inr (), tx', s)
          else
            let seq = j_nextSeq j;
                j1 = j\<lparr>j_nextSeq := w64 (seq + 1)\<rparr>;
                (off, j2) = reserveAppend (length (tx_record seq entries)) j1;
                j3 = j2\<lparr>j_js := file_write (j_js j2) off (tx_record seq entries)\<rparr>
            in if j_applySeq j3 \<noteq> seq then None
               else
                 let (r, f') = apply_entries (j_fsOffset j3) (j_blockSize j3) (j_sb j3) entries (js_dev s)
                 in Some (r, tx', s\<lparr>js_journal := j3\<lparr>j_applySeq := w64 (seq + 1)\<rparr>, js_dev := f'\<rparr>))"

section \<open>Replay\<close>

definition read_le :: "nat \<Rightarrow> byte list \<Rightarrow> (nat \<times> byte list) result" where
  "read_le n bs =
    (if length bs < n then Inl (if bs = [] then ErrEOF else ErrUnexpectedEOF)
     else Inr (le_nat (take n bs), drop n bs))"

fun read_descs :: "nat \<Rightarrow> byte list \<Rightarrow> ((u64 \<times> u32) list \<times> byte list) result" where
  "read_descs 0 bs = Inr ([], bs)"
| "read_descs (Suc n) bs =
    res_bind (read_le 8 bs) (\<lambda>(blk, bs1).
    res_bind (read_le 4 bs1) (\<lambda>(ln, bs2).
    res_bind (read_descs n bs2) (\<lambda>(ds, rest). Inr ((blk, ln) # ds, rest))))"

definition ReadFull :: "nat \<Rightarrow> byte list \<Rightarrow> (byte list \<times> byte list) result" where
  "ReadFull n bs =
    (if length bs < n then Inl (if bs = [] then ErrEOF else ErrUnexpectedEOF)
     else Inr (take n bs, drop n bs))"

fun read_datas :: "(u64 \<times> u32) list \<Rightarrow> nat \<Rightarrow> byte list \<Rightarrow> (journalEntry list \<times> byte list) result" where
  "read_datas [] rem bs = Inr ([], bs)"
| "read_datas ((blk, l) # ds) rem bs =
    (if l > rem then Inl ErrTooLarge
     else res_bind (ReadFull l bs) (\<lambda>(buf, bs1).
          res_bind (read_datas ds (rem - l) bs1) (\<lambda>(es, rest).
            Inr (\<lparr>je_Block = blk, je_Data = buf\<rparr> # es, rest))))"

definition journalRemaining :: "byte list \<Rightarrow> nat" where
  "journalRemaining bs = length bs"

definition journalReserveDescs :: "nat \<Rightarrow> u32 \<Rightarrow> nat result" where
  "journalReserveDescs rem nDesc =
    (let need = nDesc * descSize in if need > rem then Inl ErrTooLarge else Inr (rem - need))"

text \<open>One round of the loop of \<open>ReplayOnOpen\<close>: it ends the scan, fails, or yields a transaction.\<close>

datatype scan = ScanStop | ScanReturn | ScanFail err | ScanTx u64 "journalEntry list" "byte list"

definition scan_commit :: "(err \<Rightarrow> scan) \<Rightarrow> u64 \<Rightarrow> journalEntry list \<Rightarrow> byte list \<Rightarrow> scan" where
  "scan_commit no_commit seq entries bs =
    (case read_le 4 bs of
       Inl e \<Rightarrow> no_commit e
     | Inr (cm, bs1) \<Rightarrow>
       if cm \<noteq> commitMagic then ScanStop
       else case read_le 8 bs1 of
         Inl e \<Rightarrow> ScanFail e
       | Inr (cseq, bs2) \<Rightarrow>
         (case read_le 4 bs2 of
            Inl e \<Rightarrow> ScanFail e
          | Inr (crc, rest) \<Rightarrow>
            if crc32_Update 0 (encode_tx seq entries) \<noteq> crc then ScanStop else ScanTx seq entries rest))"

definition replay_scan :: "byte list \<Rightarrow> scan" where
  "replay_scan bs =
    (case read_le 4 bs of
       Inl e \<Rightarrow> if e = ErrEOF then ScanStop else ScanFail e
     | Inr (magic, bs1) \<Rightarrow>
       if magic \<noteq> journalMagic then ScanStop
       else case res_bind (read_le 8 bs1) (\<lambda>(seq, bs2).
                 res_bind (read_le 4 bs2) (\<lambda>(nDesc, bs3).
                 res_bind (journalReserveDescs (journalRemaining bs3) nDesc) (\<lambda>rem.
                 res_bind (read_descs nDesc bs3) (\<lambda>(descs, bs4).
                 res_bind (read_datas descs rem bs4) (\<lambda>(entries, bs5). Inr (seq, entries, bs5)))))) of
         Inl e \<Rightarrow> ScanFail e
       | Inr (seq, entries, bs5) \<Rightarrow> scan_commit (\<lambda>_. ScanStop) seq entries bs5)"

fun replay_entries :: "int \<Rightarrow> nat \<Rightarrow> superblock \<Rightarrow> journalEntry list \<Rightarrow> (device, unit) io" where
  "replay_entries fsOffset blockSize sb [] f = (Inr (), f)"
| "replay_entries fsOffset blockSize sb (e # es) f =
    (if je_Block e \<ge> BlocksCount sb then (Inl ErrDataBlockRange, f)
     else io_bind (writeAtWithTrace fsOffset sb (entry_off fsOffset blockSize (je_Block e)) (je_Data e)) (\<lambda>_.
            replay_entries fsOffset blockSize sb es) f)"

lemma read_le_rest: "read_le n bs = Inr (v, rest) \<Longrightarrow> length bs = n + length rest"
  by (auto simp: read_le_def split: if_splits)

lemma read_descs_rest: "read_descs n bs = Inr (ds, rest) \<Longrightarrow> length rest \<le> length bs"
proof (induction n arbitrary: bs ds)
  case (Suc n)
  then show ?case
    by (fastforce simp: res_bind_Inr_iff dest: read_le_rest)
qed simp

lemma read_datas_rest: "read_datas ds rem bs = Inr (es, rest) \<Longrightarrow> length rest \<le> length bs"
proof (induction ds arbitrary: bs es rem)
  case (Cons d ds)
  then show ?case
    by (cases d) (fastforce simp: res_bind_Inr_iff ReadFull_def split: if_splits)
qed simp

lemma scan_commit_rest: "scan_commit nc seq es bs = ScanTx s e rest \<Longrightarrow> (\<And>x. nc x \<noteq> ScanTx s e rest) \<Longrightarrow> length rest < length bs"
  by (auto simp: scan_commit_def dest!: read_le_rest split: sum.splits if_splits)

lemma replay_scan_rest: "replay_scan bs = ScanTx seq es rest \<Longrightarrow> length rest < length bs"
  by (auto simp: replay_scan_def res_bind_Inr_iff dest!: read_le_rest read_descs_rest read_datas_rest scan_commit_rest split: sum.splits if_splits)

function replay_loop :: "int \<Rightarrow> nat \<Rightarrow> superblock \<Rightarrow> byte list \<Rightarrow> u64 \<Rightarrow> device \<Rightarrow> unit result \<times> u64 \<times> device" where
  "replay_loop fsOffset blockSize sb bs nextSeq f =
    (case replay_scan bs of
       ScanStop \<Rightarrow> (Inr (), nextSeq, f)
     | ScanReturn \<Rightarrow> (Inr (), nextSeq, f)
     | ScanFail e \<Rightarrow> (Inl e, nextSeq, f)
     | ScanTx seq entries rest \<Rightarrow>
       (case replay_entries fsOffset blockSize sb entries f of
          (Inl e, f') \<Rightarrow> (Inl e, nextSeq, f')
        | (Inr _, f') \<Rightarrow>
            replay_loop fsOffset blockSize sb rest (if seq \<ge> nextSeq then w64 (seq + 1) else nextSeq) f'))"
  by pat_completeness auto
termination
  by (relation "measure (\<lambda>(fsOffset, blockSize, sb, bs, nextSeq, f). length bs)") (auto dest: replay_scan_rest)

declare replay_loop.simps [simp del]

definition ReplayOnOpen :: "(jsys, unit) io" where
  "ReplayOnOpen s =
    (let j = js_journal s
     in if \<not> j_enabled j then (Inr (), s)
        else case replay_loop (j_fsOffset j) (j_blockSize j) (j_sb j) (j_js j) (j_nextSeq j) (js_dev s) of
               (r, nextSeq, f') \<Rightarrow> (r, s\<lparr>js_journal := j\<lparr>j_nextSeq := nextSeq\<rparr>, js_dev := f'\<rparr>))"

section \<open>Opening the journal\<close>

text \<open>
  The scan of \<open>initNextSeq\<close> reads the same records, but a record that cannot fit the file ends the
  scan instead of failing it.
\<close>

definition init_scan :: "byte list \<Rightarrow> scan" where
  "init_scan bs =
    (case read_le 4 bs of
       Inl e \<Rightarrow> if e = ErrEOF then ScanStop else ScanFail e
     | Inr (magic, bs1) \<Rightarrow>
       if magic \<noteq> journalMagic then ScanStop
       else case res_bind (read_le 8 bs1) (\<lambda>(seq, bs2). res_bind (read_le 4 bs2) (\<lambda>(nDesc, bs3). Inr (seq, nDesc, bs3))) of
         Inl e \<Rightarrow> ScanFail e
       | Inr (seq, nDesc, bs3) \<Rightarrow>
         (case journalReserveDescs (journalRemaining bs3) nDesc of
            Inl e \<Rightarrow> ScanStop
          | Inr rem \<Rightarrow>
            (case read_descs nDesc bs3 of
               Inl e \<Rightarrow> ScanFail e
             | Inr (descs, bs4) \<Rightarrow>
               (case read_datas descs rem bs4 of
                  Inl e \<Rightarrow> if e = ErrTooLarge then ScanStop else if e = ErrEOF \<or> e = ErrUnexpectedEOF then ScanReturn else ScanFail e
                | Inr (entries, bs5) \<Rightarrow>
                    scan_commit (\<lambda>e. if e = ErrEOF then ScanStop else ScanFail e) seq entries bs5))))"

lemma init_scan_rest: "init_scan bs = ScanTx seq es rest \<Longrightarrow> length rest < length bs"
  by (auto simp: init_scan_def res_bind_Inr_iff dest!: read_le_rest read_descs_rest read_datas_rest scan_commit_rest split: sum.splits if_splits)

text \<open>\<open>None\<close> is the early return of \<open>initNextSeq\<close> that leaves \<open>nextSeq\<close> and \<open>appendOff\<close> alone.\<close>

function init_loop :: "byte list \<Rightarrow> u64 \<Rightarrow> u64 option result" where
  "init_loop bs lastSeq =
    (case init_scan bs of
       ScanStop \<Rightarrow> Inr (Some lastSeq)
     | ScanReturn \<Rightarrow> Inr None
     | ScanFail e \<Rightarrow> Inl e
     | ScanTx seq entries rest \<Rightarrow> init_loop rest (max lastSeq seq))"
  by pat_completeness auto
termination
  by (relation "measure (\<lambda>(bs, lastSeq). length bs)") (auto dest: init_scan_rest)

declare init_loop.simps [simp del]

definition initNextSeq :: "(Journal, unit) io" where
  "initNextSeq j =
    (case init_loop (j_js j) 0 of
       Inl e \<Rightarrow> (Inl e, j)
     | Inr None \<Rightarrow> (Inr (), j)
     | Inr (Some lastSeq) \<Rightarrow> (Inr (), j\<lparr>j_nextSeq := w64 (lastSeq + 1), j_appendOff := length (j_js j)\<rparr>))"

text \<open>A sidecar that exists, or was just created empty, and could be opened.\<close>

definition OpenJournal :: "byte list \<Rightarrow> int \<Rightarrow> nat \<Rightarrow> superblock \<Rightarrow> Journal" where
  "OpenJournal js fsOffset blockSize sb =
    (let j = \<lparr>j_js = js, j_fsOffset = fsOffset, j_blockSize = blockSize, j_sb = sb, j_enabled = True,
              j_nextSeq = 0, j_applySeq = 0, j_appendOff = 0\<rparr>
     in case initNextSeq j of
          (Inl e, j') \<Rightarrow> j\<lparr>j_enabled := False\<rparr>
        | (Inr _, j') \<Rightarrow> j'\<lparr>j_applySeq := j_nextSeq j'\<rparr>)"

text \<open>\<open>Close\<close> empties the sidecar.\<close>

definition CloseJournal :: "Journal \<Rightarrow> Journal" where
  "CloseJournal j = j\<lparr>j_js := []\<rparr>"

section \<open>Writes through the journal\<close>

fun stage_blocks :: "device \<Rightarrow> int \<Rightarrow> superblock \<Rightarrow> u64 \<Rightarrow> (nat \<times> nat) list \<Rightarrow> byte list \<Rightarrow> (Transaction, unit) io" where
  "stage_blocks f fsOffset sb bnum [] data tx = (Inr (), tx)"
| "stage_blocks f fsOffset sb bnum ((offInBlock, copyLen) # ps) data tx =
    (case readRawBlock f fsOffset sb bnum of
       Inl err \<Rightarrow> (Inl err, tx)
     | Inr blockBuf \<Rightarrow>
         io_bind (addRangeToTx f fsOffset sb (block_off fsOffset sb bnum) (put_bytes blockBuf offInBlock (take copyLen data))) (\<lambda>_.
           stage_blocks f fsOffset sb (bnum + 1) ps (drop copyLen data)) tx)"

definition applyOrJournalWrite :: "int \<Rightarrow> superblock \<Rightarrow> int \<Rightarrow> byte list \<Rightarrow> jsys \<Rightarrow> (unit result \<times> jsys) option" where
  "applyOrJournalWrite fsOffset sb startAbs data s =
    (if BlockSize sb = 0 \<or> \<not> j_enabled (js_journal s) then
       case writeAtWithTrace fsOffset sb startAbs data (js_dev s) of
         (Inl e, f') \<Rightarrow> Some (Inl e, s\<lparr>js_dev := f'\<rparr>)
       | (Inr _, f') \<Rightarrow> Some (Inr (), s\<lparr>js_dev := f'\<rparr>)
     else
       let relStart = i64 (startAbs - fsOffset)
       in if relStart < 0 then Some (Inl ErrNegOffset, s)
          else
            case stage_blocks (js_dev s) fsOffset sb (nat relStart div BlockSize sb)
                   (pieces (BlockSize sb) (nat relStart mod BlockSize sb) (length data)) data StartTx of
              (Inl e, tx) \<Rightarrow> Some (Inl e, s)
            | (Inr _, tx) \<Rightarrow> map_option (\<lambda>(r, tx', s'). (r, s')) (Commit tx s))"

end
