(* ===== verification/JournalReplay.thy ===== *)
theory JournalReplay
  imports Journal Sample
begin

text \<open>
  What a replay does with the records of committed transactions and with a torn record behind
  them, what writes that were cut short leave once they are repeated, and the round trip of commits
  and replay.
\<close>

section \<open>Reading a record back\<close>

definition entry_fits :: "journalEntry \<Rightarrow> bool" where
  "entry_fits e \<longleftrightarrow> je_Block e < 18446744073709551616 \<and> length (je_Data e) < 4294967296"

definition tx_fits :: "u64 \<times> journalEntry list \<Rightarrow> bool" where
  "tx_fits t \<longleftrightarrow> fst t < 18446744073709551616 \<and> length (snd t) < 4294967296 \<and> list_all entry_fits (snd t)"

lemma read_le_le [simp]: "read_le n (le_bytes n v @ rest) = Inr (v mod 256 ^ n, rest)"
  by (simp add: read_le_def)

lemma read_descs_record:
  assumes "list_all entry_fits es"
  shows "read_descs (length es) (concat (map (\<lambda>e. le_bytes 8 (je_Block e) @ le_bytes 4 (w32 (length (je_Data e)))) es) @ rest)
    = Inr (map (\<lambda>e. (je_Block e, length (je_Data e))) es, rest)"
  using assms by (induction es) (simp_all add: res_bind_def entry_fits_def w32_def)

lemma read_datas_record:
  assumes "length (concat (map je_Data es)) \<le> rem"
  shows "read_datas (map (\<lambda>e. (je_Block e, length (je_Data e))) es) rem (concat (map je_Data es) @ rest) = Inr (es, rest)"
  using assms
proof (induction es arbitrary: rem)
  case (Cons e es)
  from Cons.prems Cons.IH [of "rem - length (je_Data e)"] show ?case
    by (simp add: res_bind_def ReadFull_def)
qed simp

lemma length_descs: "length (concat (map (\<lambda>e. le_bytes 8 (je_Block e) @ le_bytes 4 (w32 (length (je_Data e)))) es)) = 12 * length es"
  by (induction es) simp_all

lemma scan_commit_record:
  assumes "seq < 18446744073709551616"
  shows "scan_commit nc seq es (commit_record seq (encode_tx seq es) @ rest) = ScanTx seq es rest"
proof -
  have "crc32_Update 0 (encode_tx seq es) < 4294967296"
    by (simp add: crc32_Update_def)
  then show ?thesis
    using assms by (simp add: scan_commit_def commit_record_def commitMagic_def)
qed

lemma scan_record:
  assumes "tx_fits (seq, es)"
  shows "replay_scan (tx_record seq es @ rest) = ScanTx seq es rest" "init_scan (tx_record seq es @ rest) = ScanTx seq es rest"
proof -
  have f: "seq < 18446744073709551616" "length es < 4294967296" "list_all entry_fits es"
    using assms by (simp_all add: tx_fits_def)
  define D where "D = concat (map (\<lambda>e. le_bytes 8 (je_Block e) @ le_bytes 4 (w32 (length (je_Data e)))) es)"
  define A where "A = concat (map je_Data es)"
  define C where "C = commit_record seq (encode_tx seq es)"
  have rec: "tx_record seq es @ rest = le_bytes 4 journalMagic @ le_bytes 8 seq @ le_bytes 4 (length es) @ D @ A @ C @ rest"
    using f(2) by (simp add: tx_record_def C_def encode_tx_def D_def A_def w32_def)
  have d: "read_descs (length es) (D @ A @ C @ rest) = Inr (map (\<lambda>e. (je_Block e, length (je_Data e))) es, A @ C @ rest)"
    unfolding D_def by (rule read_descs_record [OF f(3)])
  have lD: "length D = 12 * length es"
    unfolding D_def by (rule length_descs)
  define rem where "rem = length (A @ C @ rest)"
  have r: "journalReserveDescs (journalRemaining (D @ A @ C @ rest)) (length es) = Inr rem"
    by (simp add: journalReserveDescs_def journalRemaining_def descSize_def lD rem_def)
  have a: "read_datas (map (\<lambda>e. (je_Block e, length (je_Data e))) es) rem (A @ C @ rest) = Inr (es, C @ rest)"
    unfolding A_def by (rule read_datas_record) (simp add: rem_def A_def)
  have c: "scan_commit nc seq es (C @ rest) = ScanTx seq es rest" for nc
    unfolding C_def by (rule scan_commit_record [OF f(1)])
  have m: "journalMagic mod 4294967296 = journalMagic"
    by (simp add: journalMagic_def)
  show "replay_scan (tx_record seq es @ rest) = ScanTx seq es rest" "init_scan (tx_record seq es @ rest) = ScanTx seq es rest"
    unfolding rec replay_scan_def init_scan_def using f(1,2)
    by (simp_all add: res_bind_def d r a c m)
qed

text \<open>A scan that found a transaction finds the same one when more bytes follow.\<close>

lemma read_le_more: "read_le n bs = Inr (v, rest) \<Longrightarrow> read_le n (bs @ ext) = Inr (v, rest @ ext)"
  by (auto simp: read_le_def split: if_splits)

lemma read_descs_more: "read_descs n bs = Inr (ds, rest) \<Longrightarrow> read_descs n (bs @ ext) = Inr (ds, rest @ ext)"
proof (induction n arbitrary: bs ds)
  case (Suc n)
  from Suc.prems obtain b bs1 l bs2 ds' where r: "read_le 8 bs = Inr (b, bs1)" "read_le 4 bs1 = Inr (l, bs2)"
    "read_descs n bs2 = Inr (ds', rest)" "ds = (b, l) # ds'"
    by (auto simp: res_bind_Inr_iff)
  from read_le_more [OF r(1)] read_le_more [OF r(2)] Suc.IH [OF r(3)] r(4) show ?case
    by (simp add: res_bind_def)
qed simp

lemma read_datas_more:
  "read_datas ds rem bs = Inr (es, rest) \<Longrightarrow> rem \<le> rem' \<Longrightarrow> read_datas ds rem' (bs @ ext) = Inr (es, rest @ ext)"
proof (induction ds arbitrary: bs es rem rem')
  case (Cons d ds)
  obtain b l where d: "d = (b, l)"
    by (rule prod.exhaust)
  from Cons.prems(1) obtain es' where l: "\<not> l > rem" "\<not> length bs < l"
    and r: "read_datas ds (rem - l) (drop l bs) = Inr (es', rest)" "es = \<lparr>je_Block = b, je_Data = take l bs\<rparr> # es'"
    by (auto simp: d res_bind_Inr_iff ReadFull_def split: if_splits)
  from Cons.IH [OF r(1), of "rem' - l"] Cons.prems(2) l r(2) show ?case
    by (simp add: d res_bind_def ReadFull_def)
qed simp

lemma scan_commit_more:
  "scan_commit (\<lambda>_. ScanStop) seq es bs = ScanTx s e rest \<Longrightarrow> scan_commit (\<lambda>_. ScanStop) seq es (bs @ ext) = ScanTx s e (rest @ ext)"
proof -
  assume a: "scan_commit (\<lambda>_. ScanStop) seq es bs = ScanTx s e rest"
  obtain bs1 where 1: "read_le 4 bs = Inr (commitMagic, bs1)"
    using a by (auto simp: scan_commit_def split: sum.splits if_splits)
  with a obtain q bs2 where 2: "read_le 8 bs1 = Inr (q, bs2)"
    by (auto simp: scan_commit_def split: sum.splits if_splits)
  with a 1 obtain c where 3: "read_le 4 bs2 = Inr (c, rest)" "crc32_Update 0 (encode_tx seq es) = c" "s = seq" "e = es"
    by (auto simp: scan_commit_def split: sum.splits if_splits)
  show ?thesis
    using read_le_more [OF 1] read_le_more [OF 2] read_le_more [OF 3(1)] 3(2-) by (simp add: scan_commit_def)
qed

lemma replay_scan_more:
  assumes "replay_scan bs = ScanTx seq es rest"
  shows "replay_scan (bs @ ext) = ScanTx seq es (rest @ ext)"
proof -
  obtain bs1 where 1: "read_le 4 bs = Inr (journalMagic, bs1)"
    using assms by (auto simp: replay_scan_def split: sum.splits if_splits)
  with assms obtain seq' bs2 n bs3 rem ds bs4 es' bs5 where
    2: "read_le 8 bs1 = Inr (seq', bs2)" "read_le 4 bs2 = Inr (n, bs3)"
    and r: "journalReserveDescs (journalRemaining bs3) n = Inr rem"
    and 3: "read_descs n bs3 = Inr (ds, bs4)" "read_datas ds rem bs4 = Inr (es', bs5)"
    and c: "scan_commit (\<lambda>_. ScanStop) seq' es' bs5 = ScanTx seq es rest"
    by (auto simp: replay_scan_def res_bind_Inr_iff split: sum.splits if_splits)
  obtain rem' where r': "journalReserveDescs (journalRemaining (bs3 @ ext)) n = Inr rem'" "rem \<le> rem'"
    using r by (auto simp: journalReserveDescs_def journalRemaining_def Let_def split: if_splits)
  show ?thesis
    using read_le_more [OF 1] read_le_more [OF 2(1)] read_le_more [OF 2(2)] r'(1) read_descs_more [OF 3(1)]
      read_datas_more [OF 3(2) r'(2)] scan_commit_more [OF c]
    by (simp add: replay_scan_def res_bind_def)
qed

text \<open>So no proper prefix of a record is taken for a transaction.\<close>

lemma torn_record:
  assumes "tx_fits (seq, es)" "k < length (tx_record seq es)"
  shows "replay_scan (take k (tx_record seq es)) \<noteq> ScanTx s e rest"
proof
  assume "replay_scan (take k (tx_record seq es)) = ScanTx s e rest"
  from replay_scan_more [OF this, of "drop k (tx_record seq es)"]
  have "replay_scan (tx_record seq es @ []) = ScanTx s e (rest @ drop k (tx_record seq es))"
    by simp
  with scan_record(1) [OF assms(1), of "[]"] assms(2) show False
    by simp
qed

section \<open>The effect of a list of writes\<close>

text \<open>What a sequence of block writes does to the device when none of them fails.\<close>

primrec stores :: "(nat \<times> byte list) list \<Rightarrow> device \<Rightarrow> device" where
  "stores [] f = f"
| "stores (w # ws) f = stores ws (dev_store f (fst w) (snd w))"

lemma stores_append: "stores (vs @ ws) f = stores ws (stores vs f)"
  by (induction vs arbitrary: f) simp_all

lemma stores_writable [simp]: "dev_writable (stores ws f) = dev_writable f"
  by (induction ws arbitrary: f) simp_all

text \<open>The byte a list of writes leaves at a position: the one of the last write that covers it.\<close>

primrec last_cover :: "(nat \<times> byte list) list \<Rightarrow> nat \<Rightarrow> byte option" where
  "last_cover [] i = None"
| "last_cover (w # ws) i =
    (case last_cover ws i of
       Some b \<Rightarrow> Some b
     | None \<Rightarrow> if fst w \<le> i \<and> i < fst w + length (snd w) then Some (snd w ! (i - fst w)) else None)"

primrec reach :: "(nat \<times> byte list) list \<Rightarrow> nat" where
  "reach [] = 0"
| "reach (w # ws) = max (if snd w = [] then 0 else fst w + length (snd w)) (reach ws)"

lemma reach_append: "reach (vs @ ws) = max (reach vs) (reach ws)"
  by (induction vs) simp_all

lemma stores_size: "dev_size (stores ws f) = max (dev_size f) (reach ws)"
  by (induction ws arbitrary: f) (simp_all add: dev_store_def max.assoc)

lemma cover_size: "last_cover ws i = Some b \<Longrightarrow> i < reach ws"
  by (induction ws) (auto split: option.splits if_splits)

lemma stores_byte:
  "ws \<noteq> [] \<Longrightarrow> dev_byte (stores ws f) i
    = (case last_cover ws i of Some b \<Rightarrow> b | None \<Rightarrow> if i < dev_size f then dev_byte f i else 0)"
proof (induction ws arbitrary: f)
  case (Cons w ws)
  show ?case
  proof (cases "ws = []")
    case True
    then show ?thesis
      by (simp add: dev_store_def)
  next
    case False
    have "i < dev_size f \<Longrightarrow> i < dev_size (dev_store f (fst w) (snd w))"
      using dev_store_size_mono [of f "fst w" "snd w"] by linarith
    then show ?thesis
      using Cons.IH [OF False, of "dev_store f (fst w) (snd w)"] by (auto simp: dev_store_def split: option.splits)
  qed
qed simp

lemma last_cover_append: "last_cover (vs @ ws) i = (case last_cover ws i of Some b \<Rightarrow> Some b | None \<Rightarrow> last_cover vs i)"
  by (induction vs) (auto split: option.splits)

lemma stores_side [simp]: "dev_side (stores ws f) = dev_side f"
  by (induction ws arbitrary: f) (simp_all add: dev_store_def)

text \<open>Writes that later writes cover completely leave no trace.\<close>

lemma stores_absorb:
  assumes cov: "\<And>i. last_cover ws i = None \<Longrightarrow> last_cover us i = None" and r: "reach us \<le> reach ws" and ne: "ws \<noteq> []"
  shows "stores ws (stores us f) = stores ws f"
proof (cases "us = []")
  case False
  have "dev_size (stores ws (stores us f)) = dev_size (stores ws f)"
    using r by (simp add: stores_size max_def)
  moreover have "dev_byte (stores ws (stores us f)) i = dev_byte (stores ws f) i" for i
    using False ne cov [of i] by (auto simp: stores_byte stores_size split: option.splits)
  ultimately show ?thesis
    by (intro device.equality) auto
qed simp

lemma stores_again: "stores (vs @ ws) (stores vs f) = stores (vs @ ws) f"
  by (cases "vs = []") (auto intro!: stores_absorb simp: last_cover_append reach_append split: option.splits)

section \<open>Replay\<close>

definition entry_writes :: "int \<Rightarrow> nat \<Rightarrow> journalEntry list \<Rightarrow> (nat \<times> byte list) list" where
  "entry_writes fsOffset blockSize es = map (\<lambda>e. (nat (entry_off fsOffset blockSize (je_Block e)), je_Data e)) es"

definition entries_in :: "int \<Rightarrow> nat \<Rightarrow> superblock \<Rightarrow> journalEntry list \<Rightarrow> bool" where
  "entries_in fsOffset blockSize sb es \<longleftrightarrow>
    list_all (\<lambda>e. je_Block e < BlocksCount sb \<and> 0 \<le> entry_off fsOffset blockSize (je_Block e)) es"

lemma apply_entries_stores:
  assumes "entries_in fsOffset blockSize sb es" "dev_writable f"
  shows "apply_entries fsOffset blockSize sb es f = (Inr (), stores (entry_writes fsOffset blockSize es) f)"
    "replay_entries fsOffset blockSize sb es f = (Inr (), stores (entry_writes fsOffset blockSize es) f)"
  using assms
  by (induction es arbitrary: f)
    (simp_all add: entries_in_def entry_writes_def io_bind_def writeAtWithTrace_eq WriteAt_Inr_unless not_le)

type_synonym txs = "(u64 \<times> journalEntry list) list"

definition records :: "txs \<Rightarrow> byte list" where
  "records ts = concat (map (\<lambda>t. tx_record (fst t) (snd t)) ts)"

definition txs_ok :: "int \<Rightarrow> nat \<Rightarrow> superblock \<Rightarrow> txs \<Rightarrow> bool" where
  "txs_ok fsOffset blockSize sb ts \<longleftrightarrow> list_all (\<lambda>t. tx_fits t \<and> entries_in fsOffset blockSize sb (snd t)) ts"

definition txs_writes :: "int \<Rightarrow> nat \<Rightarrow> txs \<Rightarrow> (nat \<times> byte list) list" where
  "txs_writes fsOffset blockSize ts = concat (map (\<lambda>t. entry_writes fsOffset blockSize (snd t)) ts)"

definition next_after :: "u64 \<Rightarrow> txs \<Rightarrow> u64" where
  "next_after n ts = foldl (\<lambda>n t. if fst t \<ge> n then w64 (fst t + 1) else n) n ts"

lemma replay_records:
  assumes "txs_ok fsOffset blockSize sb ts" "dev_writable f"
  shows "replay_loop fsOffset blockSize sb (records ts @ tail) n f
    = replay_loop fsOffset blockSize sb tail (next_after n ts) (stores (txs_writes fsOffset blockSize ts) f)"
  using assms
proof (induction ts arbitrary: f n)
  case (Cons t ts)
  have "tx_fits (fst t, snd t)" "entries_in fsOffset blockSize sb (snd t)" "txs_ok fsOffset blockSize sb ts"
    using Cons.prems by (simp_all add: txs_ok_def)
  with Cons.IH [of "stores (entry_writes fsOffset blockSize (snd t)) f"] Cons.prems(2) show ?case
    using replay_loop.simps [of fsOffset blockSize sb "tx_record (fst t) (snd t) @ records ts @ tail"]
    by (simp add: records_def scan_record apply_entries_stores txs_writes_def next_after_def stores_append)
qed (simp_all add: records_def txs_writes_def next_after_def)

lemma replay_torn:
  assumes "tx_fits (seq, es)" "k < length (tx_record seq es)"
  shows "\<exists>r. replay_loop fsOffset blockSize sb (take k (tx_record seq es)) n f = (r, n, f)"
  using torn_record [OF assms] replay_loop.simps [of fsOffset blockSize sb "take k (tx_record seq es)"]
  by (cases "replay_scan (take k (tx_record seq es))") auto

lemma replay_end: "replay_loop fsOffset blockSize sb [] n f = (Inr (), n, f)"
  by (simp add: replay_loop.simps replay_scan_def read_le_def)

section \<open>Writes cut short\<close>

text \<open>The first \<open>m\<close> writes of a list and the first \<open>p\<close> bytes of the next one.\<close>

definition partial :: "nat \<Rightarrow> nat \<Rightarrow> (nat \<times> byte list) list \<Rightarrow> (nat \<times> byte list) list" where
  "partial m p ws = take m ws @ map (\<lambda>w. (fst w, take p (snd w))) (take 1 (drop m ws))"

lemma cover_None_iff: "last_cover ws i = None \<longleftrightarrow> (\<forall>w\<in>set ws. \<not> (fst w \<le> i \<and> i < fst w + length (snd w)))"
  by (induction ws) (auto split: option.splits)

lemma reach_le: "(\<And>w. w \<in> set ws \<Longrightarrow> snd w \<noteq> [] \<Longrightarrow> fst w + length (snd w) \<le> n) \<Longrightarrow> reach ws \<le> n"
  by (induction ws) auto

lemma le_reach: "w \<in> set ws \<Longrightarrow> snd w \<noteq> [] \<Longrightarrow> fst w + length (snd w) \<le> reach ws"
  by (induction ws) auto

lemma partial_covered:
  assumes "w \<in> set (partial m p ws)"
  shows "\<exists>v\<in>set ws. fst v = fst w \<and> length (snd w) \<le> length (snd v)"
proof -
  consider "w \<in> set (take m ws)" | v where "v \<in> set (take 1 (drop m ws))" "w = (fst v, take p (snd v))"
    using assms by (auto simp: partial_def)
  then show ?thesis
  proof cases
    case 1
    then show ?thesis
      by (auto dest: in_set_takeD)
  next
    case 2
    then have "v \<in> set ws"
      by (blast dest: in_set_takeD in_set_dropD)
    with 2 show ?thesis
      by (intro bexI [of _ v]) simp_all
  qed
qed

lemma partial_absorbed:
  shows "stores (vs @ ws) (stores (partial m p ws) (stores vs f)) = stores (vs @ ws) f"
proof (cases "vs @ ws = []")
  case False
  have "stores (vs @ ws) (stores (vs @ partial m p ws) f) = stores (vs @ ws) f"
  proof (rule stores_absorb [OF _ _ False])
    show "last_cover (vs @ partial m p ws) i = None" if "last_cover (vs @ ws) i = None" for i
      using that partial_covered [of _ m p ws] by (fastforce simp: cover_None_iff)
    have "reach (partial m p ws) \<le> reach ws"
    proof (rule reach_le)
      fix w assume "w \<in> set (partial m p ws)" "snd w \<noteq> []"
      then obtain v where "v \<in> set ws" "fst v = fst w" "length (snd w) \<le> length (snd v)" "snd v \<noteq> []"
        using partial_covered by fastforce
      then show "fst w + length (snd w) \<le> reach ws"
        using le_reach [of v ws] by simp
    qed
    then show "reach (vs @ partial m p ws) \<le> reach (vs @ ws)"
      by (auto simp: reach_append)
  qed
  then show ?thesis
    by (simp add: stores_append)
qed (simp add: partial_def)

definition sample_tx :: "nat \<Rightarrow> journalEntry list" where
  "sample_tx b = [\<lparr>je_Block = b, je_Data = [7, 8, 9]\<rparr>, \<lparr>je_Block = b + 1, je_Data = [1, 2]\<rparr>]"

lemma sample_txs_ok: "b \<le> 40 \<Longrightarrow> txs_ok 0 64 mini_sb (map (\<lambda>s. (s, sample_tx b)) [1, 2])"
  by (simp add: txs_ok_def tx_fits_def entry_fits_def entries_in_def sample_tx_def entry_off_def)

lemma mini_dev_writable: "dev_writable mini_dev"
  by (simp add: dev_writable_def mini_dev_def)

text \<open>A torn header makes the replay, and with it the open, fail, although nothing was committed.\<close>

lemma torn_header_fails:
  "4 < k \<Longrightarrow> k < 12 \<Longrightarrow> replay_loop fsOffset blockSize sb (take k (tx_record seq es)) n f = (Inl ErrUnexpectedEOF, n, f)"
proof -
  assume k: "4 < k" "k < 12"
  define x where "x = take (k - 4) (le_bytes 8 seq)"
  have t: "take k (tx_record seq es) = le_bytes 4 journalMagic @ x" and lx: "length x < 8" "x \<noteq> []"
    using k length_le_bytes [of 8 seq] by (auto simp: tx_record_def encode_tx_def x_def simp flip: length_greater_0_conv)
  have "replay_scan (le_bytes 4 journalMagic @ x) = ScanFail ErrUnexpectedEOF"
    using lx by (simp add: replay_scan_def journalMagic_def res_bind_def read_le_def [of 8 x])
  then show ?thesis
    by (simp add: t replay_loop.simps)
qed

section \<open>Commits and reopening\<close>

definition journal_ready :: "jsys \<Rightarrow> bool" where
  "journal_ready s \<longleftrightarrow> (let j = js_journal s in j_enabled j \<and> j_applySeq j = j_nextSeq j \<and> j_appendOff j \<le> length (j_js j))"

fun run_commits :: "journalEntry list list \<Rightarrow> jsys \<Rightarrow> jsys option" where
  "run_commits [] s = Some s"
| "run_commits (es # ess) s =
    (case Commit \<lparr>tx_entries = es, tx_committed = False\<rparr> s of
       Some (Inr _, tx, s') \<Rightarrow> run_commits ess s'
     | _ \<Rightarrow> None)"

lemma Commit_ready:
  assumes "journal_ready s" "entries_in (j_fsOffset (js_journal s)) (j_blockSize (js_journal s)) (j_sb (js_journal s)) es" "dev_writable (js_dev s)"
  obtains tx' s' where "Commit \<lparr>tx_entries = es, tx_committed = False\<rparr> s = Some (Inr (), tx', s')" "journal_ready s'"
    "j_js (js_journal s') = j_js (js_journal s) @ tx_record (j_nextSeq (js_journal s)) es"
    "js_dev s' = stores (entry_writes (j_fsOffset (js_journal s)) (j_blockSize (js_journal s)) es) (js_dev s)"
    "j_nextSeq (js_journal s') = w64 (j_nextSeq (js_journal s) + 1)"
    "j_fsOffset (js_journal s') = j_fsOffset (js_journal s)" "j_blockSize (js_journal s') = j_blockSize (js_journal s)"
    "j_sb (js_journal s') = j_sb (js_journal s)"
proof -
  define j where "j = js_journal s"
  have j: "j_enabled j" "j_applySeq j = j_nextSeq j" "max (j_appendOff j) (length (j_js j)) = length (j_js j)"
    using assms(1) by (simp_all add: journal_ready_def j_def Let_def max_def)
  note ap = apply_entries_stores(1) [OF assms(2,3), folded j_def]
  define j' where "j' = j\<lparr>j_nextSeq := w64 (j_nextSeq j + 1), j_appendOff := length (j_js j) + length (tx_record (j_nextSeq j) es),
    j_js := j_js j @ tx_record (j_nextSeq j) es, j_applySeq := w64 (j_nextSeq j + 1)\<rparr>"
  define s' where "s' = s\<lparr>js_journal := j', js_dev := stores (entry_writes (j_fsOffset j) (j_blockSize j) es) (js_dev s)\<rparr>"
  have "Commit \<lparr>tx_entries = es, tx_committed = False\<rparr> s = Some (Inr (), \<lparr>tx_entries = es, tx_committed = True\<rparr>, s')"
    using j ap by (simp add: Commit_def j_def [symmetric] Let_def reserveAppend_def file_write_def s'_def j'_def zeros_def)
  then show ?thesis
    by (rule that) (use j in \<open>simp_all add: s'_def j'_def journal_ready_def j_def\<close>)
qed

fun number_from :: "u64 \<Rightarrow> journalEntry list list \<Rightarrow> txs" where
  "number_from n [] = []"
| "number_from n (es # ess) = (n, es) # number_from (n + 1) ess"

lemma run_commits_ready:
  assumes "journal_ready s" "dev_writable (js_dev s)" "j_nextSeq (js_journal s) + length ess < 18446744073709551616"
    "list_all (entries_in (j_fsOffset (js_journal s)) (j_blockSize (js_journal s)) (j_sb (js_journal s))) ess"
  shows "\<exists>s'. run_commits ess s = Some s' \<and> journal_ready s'
    \<and> j_js (js_journal s') = j_js (js_journal s) @ records (number_from (j_nextSeq (js_journal s)) ess)
    \<and> js_dev s' = stores (txs_writes (j_fsOffset (js_journal s)) (j_blockSize (js_journal s)) (number_from (j_nextSeq (js_journal s)) ess)) (js_dev s)"
  using assms
proof (induction ess arbitrary: s)
  case Nil
  then show ?case
    by (simp add: records_def txs_writes_def)
next
  case (Cons es ess)
  define n where "n = j_nextSeq (js_journal s)"
  obtain tx' s1 where c: "Commit \<lparr>tx_entries = es, tx_committed = False\<rparr> s = Some (Inr (), tx', s1)" "journal_ready s1"
    and j1: "j_js (js_journal s1) = j_js (js_journal s) @ tx_record n es" "j_nextSeq (js_journal s1) = w64 (n + 1)"
      "j_fsOffset (js_journal s1) = j_fsOffset (js_journal s)" "j_blockSize (js_journal s1) = j_blockSize (js_journal s)"
      "j_sb (js_journal s1) = j_sb (js_journal s)"
    and d1: "js_dev s1 = stores (entry_writes (j_fsOffset (js_journal s)) (j_blockSize (js_journal s)) es) (js_dev s)"
    by (rule Commit_ready [OF Cons.prems(1) _ Cons.prems(2), of es]) (use Cons.prems(4) that in \<open>simp_all add: n_def\<close>)
  have n1: "w64 (n + 1) = n + 1"
    using Cons.prems(3) by (simp add: w64_def n_def)
  obtain s' where "run_commits ess s1 = Some s'" "journal_ready s'"
    "j_js (js_journal s') = j_js (js_journal s1) @ records (number_from (n + 1) ess)"
    "js_dev s' = stores (txs_writes (j_fsOffset (js_journal s)) (j_blockSize (js_journal s)) (number_from (n + 1) ess)) (js_dev s1)"
    using Cons.IH [OF c(2)] Cons.prems(2-4) by (auto simp: j1 d1 n1 n_def)
  then show ?case
    using c j1(1) d1 by (simp add: n_def records_def txs_writes_def stores_append)
qed

lemma init_records:
  assumes "list_all tx_fits ts"
  shows "init_loop (records ts) n = Inr (Some (foldl (\<lambda>m t. max m (fst t)) n ts))"
  using assms
proof (induction ts arbitrary: n)
  case Nil
  then show ?case
    by (simp add: records_def init_loop.simps init_scan_def read_le_def)
next
  case (Cons t ts)
  have "init_scan (tx_record (fst t) (snd t) @ records ts) = ScanTx (fst t) (snd t) (records ts)"
    using scan_record(2) [of "fst t" "snd t"] Cons.prems by simp
  then have "init_loop (records (t # ts)) n = init_loop (records ts) (max n (fst t))"
    by (subst init_loop.simps) (simp add: records_def)
  then show ?case
    using Cons by simp
qed

lemma number_fits:
  assumes "list_all (\<lambda>es. length es < 4294967296 \<and> list_all entry_fits es) ess" "n + length ess < 18446744073709551616"
  shows "list_all tx_fits (number_from n ess)"
  using assms by (induction ess arbitrary: n) (auto simp: tx_fits_def)

lemma number_max:
  "foldl (\<lambda>m t. max m (fst t)) m (number_from (Suc m) ess) = m + length ess"
  by (induction ess arbitrary: m) simp_all

lemma number_next: "next_after (n + length ess) (number_from n ess) = n + length ess"
proof -
  have "n + length ess \<le> k \<Longrightarrow> next_after k (number_from n ess) = k" for k
    by (induction ess arbitrary: n) (simp_all add: next_after_def)
  then show ?thesis
    by simp
qed

lemma number_in:
  "list_all (entries_in fsOffset blockSize sb) ess \<Longrightarrow> list_all tx_fits (number_from n ess) \<Longrightarrow> txs_ok fsOffset blockSize sb (number_from n ess)"
  by (induction ess arbitrary: n) (simp_all add: txs_ok_def)

text \<open>C34: commits on a freshly opened empty sidecar never wait for a turn that does not come, and
  reopening redoes what they did.  The whole run of commits returns.  Open the sidecar they leave
  again, beside a device that has only the first \<open>k\<close> of their block writes (none of them for
  \<open>k = 0\<close>, all of them for a large \<open>k\<close>): it opens as an enabled journal whose next commit will get
  its turn at once, and the replay succeeds and brings the device to exactly the state the commits
  left, whatever \<open>k\<close> is.\<close>

theorem commits_reopen:
  assumes "list_all (\<lambda>es. length es < 4294967296 \<and> list_all entry_fits es) ess"
    and "list_all (entries_in fsOffset blockSize sb) ess"
    and "length ess < 18446744073709551614" "dev_writable f"
  shows "\<exists>s'. run_commits ess \<lparr>js_journal = OpenJournal [] fsOffset blockSize sb, js_dev = f\<rparr> = Some s'
    \<and> js_dev s' = stores (txs_writes fsOffset blockSize (number_from 1 ess)) f
    \<and> (\<forall>k. let s2 = \<lparr>js_journal = OpenJournal (j_js (js_journal s')) fsOffset blockSize sb,
                      js_dev = stores (take k (txs_writes fsOffset blockSize (number_from 1 ess))) f\<rparr>
       in journal_ready s2 \<and> (\<exists>s3. ReplayOnOpen s2 = (Inr (), s3) \<and> js_dev s3 = js_dev s' \<and> journal_ready s3))"
proof -
  define s where "s = \<lparr>js_journal = OpenJournal [] fsOffset blockSize sb, js_dev = f\<rparr>"
  define ts where "ts = number_from 1 ess"
  have j: "OpenJournal [] fsOffset blockSize sb = \<lparr>j_js = [], j_fsOffset = fsOffset, j_blockSize = blockSize, j_sb = sb, j_enabled = True,
      j_nextSeq = 1, j_applySeq = 1, j_appendOff = 0\<rparr>"
    using init_records [of "[]" 0] by (simp add: OpenJournal_def initNextSeq_def records_def w64_def)
  then have ready: "journal_ready s"
    by (simp add: s_def journal_ready_def)
  from run_commits_ready [OF ready, of ess] assms(2-4) j obtain s' where
    s': "run_commits ess s = Some s'" "j_js (js_journal s') = records ts" "js_dev s' = stores (txs_writes fsOffset blockSize ts) f"
    by (auto simp: s_def ts_def)
  have fits: "list_all tx_fits ts"
    using number_fits [OF assms(1), of 1] assms(3) by (simp add: ts_def)
  have ok: "txs_ok fsOffset blockSize sb ts"
    using number_in [OF assms(2)] fits by (simp add: ts_def)
  define n where "n = 1 + length ess"
  have "init_loop (records ts) 0 = Inr (Some (length ess))"
    using init_records [OF fits, of 0] number_max [of 0 ess] by (simp add: ts_def)
  then have j2: "OpenJournal (records ts) fsOffset blockSize sb = \<lparr>j_js = records ts, j_fsOffset = fsOffset, j_blockSize = blockSize, j_sb = sb,
      j_enabled = True, j_nextSeq = n, j_applySeq = n, j_appendOff = length (records ts)\<rparr>"
    using assms(3) by (simp add: OpenJournal_def initNextSeq_def w64_def n_def)
  have nx: "next_after n ts = n"
    unfolding ts_def n_def by (rule number_next)
  have "replay_loop fsOffset blockSize sb (records ts) n (stores (take k (txs_writes fsOffset blockSize ts)) f) = (Inr (), n, js_dev s')" for k
    using replay_records [OF ok, of "stores (take k (txs_writes fsOffset blockSize ts)) f" "[]" n] assms(4)
      stores_again [of "take k (txs_writes fsOffset blockSize ts)" "drop k (txs_writes fsOffset blockSize ts)" f]
    by (simp add: replay_end s'(3) nx)
  then show ?thesis
    unfolding s_def [symmetric] ts_def [symmetric]
    using s' by (simp add: j2 journal_ready_def ReplayOnOpen_def)
qed

theorem commits_reopen_witness:
  "\<exists>s'. run_commits [sample_tx 3, sample_tx 40] \<lparr>js_journal = OpenJournal [] 0 64 mini_sb, js_dev = mini_dev\<rparr> = Some s'
    \<and> js_dev s' = stores (txs_writes 0 64 [(1, sample_tx 3), (2, sample_tx 40)]) mini_dev
    \<and> (\<exists>s3. ReplayOnOpen \<lparr>js_journal = OpenJournal (j_js (js_journal s')) 0 64 mini_sb, js_dev = mini_dev\<rparr> = (Inr (), s3)
         \<and> js_dev s3 = stores (txs_writes 0 64 [(1, sample_tx 3), (2, sample_tx 40)]) mini_dev)"
proof -
  have "list_all (\<lambda>es. length es < 4294967296 \<and> list_all entry_fits es) [sample_tx 3, sample_tx 40]"
    "list_all (entries_in 0 64 mini_sb) [sample_tx 3, sample_tx 40]"
    by (simp_all add: sample_tx_def entry_fits_def entries_in_def entry_off_def)
  moreover have "length [sample_tx 3, sample_tx 40] < 18446744073709551614"
    by simp
  ultimately obtain s' where
    s': "run_commits [sample_tx 3, sample_tx 40] \<lparr>js_journal = OpenJournal [] 0 64 mini_sb, js_dev = mini_dev\<rparr> = Some s'"
      "js_dev s' = stores (txs_writes 0 64 (number_from 1 [sample_tx 3, sample_tx 40])) mini_dev"
    and r: "\<And>k. \<exists>s3. ReplayOnOpen \<lparr>js_journal = OpenJournal (j_js (js_journal s')) 0 64 mini_sb,
        js_dev = stores (take k (txs_writes 0 64 (number_from 1 [sample_tx 3, sample_tx 40]))) mini_dev\<rparr> = (Inr (), s3) \<and> js_dev s3 = js_dev s'"
    using commits_reopen [OF _ _ _ mini_dev_writable, unfolded Let_def, of "[sample_tx 3, sample_tx 40]" 0 64 mini_sb] by blast
  show ?thesis
    using s' r [of 0] by (auto simp: numeral_2_eq_2)
qed

end
