(* ===== verification/JournalSteps.thy ===== *)
theory JournalSteps
  imports JournalReplay "HOL-Library.Multiset"
begin

text \<open>
  Commits that run at the same time (\<open>src/journal.go\<close>, \<open>Transaction.Commit\<close>).  Each goroutine that
  commits is a \<open>committer\<close>: it takes a sequence number with an atomic add, reserves room in the
  sidecar file, writes the body and then the commit record, waits until \<open>applySeq\<close> is its number,
  writes its entries to the device one after another, and hands the turn on.  \<open>co_step\<close> is one such
  step; the steps of different committers interleave freely.  A failure of \<open>reserveAppend\<close> or of a
  write to the sidecar file (\<open>co_fail\<close>, which may leave a part of the bytes behind) ends a commit
  without handing the turn on.
\<close>

datatype phase = Staged | Numbered | Placed | Logging | Waiting | Applying | Done | Gone

record committer =
  co_entries :: "journalEntry list"
  co_phase :: phase
  co_seq :: u64
  co_off :: "nat option"
  co_applied :: nat

record csys =
  cs_sys :: jsys
  cs_co :: "committer list"

definition co_start :: "journalEntry list \<Rightarrow> committer" where
  "co_start es = \<lparr>co_entries = es, co_phase = Staged, co_seq = 0, co_off = None, co_applied = 0\<rparr>"

definition journal_upd :: "(Journal \<Rightarrow> Journal) \<Rightarrow> jsys \<Rightarrow> jsys" where
  "journal_upd u s = s\<lparr>js_journal := u (js_journal s)\<rparr>"

definition co_body :: "committer \<Rightarrow> byte list" where
  "co_body c = encode_tx (co_seq c) (co_entries c)"

definition co_record :: "committer \<Rightarrow> byte list" where
  "co_record c = tx_record (co_seq c) (co_entries c)"

definition js_write :: "nat \<Rightarrow> byte list \<Rightarrow> jsys \<Rightarrow> jsys" where
  "js_write off data = journal_upd (\<lambda>j. j\<lparr>j_js := file_write (j_js j) off data\<rparr>)"

definition hand_on :: "committer \<Rightarrow> jsys \<Rightarrow> jsys" where
  "hand_on c = journal_upd (\<lambda>j. if j_applySeq j = co_seq c then j\<lparr>j_applySeq := w64 (co_seq c + 1)\<rparr> else j)"

definition co_step :: "committer \<Rightarrow> jsys \<Rightarrow> (committer \<times> jsys) option" where
  "co_step c s =
    (let j = js_journal s in
     case co_phase c of
       Staged \<Rightarrow>
         if \<not> j_enabled j then Some (c\<lparr>co_phase := Done\<rparr>, s)
         else Some (c\<lparr>co_phase := Numbered, co_seq := j_nextSeq j\<rparr>, journal_upd (\<lambda>j. j\<lparr>j_nextSeq := w64 (j_nextSeq j + 1)\<rparr>) s)
     | Numbered \<Rightarrow>
         let (off, j') = reserveAppend (length (co_record c)) j
         in Some (c\<lparr>co_phase := Placed, co_off := Some off\<rparr>, s\<lparr>js_journal := j'\<rparr>)
     | Placed \<Rightarrow> map_option (\<lambda>off. (c\<lparr>co_phase := Logging\<rparr>, js_write off (co_body c) s)) (co_off c)
     | Logging \<Rightarrow>
         map_option (\<lambda>off. (c\<lparr>co_phase := Waiting\<rparr>,
           js_write (off + length (co_body c)) (commit_record (co_seq c) (co_body c)) s)) (co_off c)
     | Waiting \<Rightarrow> if j_applySeq j = co_seq c then Some (c\<lparr>co_phase := Applying\<rparr>, s) else None
     | Applying \<Rightarrow>
         if co_applied c < length (co_entries c) then
           let e = co_entries c ! co_applied c
           in (case writeAtWithTrace (j_fsOffset j) (j_sb j) (entry_off (j_fsOffset j) (j_blockSize j) (je_Block e)) (je_Data e) (js_dev s) of
                 (Inr _, f') \<Rightarrow> Some (c\<lparr>co_applied := co_applied c + 1\<rparr>, s\<lparr>js_dev := f'\<rparr>)
               | (Inl _, f') \<Rightarrow> Some (c\<lparr>co_phase := Gone\<rparr>, hand_on c (s\<lparr>js_dev := f'\<rparr>)))
         else Some (c\<lparr>co_phase := Done\<rparr>, hand_on c s)
     | Done \<Rightarrow> None
     | Gone \<Rightarrow> None)"

definition co_fail :: "nat \<Rightarrow> committer \<Rightarrow> jsys \<Rightarrow> (committer \<times> jsys) option" where
  "co_fail k c s =
    (let c' = c\<lparr>co_phase := Gone\<rparr> in
     case co_phase c of
       Numbered \<Rightarrow> Some (c', s)
     | Placed \<Rightarrow> map_option (\<lambda>off. (c', if k = 0 then s else js_write off (take k (co_body c)) s)) (co_off c)
     | Logging \<Rightarrow> map_option (\<lambda>off. (c', if k = 0 then s else
           js_write (off + length (co_body c)) (take k (commit_record (co_seq c) (co_body c))) s)) (co_off c)
     | _ \<Rightarrow> None)"

text \<open>A step of one of the committers, without and with failures.\<close>

inductive cstep :: "csys \<Rightarrow> csys \<Rightarrow> bool" where
  cstep: "i < length (cs_co s) \<Longrightarrow> co_step (cs_co s ! i) (cs_sys s) = Some (c', t)
    \<Longrightarrow> cstep s \<lparr>cs_sys = t, cs_co = (cs_co s)[i := c']\<rparr>"

inductive fstep :: "csys \<Rightarrow> csys \<Rightarrow> bool" where
  fstep: "cstep s s' \<Longrightarrow> fstep s s'"
| ffail: "i < length (cs_co s) \<Longrightarrow> co_fail k (cs_co s ! i) (cs_sys s) = Some (c', t)
    \<Longrightarrow> fstep s \<lparr>cs_sys = t, cs_co = (cs_co s)[i := c']\<rparr>"

definition start :: "journalEntry list list \<Rightarrow> jsys \<Rightarrow> csys" where
  "start ess s = \<lparr>cs_sys = s, cs_co = map co_start ess\<rparr>"

inductive_cases cstep_cases: "cstep s s'"
inductive_cases fstep_cases: "fstep s s'"

section \<open>What a step may do\<close>

text \<open>
  All moves of a committer, with what they change: the sequence numbers (\<open>take\<close>, \<open>turn\<close>), the
  sidecar file, the device.
\<close>

definition jn :: "csys \<Rightarrow> u64" where "jn s = j_nextSeq (js_journal (cs_sys s))"
definition ja :: "csys \<Rightarrow> u64" where "ja s = j_applySeq (js_journal (cs_sys s))"

definition fixed :: "jsys \<Rightarrow> int \<times> nat \<times> superblock \<times> bool" where
  "fixed s = (j_fsOffset (js_journal s), j_blockSize (js_journal s), j_sb (js_journal s), j_enabled (js_journal s))"

definition moves :: "csys \<Rightarrow> nat \<Rightarrow> committer \<Rightarrow> jsys \<Rightarrow> bool" where
  "moves s i c' t \<longleftrightarrow> i < length (cs_co s) \<and>
    (co_step (cs_co s ! i) (cs_sys s) = Some (c', t) \<or> (\<exists>k. co_fail k (cs_co s ! i) (cs_sys s) = Some (c', t)))"

lemma fstep_moves: "fstep s s' \<longleftrightarrow> (\<exists>i c' t. moves s i c' t \<and> s' = \<lparr>cs_sys = t, cs_co = (cs_co s)[i := c']\<rparr>)"
  by (auto simp: moves_def elim!: fstep_cases cstep_cases intro: fstep.intros cstep.intros)

lemma upd_simps [simp]:
  "js_dev (journal_upd u s) = js_dev s" "js_journal (journal_upd u s) = u (js_journal s)"
  "js_dev (js_write off d s) = js_dev s" "js_dev (hand_on c s) = js_dev s"
  "j_nextSeq (js_journal (js_write off d s)) = j_nextSeq (js_journal s)" "j_applySeq (js_journal (js_write off d s)) = j_applySeq (js_journal s)"
  "j_nextSeq (js_journal (hand_on c s)) = j_nextSeq (js_journal s)" "j_js (js_journal (hand_on c s)) = j_js (js_journal s)"
  "j_appendOff (js_journal (hand_on c s)) = j_appendOff (js_journal s)" "j_appendOff (js_journal (js_write off d s)) = j_appendOff (js_journal s)"
  "j_js (js_journal (js_write off d s)) = file_write (j_js (js_journal s)) off d"
  by (simp_all add: journal_upd_def js_write_def hand_on_def)

lemma fixed_upd [simp]: "fixed (js_write off d s) = fixed s" "fixed (hand_on c s) = fixed s" "fixed (s\<lparr>js_dev := f\<rparr>) = fixed s"
  by (simp_all add: fixed_def journal_upd_def js_write_def hand_on_def)

text \<open>The cases of a move, stated for the proofs of the invariants.\<close>

lemma moves_cases:
  assumes "moves s i c' t" "j_enabled (js_journal (cs_sys s))"
  obtains (number) "co_phase (cs_co s ! i) = Staged" "c' = (cs_co s ! i)\<lparr>co_phase := Numbered, co_seq := jn s\<rparr>"
      "t = journal_upd (\<lambda>j. j\<lparr>j_nextSeq := w64 (j_nextSeq j + 1)\<rparr>) (cs_sys s)"
  | (place) off j' where "co_phase (cs_co s ! i) = Numbered" "c' = (cs_co s ! i)\<lparr>co_phase := Placed, co_off := Some off\<rparr>"
      "reserveAppend (length (co_record (cs_co s ! i))) (js_journal (cs_sys s)) = (off, j')" "t = (cs_sys s)\<lparr>js_journal := j'\<rparr>"
  | (body) off where "co_phase (cs_co s ! i) = Placed" "co_off (cs_co s ! i) = Some off" "c' = (cs_co s ! i)\<lparr>co_phase := Logging\<rparr>"
      "t = js_write off (co_body (cs_co s ! i)) (cs_sys s)"
  | (seal) off where "co_phase (cs_co s ! i) = Logging" "co_off (cs_co s ! i) = Some off" "c' = (cs_co s ! i)\<lparr>co_phase := Waiting\<rparr>"
      "t = js_write (off + length (co_body (cs_co s ! i))) (commit_record (co_seq (cs_co s ! i)) (co_body (cs_co s ! i))) (cs_sys s)"
  | (turn) "co_phase (cs_co s ! i) = Waiting" "ja s = co_seq (cs_co s ! i)" "c' = (cs_co s ! i)\<lparr>co_phase := Applying\<rparr>" "t = cs_sys s"
  | (store) e f' where "co_phase (cs_co s ! i) = Applying" "co_applied (cs_co s ! i) < length (co_entries (cs_co s ! i))"
      "e = co_entries (cs_co s ! i) ! co_applied (cs_co s ! i)" "c' = (cs_co s ! i)\<lparr>co_applied := co_applied (cs_co s ! i) + 1\<rparr>"
      "t = (cs_sys s)\<lparr>js_dev := f'\<rparr>"
      "f' = dev_store (js_dev (cs_sys s)) (nat (entry_off (j_fsOffset (js_journal (cs_sys s))) (j_blockSize (js_journal (cs_sys s))) (je_Block e))) (je_Data e)"
  | (broken) "co_phase (cs_co s ! i) = Applying" "c' = (cs_co s ! i)\<lparr>co_phase := Gone\<rparr>" "t = hand_on (cs_co s ! i) (cs_sys s)"
  | (finish) "co_phase (cs_co s ! i) = Applying" "co_applied (cs_co s ! i) \<ge> length (co_entries (cs_co s ! i))"
      "c' = (cs_co s ! i)\<lparr>co_phase := Done\<rparr>" "t = hand_on (cs_co s ! i) (cs_sys s)"
  | (lost) "co_phase (cs_co s ! i) \<in> {Numbered, Placed, Logging}" "c' = (cs_co s ! i)\<lparr>co_phase := Gone\<rparr>" "t = cs_sys s"
  | (torn_body) off k where "co_phase (cs_co s ! i) = Placed" "co_off (cs_co s ! i) = Some off" "c' = (cs_co s ! i)\<lparr>co_phase := Gone\<rparr>"
      "t = js_write off (take k (co_body (cs_co s ! i))) (cs_sys s)"
  | (torn_seal) off k where "co_phase (cs_co s ! i) = Logging" "co_off (cs_co s ! i) = Some off" "c' = (cs_co s ! i)\<lparr>co_phase := Gone\<rparr>"
      "t = js_write (off + length (co_body (cs_co s ! i))) (take k (commit_record (co_seq (cs_co s ! i)) (co_body (cs_co s ! i)))) (cs_sys s)"
proof (cases "co_phase (cs_co s ! i)")
  case Staged
  then show ?thesis
    using assms number by (simp add: moves_def co_step_def co_fail_def Let_def jn_def)
next
  case Numbered
  obtain off j' where r: "reserveAppend (length (co_record (cs_co s ! i))) (js_journal (cs_sys s)) = (off, j')"
    by (cases "reserveAppend (length (co_record (cs_co s ! i))) (js_journal (cs_sys s))")
  show ?thesis
    using assms(1) Numbered r place [OF Numbered _ r] lost by (auto simp: moves_def co_step_def co_fail_def Let_def)
next
  case Placed
  then show ?thesis
    using assms(1) body [OF Placed] torn_body [OF Placed] lost by (auto simp: moves_def co_step_def co_fail_def Let_def split: if_splits)
next
  case Logging
  then show ?thesis
    using assms(1) seal [OF Logging] torn_seal [OF Logging] lost by (auto simp: moves_def co_step_def co_fail_def Let_def split: if_splits)
next
  case Waiting
  then show ?thesis
    using assms(1) turn by (simp add: moves_def co_step_def co_fail_def Let_def ja_def split: if_splits)
next
  case Applying
  define e where "e = co_entries (cs_co s ! i) ! co_applied (cs_co s ! i)"
  define off where "off = entry_off (j_fsOffset (js_journal (cs_sys s))) (j_blockSize (js_journal (cs_sys s))) (je_Block e)"
  show ?thesis
  proof (cases "co_applied (cs_co s ! i) < length (co_entries (cs_co s ! i))")
    case True
    have st: "(case WriteAt off (je_Data e) (js_dev (cs_sys s)) of
           (Inr _, f') \<Rightarrow> Some ((cs_co s ! i)\<lparr>co_applied := co_applied (cs_co s ! i) + 1\<rparr>, (cs_sys s)\<lparr>js_dev := f'\<rparr>)
         | (Inl _, f') \<Rightarrow> Some ((cs_co s ! i)\<lparr>co_phase := Gone\<rparr>, hand_on (cs_co s ! i) ((cs_sys s)\<lparr>js_dev := f'\<rparr>))) = Some (c', t)"
      using assms(1) Applying True by (simp add: moves_def co_step_def co_fail_def Let_def writeAtWithTrace_eq off_def e_def)
    show ?thesis
    proof (cases "dev_writable (js_dev (cs_sys s)) \<and> 0 \<le> off")
      case w: True
      show ?thesis
        using st w by (intro store [OF Applying True e_def _ _ refl]) (auto simp: WriteAt_def off_def)
    next
      case False
      then show ?thesis
        using st by (intro broken [OF Applying]) (auto simp: WriteAt_def split: if_splits)
    qed
  next
    case False
    then show ?thesis
      using assms(1) Applying finish by (simp add: moves_def co_step_def co_fail_def Let_def not_less)
  qed
qed (use assms(1) in \<open>simp_all add: moves_def co_step_def co_fail_def Let_def\<close>)

section \<open>The order of the turns\<close>

definition numbered :: "committer \<Rightarrow> bool" where
  "numbered c \<longleftrightarrow> co_phase c \<noteq> Staged"

definition co_ok :: "nat \<Rightarrow> nat \<Rightarrow> nat \<Rightarrow> committer \<Rightarrow> bool" where
  "co_ok n0 a n c \<longleftrightarrow> co_applied c \<le> length (co_entries c) \<and> (numbered c \<longrightarrow> n0 \<le> co_seq c \<and> co_seq c < n) \<and>
    (case co_phase c of
       Staged \<Rightarrow> co_applied c = 0
     | Applying \<Rightarrow> co_seq c = a
     | Done \<Rightarrow> co_seq c < a \<and> co_applied c = length (co_entries c)
     | Gone \<Rightarrow> co_seq c < a \<or> co_applied c = 0
     | _ \<Rightarrow> co_applied c = 0 \<and> a \<le> co_seq c)"

text \<open>The invariant of the numbers: every committer is where its number lets it be, the numbers
  handed out are different, and none is left out.\<close>

definition turns_ok :: "nat \<Rightarrow> csys \<Rightarrow> bool" where
  "turns_ok n0 s \<longleftrightarrow>
    n0 \<le> ja s \<and> ja s \<le> jn s \<and> jn s = n0 + length (filter numbered (cs_co s)) \<and> n0 + length (cs_co s) < 18446744073709551616
    \<and> j_enabled (js_journal (cs_sys s))
    \<and> (\<forall>i<length (cs_co s). co_ok n0 (ja s) (jn s) (cs_co s ! i))
    \<and> (\<forall>i<length (cs_co s). \<forall>k<length (cs_co s). numbered (cs_co s ! i) \<longrightarrow> numbered (cs_co s ! k)
        \<longrightarrow> co_seq (cs_co s ! i) = co_seq (cs_co s ! k) \<longrightarrow> i = k)
    \<and> (\<forall>q. n0 \<le> q \<longrightarrow> q < jn s \<longrightarrow> (\<exists>i<length (cs_co s). numbered (cs_co s ! i) \<and> co_seq (cs_co s ! i) = q))"

lemma filter_update_count:
  "i < length xs \<Longrightarrow> length (filter P (xs[i := x])) + (if P (xs ! i) then 1 else 0) = length (filter P xs) + (if P x then 1 else 0)"
proof (induction xs arbitrary: i)
  case (Cons y ys)
  show ?case
  proof (cases i)
    case (Suc k)
    then show ?thesis
      using Cons.IH [of k] Cons.prems by (simp split: if_splits)
  qed simp
qed simp

lemma turns_co: "turns_ok n0 s \<Longrightarrow> k < length (cs_co s) \<Longrightarrow> co_ok n0 (ja s) (jn s) (cs_co s ! k)"
  unfolding turns_ok_def by blast

lemma turns_enabled: "turns_ok n0 s \<Longrightarrow> j_enabled (js_journal (cs_sys s))"
  unfolding turns_ok_def by blast

lemma seq_room:
  assumes "turns_ok n0 s" "i < length (cs_co s)" "\<not> numbered (cs_co s ! i)"
  shows "jn s + 1 < 18446744073709551616"
proof -
  have "length (filter numbered (cs_co s)) < length (cs_co s)"
    using assms(2,3) by (intro length_filter_less) auto
  then show ?thesis
    using assms(1) by (simp add: turns_ok_def)
qed

text \<open>A move that keeps the numbers: only what a committer's own phase says has to be checked.\<close>

lemma turns_same:
  assumes ok: "turns_ok n0 s" and i: "i < length (cs_co s)" and c: "numbered (cs_co s ! i)" "numbered c'" "co_seq c' = co_seq (cs_co s ! i)"
    and t: "j_nextSeq (js_journal t) = jn s" "j_applySeq (js_journal t) = ja s" "fixed t = fixed (cs_sys s)"
    and c': "co_ok n0 (ja s) (jn s) c'"
  shows "turns_ok n0 \<lparr>cs_sys = t, cs_co = (cs_co s)[i := c']\<rparr>"
proof -
  have "length (filter numbered ((cs_co s)[i := c'])) = length (filter numbered (cs_co s))"
    using filter_update_count [OF i, of numbered c'] c by simp
  moreover have "numbered ((cs_co s)[i := c'] ! k) = numbered (cs_co s ! k)" "co_seq ((cs_co s)[i := c'] ! k) = co_seq (cs_co s ! k)" for k
    using c i by (cases "k = i"; simp)+
  moreover have "co_ok n0 (ja s) (jn s) ((cs_co s)[i := c'] ! k)" if "k < length (cs_co s)" for k
    using turns_co [OF ok that] c' i by (cases "k = i") simp_all
  ultimately show ?thesis
    using ok t by (simp add: turns_ok_def jn_def ja_def fixed_def)
qed

text \<open>Handing the turn on: the committer that had it is the only one that could have it.\<close>

lemma turns_hand_on:
  assumes ok: "turns_ok n0 s" and i: "i < length (cs_co s)" and c: "co_phase (cs_co s ! i) = Applying"
    and c': "numbered c'" "co_seq c' = co_seq (cs_co s ! i)" "co_ok n0 (ja s + 1) (jn s) c'"
  shows "turns_ok n0 \<lparr>cs_sys = hand_on (cs_co s ! i) (cs_sys s), cs_co = (cs_co s)[i := c']\<rparr>"
proof -
  define t where "t = hand_on (cs_co s ! i) (cs_sys s)"
  have ci: "numbered (cs_co s ! i)" "co_seq (cs_co s ! i) = ja s" "ja s < jn s"
    using ok i c by (auto simp: turns_ok_def co_ok_def numbered_def)
  have len: "length (filter numbered ((cs_co s)[i := c'])) = length (filter numbered (cs_co s))"
    using filter_update_count [OF i, of numbered c'] ci(1) c'(1) by simp
  have "jn s \<le> n0 + length (cs_co s)" "n0 + length (cs_co s) < 18446744073709551616"
    using ok length_filter_le [of numbered "cs_co s"] by (auto simp: turns_ok_def)
  then have a: "j_applySeq (js_journal t) = ja s + 1"
    using ci by (simp add: t_def hand_on_def ja_def w64_def)
  have rest: "j_nextSeq (js_journal t) = jn s" "j_enabled (js_journal t) = j_enabled (js_journal (cs_sys s))"
    using fixed_upd(2) [of "cs_co s ! i" "cs_sys s"] by (simp_all add: t_def jn_def fixed_def)
  have other: "co_ok n0 (ja s + 1) (jn s) ((cs_co s)[i := c'] ! k)" if k: "k < length (cs_co s)" for k
  proof (cases "k = i")
    case False
    have "numbered (cs_co s ! k) \<Longrightarrow> co_seq (cs_co s ! k) \<noteq> ja s"
      using ok False k i ci by (auto simp: turns_ok_def)
    moreover note turns_co [OF ok k]
    ultimately show ?thesis
      using False by (auto simp: co_ok_def numbered_def split: phase.splits)
  qed (use c' i in simp)
  have "numbered ((cs_co s)[i := c'] ! k) = numbered (cs_co s ! k)" "co_seq ((cs_co s)[i := c'] ! k) = co_seq (cs_co s ! k)" for k
    using ci c' i by (cases "k = i"; simp)+
  then show ?thesis
    using ok a rest len other ci(3) unfolding t_def [symmetric] by (simp add: turns_ok_def jn_def ja_def)
qed

lemma turns_number:
  assumes ok: "turns_ok n0 s" and i: "i < length (cs_co s)" and c: "co_phase (cs_co s ! i) = Staged"
  shows "turns_ok n0 \<lparr>cs_sys = journal_upd (\<lambda>j. j\<lparr>j_nextSeq := w64 (j_nextSeq j + 1)\<rparr>) (cs_sys s),
    cs_co = (cs_co s)[i := (cs_co s ! i)\<lparr>co_phase := Numbered, co_seq := jn s\<rparr>]\<rparr>"
proof -
  define c' where "c' = (cs_co s ! i)\<lparr>co_phase := Numbered, co_seq := jn s\<rparr>"
  define t where "t = journal_upd (\<lambda>j. j\<lparr>j_nextSeq := w64 (j_nextSeq j + 1)\<rparr>) (cs_sys s)"
  have nn: "\<not> numbered (cs_co s ! i)" "numbered c'" "co_seq c' = jn s"
    using c by (simp_all add: numbered_def c'_def)
  have len: "length (filter numbered ((cs_co s)[i := c'])) = length (filter numbered (cs_co s)) + 1"
    using filter_update_count [OF i, of numbered c'] nn by simp
  have n: "j_nextSeq (js_journal t) = jn s + 1" "j_applySeq (js_journal t) = ja s" "j_enabled (js_journal t) = j_enabled (js_journal (cs_sys s))"
    using seq_room [OF ok i nn(1)] by (simp_all add: t_def jn_def ja_def w64_def)
  note okk = turns_co [OF ok]
  have seqs: "co_seq (cs_co s ! k) < jn s" if "k < length (cs_co s)" "numbered (cs_co s ! k)" for k
    using okk [OF that(1)] that(2) by (simp add: co_ok_def)
  have "co_ok n0 (ja s) (jn s + 1) ((cs_co s)[i := c'] ! k)" if k: "k < length (cs_co s)" for k
  proof (cases "k = i")
    case True
    then show ?thesis
      using okk [OF k] ok c i by (auto simp: co_ok_def turns_ok_def c'_def numbered_def)
  next
    case False
    then show ?thesis
      using okk [OF k] by (auto simp: co_ok_def split: phase.splits)
  qed
  moreover have "k = l" if kl: "k < length (cs_co s)" "l < length (cs_co s)" "numbered ((cs_co s)[i := c'] ! k)" "numbered ((cs_co s)[i := c'] ! l)"
      "co_seq ((cs_co s)[i := c'] ! k) = co_seq ((cs_co s)[i := c'] ! l)" for k l
  proof -
    have "k \<noteq> i \<Longrightarrow> l \<noteq> i \<Longrightarrow> k = l"
      using kl ok by (simp add: turns_ok_def)
    then show ?thesis
      using kl nn(3) i seqs [of k] seqs [of l] by (cases "k = i"; cases "l = i") auto
  qed
  moreover have "\<exists>k<length (cs_co s). numbered ((cs_co s)[i := c'] ! k) \<and> co_seq ((cs_co s)[i := c'] ! k) = q" if q: "n0 \<le> q" "q < jn s + 1" for q
  proof (cases "q = jn s")
    case True
    then show ?thesis
      using i nn by (intro exI [of _ i]) simp
  next
    case False
    then obtain k where "k < length (cs_co s)" "numbered (cs_co s ! k)" "co_seq (cs_co s ! k) = q"
      using ok q by (auto simp: turns_ok_def)
    moreover have "k \<noteq> i"
      using calculation nn(1) by auto
    ultimately show ?thesis
      by (intro exI [of _ k]) simp
  qed
  ultimately show ?thesis
    using ok n len unfolding t_def [symmetric] c'_def [symmetric] by (simp add: turns_ok_def jn_def ja_def)
qed

lemma turns_moves:
  assumes ok: "turns_ok n0 s" and m: "moves s i c' t"
  shows "turns_ok n0 \<lparr>cs_sys = t, cs_co = (cs_co s)[i := c']\<rparr>"
proof -
  have i: "i < length (cs_co s)"
    using m by (simp add: moves_def)
  note ci = turns_co [OF ok i] and en = turns_enabled [OF ok]
  note same = turns_same [OF ok i] and hand = turns_hand_on [OF ok i]
  from m en show ?thesis
  proof (cases rule: moves_cases)
    case number
    then show ?thesis
      using turns_number [OF ok i] by simp
  next
    case (place off j')
    then show ?thesis
      using ci by (intro same) (auto simp: co_ok_def numbered_def fixed_def jn_def ja_def reserveAppend_def Let_def)
  next
    case broken
    then show ?thesis
      using ci by (simp, intro hand) (auto simp: co_ok_def numbered_def)
  next
    case finish
    then show ?thesis
      using ci by (simp, intro hand) (auto simp: co_ok_def numbered_def)
  qed (use ci in \<open>intro same; auto simp: co_ok_def numbered_def jn_def ja_def\<close>)+
qed

lemma turns_fsteps:
  assumes "fstep\<^sup>*\<^sup>* s s'" "turns_ok n0 s"
  shows "turns_ok n0 s'"
  using assms by (induction rule: rtranclp_induct) (auto simp: fstep_moves turns_moves)

lemma turns_start:
  assumes "journal_ready s" "j_nextSeq (js_journal s) + length ess < 18446744073709551616"
  shows "turns_ok (j_nextSeq (js_journal s)) (start ess s)"
  using assms by (auto simp: turns_ok_def start_def co_start_def journal_ready_def Let_def jn_def ja_def co_ok_def numbered_def filter_empty_conv)

section \<open>What is on the device\<close>

definition co_writes :: "jsys \<Rightarrow> committer \<Rightarrow> (nat \<times> byte list) list" where
  "co_writes t c = entry_writes (j_fsOffset (js_journal t)) (j_blockSize (js_journal t)) (take (co_applied c) (co_entries c))"

definition turn_writes :: "csys \<Rightarrow> u64 \<Rightarrow> (nat \<times> byte list) list" where
  "turn_writes s q = concat (map (\<lambda>c. if co_seq c = q then co_writes (cs_sys s) c else []) (cs_co s))"

text \<open>The writes of all turns, in the order of the sequence numbers.\<close>

definition serial_writes :: "nat \<Rightarrow> csys \<Rightarrow> (nat \<times> byte list) list" where
  "serial_writes n0 s = concat (map (turn_writes s) [n0..<n0 + length (cs_co s)])"

lemma co_writes_fixed: "fixed t = fixed t' \<Longrightarrow> co_writes t c = co_writes t' c"
  by (simp add: co_writes_def fixed_def)

lemma turn_writes_same:
  assumes "i < length (cs_co s)" "fixed t = fixed (cs_sys s)"
    and "(if co_seq c' = q then co_writes t c' else []) = (if co_seq (cs_co s ! i) = q then co_writes t (cs_co s ! i) else [])"
  shows "turn_writes \<lparr>cs_sys = t, cs_co = (cs_co s)[i := c']\<rparr> q = turn_writes s q"
proof -
  define F where "F = (\<lambda>c. if co_seq c = q then co_writes t c else [])"
  have "map F ((cs_co s)[i := c']) = map F (cs_co s)"
    using assms(1,3) by (simp add: map_update list_update_same_conv F_def)
  moreover have "F = (\<lambda>c. if co_seq c = q then co_writes (cs_sys s) c else [])"
    using co_writes_fixed [OF assms(2)] by (auto simp: F_def)
  ultimately show ?thesis
    by (simp add: turn_writes_def F_def cong: if_cong)
qed

lemma concat_only: "i < length xs \<Longrightarrow> (\<And>k. k < length xs \<Longrightarrow> k \<noteq> i \<Longrightarrow> xs ! k = []) \<Longrightarrow> concat xs = xs ! i"
proof (induction xs arbitrary: i)
  case (Cons y ys)
  show ?case
  proof (cases i)
    case 0
    have "\<forall>x\<in>set ys. x = []"
      using Cons.prems(2) [of "Suc _"] 0 by (auto simp: in_set_conv_nth)
    then show ?thesis
      using 0 by simp
  next
    case (Suc m)
    then show ?thesis
      using Cons.IH [of m] Cons.prems(1) Cons.prems(2) [of 0] Cons.prems(2) [of "Suc _"] by simp
  qed
qed simp

lemma turn_writes_own:
  assumes "turns_ok n0 s" "i < length (cs_co s)" "numbered (cs_co s ! i)"
  shows "turn_writes s (co_seq (cs_co s ! i)) = co_writes (cs_sys s) (cs_co s ! i)"
proof -
  define F where "F = (\<lambda>c. if co_seq c = co_seq (cs_co s ! i) then co_writes (cs_sys s) c else [])"
  have "map F (cs_co s) ! k = []" if k: "k < length (map F (cs_co s))" "k \<noteq> i" for k
  proof (cases "numbered (cs_co s ! k)")
    case True
    then show ?thesis
      using assms k by (auto simp: F_def turns_ok_def)
  next
    case False
    then show ?thesis
      using turns_co [OF assms(1), of k] k by (simp add: F_def co_ok_def numbered_def co_writes_def entry_writes_def)
  qed
  then have "concat (map F (cs_co s)) = map F (cs_co s) ! i"
    using assms(2) by (intro concat_only) auto
  then show ?thesis
    using assms(2) by (simp add: turn_writes_def F_def)
qed

lemma turn_writes_later:
  assumes "turns_ok n0 s" "ja s < q"
  shows "turn_writes s q = []"
proof -
  have "co_writes (cs_sys s) c = []" if c: "c \<in> set (cs_co s)" "co_seq c = q" for c
  proof -
    have "co_ok n0 (ja s) (jn s) c"
      using c(1) turns_co [OF assms(1)] by (auto simp: in_set_conv_nth)
    then have "co_applied c = 0"
      using c(2) assms(2) by (auto simp: co_ok_def split: phase.splits)
    then show ?thesis
      by (simp add: co_writes_def entry_writes_def)
  qed
  then show ?thesis
    by (auto simp: turn_writes_def)
qed

lemma turn_bound: "turns_ok n0 s \<Longrightarrow> jn s \<le> n0 + length (cs_co s)"
  by (simp add: turns_ok_def)

lemma serial_split:
  assumes "turns_ok n0 s" "ja s < jn s"
  shows "serial_writes n0 s = concat (map (turn_writes s) [n0..<ja s]) @ turn_writes s (ja s)"
proof -
  have "n0 \<le> ja s"
    using assms(1) unfolding turns_ok_def by blast
  then have a: "n0 \<le> ja s" "ja s < n0 + length (cs_co s)"
    using assms(2) turn_bound [OF assms(1)] by linarith+
  have "[n0..<n0 + length (cs_co s)] = [n0..<ja s] @ ja s # [Suc (ja s)..<n0 + length (cs_co s)]"
    using a upt_add_eq_append [of n0 "ja s" "n0 + length (cs_co s) - ja s"] by (simp add: upt_conv_Cons)
  moreover have "concat (map (turn_writes s) [Suc (ja s)..<n0 + length (cs_co s)]) = []"
    using turn_writes_later [OF assms(1)] by simp
  ultimately show ?thesis
    by (simp add: serial_writes_def)
qed

lemma serial_moves:
  assumes ok: "turns_ok n0 s" and dev: "js_dev (cs_sys s) = stores (serial_writes n0 s) f0" and m: "moves s i c' t"
  shows "js_dev t = stores (serial_writes n0 \<lparr>cs_sys = t, cs_co = (cs_co s)[i := c']\<rparr>) f0" (is "_ = stores (serial_writes n0 ?s') f0")
proof -
  have i: "i < length (cs_co s)"
    using m by (simp add: moves_def)
  note ci = turns_co [OF ok i] and en = turns_enabled [OF ok]
  have same: "js_dev t = stores (serial_writes n0 ?s') f0"
    if "js_dev t = js_dev (cs_sys s)" "fixed t = fixed (cs_sys s)" "co_applied (cs_co s ! i) = 0 \<and> co_applied c' = 0 \<or>
      co_seq c' = co_seq (cs_co s ! i) \<and> co_entries c' = co_entries (cs_co s ! i) \<and> co_applied c' = co_applied (cs_co s ! i)"
  proof -
    have "turn_writes ?s' = turn_writes s"
      using that by (intro ext turn_writes_same [OF i]) (auto simp: co_writes_def entry_writes_def)
    then show ?thesis
      using dev that(1) by (simp add: serial_writes_def)
  qed
  from m en show ?thesis
  proof (cases rule: moves_cases)
    case (store e f')
    have n: "numbered (cs_co s ! i)" "co_seq (cs_co s ! i) = ja s" "ja s < jn s"
      using ci store(1) by (auto simp: co_ok_def numbered_def)
    have ok': "turns_ok n0 ?s'"
      by (rule turns_moves [OF ok m])
    have seq: "ja ?s' = ja s" "jn ?s' = jn s" "fixed t = fixed (cs_sys s)"
      using store by (simp_all add: ja_def jn_def)
    have before: "map (turn_writes ?s') [n0..<ja s] = map (turn_writes s) [n0..<ja s]"
      using n store by (intro map_cong turn_writes_same [OF i seq(3)]) auto
    have "turn_writes ?s' (ja s) = co_writes t c'"
      using turn_writes_own [OF ok', of i] i n store by (simp add: numbered_def)
    also have "\<dots> = co_writes (cs_sys s) (cs_co s ! i) @ entry_writes (j_fsOffset (js_journal (cs_sys s))) (j_blockSize (js_journal (cs_sys s))) [e]"
      using store by (simp add: co_writes_def entry_writes_def take_Suc_conv_app_nth)
    also have "co_writes (cs_sys s) (cs_co s ! i) = turn_writes s (ja s)"
      using turn_writes_own [OF ok i n(1)] n(2) by simp
    finally have "serial_writes n0 ?s' = serial_writes n0 s @ entry_writes (j_fsOffset (js_journal (cs_sys s))) (j_blockSize (js_journal (cs_sys s))) [e]"
      using serial_split [OF ok n(3)] serial_split [OF ok'] n(3) seq before by simp
    then show ?thesis
      using store dev by (simp add: stores_append entry_writes_def)
  next
    case number
    show ?thesis
      by (rule same) (use number ci in \<open>auto simp: fixed_def co_ok_def\<close>)
  next
    case (place off j')
    show ?thesis
      by (rule same) (use place in \<open>auto simp: fixed_def reserveAppend_def Let_def\<close>)
  qed (intro same; simp)+
qed

lemma serial_fsteps:
  assumes "fstep\<^sup>*\<^sup>* s s'" "turns_ok n0 s" "js_dev (cs_sys s) = stores (serial_writes n0 s) f0"
  shows "js_dev (cs_sys s') = stores (serial_writes n0 s') f0"
  using assms
proof (induction rule: rtranclp_induct)
  case (step s1 s2)
  obtain i c' t where "moves s1 i c' t" "s2 = \<lparr>cs_sys = t, cs_co = (cs_co s1)[i := c']\<rparr>"
    using step(2) fstep_moves by blast
  then show ?case
    using serial_moves [OF turns_fsteps [OF step(1) step.prems(1)] step.IH [OF step.prems]] by simp
qed simp

section \<open>What is in the sidecar file\<close>

definition holds_at :: "byte list \<Rightarrow> nat \<Rightarrow> byte list \<Rightarrow> bool" where
  "holds_at js off r \<longleftrightarrow> off + length r \<le> length js \<and> take (length r) (drop off js) = r"

definition apart :: "nat \<Rightarrow> nat \<Rightarrow> nat \<Rightarrow> nat \<Rightarrow> bool" where
  "apart p n q m \<longleftrightarrow> p + n \<le> q \<or> q + m \<le> p"

lemma holds_nth: "holds_at js off r \<longleftrightarrow> off + length r \<le> length js \<and> (\<forall>k<length r. js ! (off + k) = r ! k)"
  by (auto simp: holds_at_def list_eq_iff_nth_eq)

lemma file_write_length: "length (file_write js off d) = max (length js) (off + length d)"
  by (auto simp: file_write_def zeros_def)

lemma file_write_nth:
  "k < length (file_write js off d) \<Longrightarrow> file_write js off d ! k =
    (if off \<le> k \<and> k < off + length d then d ! (k - off) else if k < length js then js ! k else 0)"
  by (auto simp: file_write_def zeros_def nth_append min_def)

lemma holds_written: "holds_at (file_write js off d) off d"
  by (simp add: holds_nth file_write_length file_write_nth)

lemma holds_kept: "holds_at js o' r \<Longrightarrow> apart o' (length r) off (length d) \<Longrightarrow> holds_at (file_write js off d) o' r"
  by (auto simp: holds_nth file_write_length file_write_nth apart_def)

lemma holds_append: "holds_at js off (a @ b) \<longleftrightarrow> holds_at js off a \<and> holds_at js (off + length a) b"
  by (auto simp: holds_at_def take_add add.commute)

definition logged :: "committer \<Rightarrow> bool" where
  "logged c \<longleftrightarrow> co_phase c \<in> {Waiting, Applying, Done} \<or> 0 < co_applied c"

definition log_co :: "Journal \<Rightarrow> byte list \<Rightarrow> committer \<Rightarrow> bool" where
  "log_co j js0 c \<longleftrightarrow>
    (case co_off c of
       None \<Rightarrow> co_phase c \<in> {Staged, Numbered, Gone} \<and> co_applied c = 0
     | Some off \<Rightarrow> numbered c \<and> co_phase c \<noteq> Numbered \<and> length js0 \<le> off \<and> off + length (co_record c) \<le> j_appendOff j
         \<and> (co_phase c = Logging \<longrightarrow> holds_at (j_js j) off (co_body c))
         \<and> (logged c \<longrightarrow> holds_at (j_js j) off (co_record c)))"

definition ranges_apart :: "committer \<Rightarrow> committer \<Rightarrow> bool" where
  "ranges_apart c d \<longleftrightarrow>
    (case (co_off c, co_off d) of (Some p, Some q) \<Rightarrow> apart p (length (co_record c)) q (length (co_record d)) | _ \<Rightarrow> True)"

definition log_ok :: "byte list \<Rightarrow> csys \<Rightarrow> bool" where
  "log_ok js0 s \<longleftrightarrow> holds_at (j_js (js_journal (cs_sys s))) 0 js0
    \<and> (\<forall>k<length (cs_co s). log_co (js_journal (cs_sys s)) js0 (cs_co s ! k))
    \<and> (\<forall>k<length (cs_co s). \<forall>l<length (cs_co s). k \<noteq> l \<longrightarrow> ranges_apart (cs_co s ! k) (cs_co s ! l))"

lemma log_update:
  assumes ok: "log_ok js0 s" and i: "i < length (cs_co s)"
    and js0: "holds_at (j_js (js_journal t)) 0 js0" and c': "log_co (js_journal t) js0 c'"
    and other: "\<And>k. k < length (cs_co s) \<Longrightarrow> k \<noteq> i \<Longrightarrow> log_co (js_journal t) js0 (cs_co s ! k)"
    and apart: "\<And>k. k < length (cs_co s) \<Longrightarrow> k \<noteq> i \<Longrightarrow> ranges_apart c' (cs_co s ! k)"
  shows "log_ok js0 \<lparr>cs_sys = t, cs_co = (cs_co s)[i := c']\<rparr>"
proof -
  have sym: "ranges_apart d e \<Longrightarrow> ranges_apart e d" for d e
    by (auto simp: ranges_apart_def apart_def split: option.splits)
  have "log_co (js_journal t) js0 ((cs_co s)[i := c'] ! k)" if "k < length (cs_co s)" for k
    using that i c' other by (cases "k = i") simp_all
  moreover have "ranges_apart ((cs_co s)[i := c'] ! k) ((cs_co s)[i := c'] ! l)" if "k < length (cs_co s)" "l < length (cs_co s)" "k \<noteq> l" for k l
    using that i apart [of k] apart [of l] sym ok by (cases "k = i"; cases "l = i") (auto simp: log_ok_def)
  ultimately show ?thesis
    using js0 by (simp add: log_ok_def)
qed

text \<open>Moves that leave the file alone.\<close>

lemma log_quiet:
  assumes ok: "log_ok js0 s" and i: "i < length (cs_co s)"
    and t: "j_js (js_journal t) = j_js (js_journal (cs_sys s))" "j_appendOff (js_journal t) = j_appendOff (js_journal (cs_sys s))"
    and c': "log_co (js_journal (cs_sys s)) js0 c'" "co_off c' = co_off (cs_co s ! i)"
      "co_off c' \<noteq> None \<Longrightarrow> co_record c' = co_record (cs_co s ! i)"
  shows "log_ok js0 \<lparr>cs_sys = t, cs_co = (cs_co s)[i := c']\<rparr>"
proof (rule log_update [OF ok i])
  have eq: "log_co (js_journal t) js0 c = log_co (js_journal (cs_sys s)) js0 c" for c
    using t by (simp add: log_co_def split: option.split)
  show "holds_at (j_js (js_journal t)) 0 js0" "log_co (js_journal t) js0 c'"
    using ok c'(1) t by (simp_all add: log_ok_def eq)
  fix k
  assume k: "k < length (cs_co s)" "k \<noteq> i"
  show "log_co (js_journal t) js0 (cs_co s ! k)"
    using ok k by (simp add: log_ok_def eq)
  have "ranges_apart (cs_co s ! i) (cs_co s ! k)"
    using ok k i by (simp add: log_ok_def)
  then show "ranges_apart c' (cs_co s ! k)"
    using c'(2,3) by (auto simp: ranges_apart_def split: option.splits)
qed

text \<open>Writes into the committer's own part of the file.\<close>

lemma log_write:
  assumes ok: "log_ok js0 s" and i: "i < length (cs_co s)" and off: "co_off (cs_co s ! i) = Some off" "off \<le> p" "p + length d \<le> off + length (co_record (cs_co s ! i))"
    and c': "co_off c' = Some off" "co_record c' = co_record (cs_co s ! i)"
      "log_co (js_journal (js_write p d (cs_sys s))) js0 c'"
  shows "log_ok js0 \<lparr>cs_sys = js_write p d (cs_sys s), cs_co = (cs_co s)[i := c']\<rparr>"
proof (rule log_update [OF ok i _ c'(3)])
  define j where "j = js_journal (cs_sys s)"
  have ci: "log_co j js0 (cs_co s ! i)"
    using ok i by (simp add: log_ok_def j_def)
  show "holds_at (j_js (js_journal (js_write p d (cs_sys s)))) 0 js0"
    using ok ci off(1,2) by (auto simp: log_ok_def log_co_def apart_def intro!: holds_kept)
  fix k
  assume k: "k < length (cs_co s)" "k \<noteq> i"
  then have ck: "log_co j js0 (cs_co s ! k)" and ap: "ranges_apart (cs_co s ! i) (cs_co s ! k)"
    using ok i by (simp_all add: log_ok_def j_def)
  show "ranges_apart c' (cs_co s ! k)"
    using ap off(1) c'(1,2) by (simp add: ranges_apart_def split: option.splits)
  show "log_co (js_journal (js_write p d (cs_sys s))) js0 (cs_co s ! k)"
  proof (cases "co_off (cs_co s ! k)")
    case None
    then show ?thesis
      using ck by (simp add: log_co_def)
  next
    case (Some o')
    then have ap': "apart o' (length (co_record (cs_co s ! k))) p (length d)"
      using ap off by (auto simp: ranges_apart_def apart_def)
    moreover have "length (co_body (cs_co s ! k)) \<le> length (co_record (cs_co s ! k))"
      by (simp add: co_body_def co_record_def tx_record_def)
    ultimately have "apart o' (length (co_body (cs_co s ! k))) p (length d)"
      by (auto simp: apart_def)
    then show ?thesis
      using ck Some ap' by (auto simp: log_co_def j_def intro: holds_kept)
  qed
qed

lemma record_parts: "co_record c = co_body c @ commit_record (co_seq c) (co_body c)"
  by (simp add: co_record_def co_body_def tx_record_def)

lemma record_upd [simp]:
  "co_record (c\<lparr>co_phase := ph\<rparr>) = co_record c" "co_record (c\<lparr>co_off := q\<rparr>) = co_record c" "co_record (c\<lparr>co_applied := n\<rparr>) = co_record c"
  "co_body (c\<lparr>co_phase := ph\<rparr>) = co_body c" "co_body (c\<lparr>co_off := q\<rparr>) = co_body c" "co_body (c\<lparr>co_applied := n\<rparr>) = co_body c"
  by (simp_all add: co_record_def co_body_def)

lemma log_place:
  assumes ok: "log_ok js0 s" and i: "i < length (cs_co s)" and c: "co_phase (cs_co s ! i) = Numbered"
    and r: "reserveAppend (length (co_record (cs_co s ! i))) (js_journal (cs_sys s)) = (off, j')"
  shows "log_ok js0 \<lparr>cs_sys = (cs_sys s)\<lparr>js_journal := j'\<rparr>, cs_co = (cs_co s)[i := (cs_co s ! i)\<lparr>co_phase := Placed, co_off := Some off\<rparr>]\<rparr>"
proof (rule log_update [OF ok i])
  define j where "j = js_journal (cs_sys s)"
  have j': "j_js j' = j_js j" "j_appendOff j' = off + length (co_record (cs_co s ! i))" "j_appendOff j \<le> off" "length (j_js j) \<le> off"
    using r by (auto simp: reserveAppend_def Let_def j_def)
  have js0: "holds_at (j_js j) 0 js0" and ci: "log_co j js0 (cs_co s ! i)"
    using ok i by (simp_all add: log_ok_def j_def)
  show "holds_at (j_js (js_journal ((cs_sys s)\<lparr>js_journal := j'\<rparr>))) 0 js0"
    using js0 j'(1) by simp
  have "length js0 \<le> off" "co_applied (cs_co s ! i) = 0"
    using js0 ci c j'(4) by (auto simp: holds_at_def log_co_def split: option.splits)
  then show "log_co (js_journal ((cs_sys s)\<lparr>js_journal := j'\<rparr>)) js0 ((cs_co s ! i)\<lparr>co_phase := Placed, co_off := Some off\<rparr>)"
    using j'(2) by (simp add: log_co_def numbered_def logged_def)
  fix k
  assume k: "k < length (cs_co s)" "k \<noteq> i"
  have ck: "log_co j js0 (cs_co s ! k)"
    using ok k by (simp add: log_ok_def j_def)
  then show "log_co (js_journal ((cs_sys s)\<lparr>js_journal := j'\<rparr>)) js0 (cs_co s ! k)"
    using j'(1-3) by (auto simp: log_co_def split: option.splits)
  show "ranges_apart ((cs_co s ! i)\<lparr>co_phase := Placed, co_off := Some off\<rparr>) (cs_co s ! k)"
    using ck j'(3) by (auto simp: log_co_def ranges_apart_def apart_def split: option.splits)
qed

lemma log_moves:
  assumes ok: "log_ok js0 s" and tok: "turns_ok n0 s" and m: "moves s i c' t"
  shows "log_ok js0 \<lparr>cs_sys = t, cs_co = (cs_co s)[i := c']\<rparr>"
proof -
  have i: "i < length (cs_co s)"
    using m by (simp add: moves_def)
  have ci: "log_co (js_journal (cs_sys s)) js0 (cs_co s ! i)"
    using ok i by (simp add: log_ok_def)
  note co = turns_co [OF tok i] and quiet = log_quiet [OF ok i] and wr = log_write [OF ok i]
  from m turns_enabled [OF tok] show ?thesis
  proof (cases rule: moves_cases)
    case number
    then have "co_off (cs_co s ! i) = None"
      using ci by (auto simp: log_co_def numbered_def split: option.splits)
    then show ?thesis
      using number ci by (intro quiet) (auto simp: log_co_def)
  next
    case (place off j')
    then show ?thesis
      using log_place [OF ok i] by simp
  next
    case (body off)
    have ap: "co_applied (cs_co s ! i) = 0"
      using co body(1) by (simp add: co_ok_def)
    show ?thesis
      unfolding body(4) by (rule wr) (use ci body ap in \<open>auto simp: log_co_def numbered_def logged_def record_parts holds_written\<close>)
  next
    case (seal off)
    have b: "holds_at (j_js (js_journal (cs_sys s))) off (co_body (cs_co s ! i))"
      using ci seal(1,2) by (simp add: log_co_def)
    have "holds_at (j_js (js_journal t)) off (co_record (cs_co s ! i))"
      using b by (simp add: seal(4) record_parts holds_append holds_written holds_kept apart_def)
    then show ?thesis
      using ci seal unfolding seal(4) by (intro wr) (auto simp: log_co_def numbered_def logged_def record_parts [of "cs_co s ! i"])
  next
    case turn
    then show ?thesis
      using ci co by (intro quiet) (auto simp: log_co_def logged_def numbered_def split: option.splits)
  next
    case (store e f')
    then show ?thesis
      using ci co by (intro quiet) (auto simp: log_co_def logged_def numbered_def split: option.splits)
  next
    case broken
    then show ?thesis
      using ci co by (intro quiet) (auto simp: log_co_def logged_def numbered_def split: option.splits)
  next
    case finish
    then show ?thesis
      using ci co by (intro quiet) (auto simp: log_co_def logged_def numbered_def split: option.splits)
  next
    case lost
    then show ?thesis
      using ci co by (intro quiet) (auto simp: log_co_def logged_def numbered_def co_ok_def split: option.splits)
  next
    case (torn_body off k)
    have ap: "co_applied (cs_co s ! i) = 0"
      using co torn_body(1) by (simp add: co_ok_def)
    show ?thesis
      unfolding torn_body(4) by (rule wr) (use ci torn_body ap in \<open>auto simp: log_co_def numbered_def logged_def record_parts\<close>)
  next
    case (torn_seal off k)
    have ap: "co_applied (cs_co s ! i) = 0"
      using co torn_seal(1) by (simp add: co_ok_def)
    show ?thesis
      unfolding torn_seal(4) by (rule wr) (use ci torn_seal ap in \<open>auto simp: log_co_def numbered_def logged_def record_parts\<close>)
  qed
qed

lemma log_fsteps:
  assumes "fstep\<^sup>*\<^sup>* s s'" "turns_ok n0 s" "log_ok js0 s"
  shows "log_ok js0 s'"
  using assms
proof (induction rule: rtranclp_induct)
  case (step s1 s2)
  obtain i c' t where "moves s1 i c' t" "s2 = \<lparr>cs_sys = t, cs_co = (cs_co s1)[i := c']\<rparr>"
    using step(2) fstep_moves by blast
  then show ?case
    using log_moves [OF step.IH [OF step.prems] turns_fsteps [OF step(1) step.prems(1)]] by simp
qed simp

lemma serial_start: "js_dev (cs_sys (start ess s)) = stores (serial_writes n0 (start ess s)) (js_dev s)"
proof -
  have "turn_writes (start ess s) q = []" for q
    by (auto simp: start_def turn_writes_def co_start_def co_writes_def entry_writes_def)
  then have "serial_writes n0 (start ess s) = []"
    by (simp add: serial_writes_def)
  then show ?thesis
    by (simp add: start_def)
qed

lemma log_start: "log_ok (j_js (js_journal s)) (start ess s)"
  by (auto simp: log_ok_def start_def co_start_def log_co_def ranges_apart_def holds_at_def)

section \<open>The commits end\<close>

text \<open>What is left to do of a commit, in steps.\<close>

definition co_work :: "committer \<Rightarrow> nat" where
  "co_work c =
    (case co_phase c of
       Staged \<Rightarrow> 7 + length (co_entries c) | Numbered \<Rightarrow> 6 + length (co_entries c) | Placed \<Rightarrow> 5 + length (co_entries c)
     | Logging \<Rightarrow> 4 + length (co_entries c) | Waiting \<Rightarrow> 3 + length (co_entries c)
     | Applying \<Rightarrow> 1 + (length (co_entries c) - co_applied c) | Done \<Rightarrow> 0 | Gone \<Rightarrow> 0)"

definition work :: "csys \<Rightarrow> nat" where
  "work s = sum_list (map co_work (cs_co s))"

lemma sum_update_less: "i < length xs \<Longrightarrow> (y::nat) < xs ! i \<Longrightarrow> sum_list (xs[i := y]) < sum_list xs"
  by (simp add: sum_list_update)
    (metis add_less_cancel_left elem_le_sum_list le_add_diff_inverse2 less_add_same_cancel2 less_imp_add_positive nat_add_left_cancel_less ordered_cancel_comm_monoid_diff_class.add_diff_assoc2 zero_less_diff)

lemma moves_work:
  assumes tok: "turns_ok n0 s" and m: "moves s i c' t"
  shows "work \<lparr>cs_sys = t, cs_co = (cs_co s)[i := c']\<rparr> < work s"
proof -
  have i: "i < length (cs_co s)"
    using m by (simp add: moves_def)
  have "co_work c' < co_work (cs_co s ! i)"
    by (rule moves_cases [OF m turns_enabled [OF tok]]) (use turns_co [OF tok i] in \<open>auto simp: co_work_def co_ok_def\<close>)
  then show ?thesis
    using sum_update_less [of i "map co_work (cs_co s)" "co_work c'"] i by (simp add: work_def map_update)
qed

text \<open>As long as nothing fails: the device takes the writes, and nobody has gone.\<close>

definition calm :: "csys \<Rightarrow> bool" where
  "calm s \<longleftrightarrow> dev_writable (js_dev (cs_sys s)) \<and> (\<forall>c\<in>set (cs_co s). co_phase c \<noteq> Gone
    \<and> entries_in (j_fsOffset (js_journal (cs_sys s))) (j_blockSize (js_journal (cs_sys s))) (j_sb (js_journal (cs_sys s))) (co_entries c))"

lemma fixed_moves:
  assumes "moves s i c' t" "j_enabled (js_journal (cs_sys s))"
  shows "fixed t = fixed (cs_sys s)" "co_entries c' = co_entries (cs_co s ! i)"
proof -
  have n: "fixed (journal_upd (\<lambda>j. j\<lparr>j_nextSeq := w64 (j_nextSeq j + 1)\<rparr>) (cs_sys s)) = fixed (cs_sys s)"
    by (simp add: fixed_def)
  have p: "fixed ((cs_sys s)\<lparr>js_journal := j'\<rparr>) = fixed (cs_sys s)" if "reserveAppend k (js_journal (cs_sys s)) = (off, j')" for k off j'
    using that by (auto simp: fixed_def reserveAppend_def Let_def)
  show "fixed t = fixed (cs_sys s)"
    by (rule moves_cases [OF assms]) (use n p in simp_all)
  show "co_entries c' = co_entries (cs_co s ! i)"
    by (rule moves_cases [OF assms]) simp_all
qed

lemma co_step_calm:
  assumes "co_step c s = Some (c', t)" "co_phase c \<noteq> Gone" "dev_writable (js_dev s)"
    "entries_in (j_fsOffset (js_journal s)) (j_blockSize (js_journal s)) (j_sb (js_journal s)) (co_entries c)"
  shows "co_phase c' \<noteq> Gone \<and> dev_writable (js_dev t)"
proof (cases "co_phase c = Applying \<and> co_applied c < length (co_entries c)")
  case True
  define e where "e = co_entries c ! co_applied c"
  have "0 \<le> entry_off (j_fsOffset (js_journal s)) (j_blockSize (js_journal s)) (je_Block e)"
    using assms(4) True by (simp add: entries_in_def list_all_length e_def)
  then have "co_step c s = Some (c\<lparr>co_applied := co_applied c + 1\<rparr>,
      s\<lparr>js_dev := dev_store (js_dev s) (nat (entry_off (j_fsOffset (js_journal s)) (j_blockSize (js_journal s)) (je_Block e))) (je_Data e)\<rparr>)"
    using assms(3) True by (simp add: co_step_def writeAtWithTrace_eq WriteAt_Inr_unless Let_def e_def)
  then show ?thesis
    using assms(1-3) by auto
next
  case False
  then show ?thesis
    using assms by (auto simp: co_step_def Let_def split: phase.splits if_splits prod.splits)
qed

lemma calm_cstep:
  assumes "cstep s s'" "calm s" "turns_ok n0 s"
  shows "calm s' \<and> map co_entries (cs_co s') = map co_entries (cs_co s) \<and> fixed (cs_sys s') = fixed (cs_sys s)"
proof -
  obtain i c' t where i: "i < length (cs_co s)" "co_step (cs_co s ! i) (cs_sys s) = Some (c', t)" and s': "s' = \<lparr>cs_sys = t, cs_co = (cs_co s)[i := c']\<rparr>"
    using assms(1) by (auto elim: cstep_cases)
  have "moves s i c' t"
    using i by (simp add: moves_def)
  note fx = fixed_moves [OF this turns_enabled [OF assms(3)]]
  have ci: "co_phase c' \<noteq> Gone \<and> dev_writable (js_dev t)"
    using assms(2) i(1) by (intro co_step_calm [OF i(2)]) (simp_all add: calm_def)
  have "map co_entries ((cs_co s)[i := c']) = map co_entries (cs_co s)"
    using fx(2) i(1) by (simp add: map_update list_update_same_conv)
  moreover have "calm s'"
    using assms(2) ci fx i(1) s' set_update_subset_insert [of "cs_co s" i c'] by (auto simp: calm_def fixed_def)
  ultimately show ?thesis
    using fx s' by simp
qed

lemma calm_csteps:
  assumes "cstep\<^sup>*\<^sup>* s s'" "calm s" "turns_ok n0 s"
  shows "calm s' \<and> turns_ok n0 s' \<and> map co_entries (cs_co s') = map co_entries (cs_co s) \<and> fixed (cs_sys s') = fixed (cs_sys s)"
  using assms
proof (induction rule: rtranclp_induct)
  case (step s1 s2)
  then have s1: "calm s1" "turns_ok n0 s1" "map co_entries (cs_co s1) = map co_entries (cs_co s)" "fixed (cs_sys s1) = fixed (cs_sys s)"
    by simp_all
  have "fstep\<^sup>*\<^sup>* s1 s2"
    using step(2) by (blast intro: fstep.fstep)
  then show ?case
    using calm_cstep [OF step(2) s1(1,2)] turns_fsteps [OF _ s1(2)] s1 by simp
qed simp

text \<open>Nobody waits for a turn that does not come.\<close>

lemma co_step_ready:
  assumes "co_step c s = None" "co_phase c \<noteq> Gone" "co_off c = None \<Longrightarrow> co_phase c \<in> {Staged, Numbered}"
  shows "co_phase c = Done \<or> co_phase c = Waiting \<and> j_applySeq (js_journal s) \<noteq> co_seq c"
  using assms by (cases "co_phase c") (auto simp: co_step_def Let_def split: if_splits prod.splits sum.splits)

lemma calm_progress:
  assumes "calm s" and ok: "turns_ok n0 s" "log_ok js0 s" and stuck: "\<nexists>s'. cstep s s'"
  shows "\<forall>c\<in>set (cs_co s). co_phase c = Done"
proof -
  have rest: "co_phase (cs_co s ! k) = Done \<or> co_phase (cs_co s ! k) = Waiting \<and> ja s \<noteq> co_seq (cs_co s ! k)" if k: "k < length (cs_co s)" for k
  proof -
    have "co_step (cs_co s ! k) (cs_sys s) = None"
      using stuck cstep [OF k] by (metis option.exhaust surj_pair)
    moreover have "co_phase (cs_co s ! k) \<noteq> Gone"
      using assms(1) k by (simp add: calm_def)
    moreover have "log_co (js_journal (cs_sys s)) js0 (cs_co s ! k)"
      using ok(2) k by (simp add: log_ok_def)
    then have "co_off (cs_co s ! k) = None \<Longrightarrow> co_phase (cs_co s ! k) \<noteq> Gone \<Longrightarrow> co_phase (cs_co s ! k) \<in> {Staged, Numbered}"
      by (simp add: log_co_def)
    ultimately show ?thesis
      using co_step_ready [of "cs_co s ! k" "cs_sys s"] by (simp add: ja_def)
  qed
  have "co_phase (cs_co s ! k) \<noteq> Waiting" if k: "k < length (cs_co s)" for k
  proof
    assume w: "co_phase (cs_co s ! k) = Waiting"
    then have "n0 \<le> ja s" "ja s < jn s"
      using turns_co [OF ok(1) k] ok(1) by (auto simp: co_ok_def numbered_def turns_ok_def)
    then obtain l where l: "l < length (cs_co s)" "co_seq (cs_co s ! l) = ja s"
      using ok(1) unfolding turns_ok_def by blast
    then show False
      using rest [OF l(1)] turns_co [OF ok(1) l(1)] by (auto simp: co_ok_def)
  qed
  then show ?thesis
    using rest by (auto simp: in_set_conv_nth)
qed

text \<open>When all are done, the writes on the device are those of the transactions, each of them
  completely, one transaction after the other.\<close>

lemma all_done_serial:
  assumes ok: "turns_ok n0 s" and fin: "\<forall>c\<in>set (cs_co s). co_phase c = Done"
  obtains ess' where "mset ess' = mset (map co_entries (cs_co s))"
    "serial_writes n0 s = concat (map (entry_writes (j_fsOffset (js_journal (cs_sys s))) (j_blockSize (js_journal (cs_sys s)))) ess')"
    "ja s = jn s"
proof -
  define cs' where "cs' = sort_key co_seq (cs_co s)"
  have num: "numbered (cs_co s ! k)" if "k < length (cs_co s)" for k
    using fin that by (simp add: numbered_def)
  have n: "jn s = n0 + length (cs_co s)"
    using ok fin by (simp add: turns_ok_def numbered_def)
  have set: "set (map co_seq (cs_co s)) = {n0..<jn s}"
  proof
    show "set (map co_seq (cs_co s)) \<subseteq> {n0..<jn s}"
      using turns_co [OF ok] num by (auto simp: co_ok_def in_set_conv_nth)
    show "{n0..<jn s} \<subseteq> set (map co_seq (cs_co s))"
      using ok unfolding turns_ok_def by (fastforce simp: in_set_conv_nth)
  qed
  then have "card (set (map co_seq (cs_co s))) = length (map co_seq (cs_co s))"
    using n by simp
  then have "distinct (map co_seq (cs_co s))"
    by (rule card_distinct)
  then have "distinct (map co_seq cs')"
    using mset_eq_imp_distinct_iff [of "map co_seq cs'" "map co_seq (cs_co s)"] by (simp add: cs'_def)
  then have "map co_seq cs' = [n0..<n0 + length (cs_co s)]"
    using set n by (intro sorted_distinct_set_unique) (simp_all add: cs'_def)
  then have "serial_writes n0 s = concat (map (turn_writes s \<circ> co_seq) cs')"
    by (metis serial_writes_def map_map)
  moreover have "(turn_writes s \<circ> co_seq) c = entry_writes (j_fsOffset (js_journal (cs_sys s))) (j_blockSize (js_journal (cs_sys s))) (co_entries c)"
    if c: "c \<in> set cs'" for c
  proof -
    obtain k where k: "k < length (cs_co s)" "c = cs_co s ! k"
      using c by (auto simp: cs'_def in_set_conv_nth)
    then have "co_applied c = length (co_entries c)"
      using turns_co [OF ok k(1)] fin by (auto simp: co_ok_def)
    then show ?thesis
      using turn_writes_own [OF ok k(1) num [OF k(1)]] k(2) by (simp add: co_writes_def)
  qed
  ultimately have "serial_writes n0 s = concat (map (entry_writes (j_fsOffset (js_journal (cs_sys s))) (j_blockSize (js_journal (cs_sys s)))) (map co_entries cs'))"
    by (simp cong: map_cong)
  moreover have "mset (map co_entries cs') = mset (map co_entries (cs_co s))"
    by (simp add: cs'_def)
  moreover have "ja s = jn s"
  proof (rule ccontr)
    assume "ja s \<noteq> jn s"
    then have "ja s \<in> set (map co_seq (cs_co s))"
      using ok set unfolding turns_ok_def by (metis atLeastLessThan_iff le_neq_implies_less)
    then obtain k where "k < length (cs_co s)" "co_seq (cs_co s ! k) = ja s"
      by (auto simp: in_set_conv_nth)
    then show False
      using turns_co [OF ok, of k] fin by (auto simp: co_ok_def)
  qed
  ultimately show ?thesis
    using that by blast
qed

lemma runs_end:
  assumes "turns_ok n0 s"
  shows "\<exists>s'. cstep\<^sup>*\<^sup>* s s' \<and> (\<nexists>s''. cstep s' s'')"
  using assms
proof (induction "work s" arbitrary: s rule: less_induct)
  case less
  show ?case
  proof (cases "\<exists>s1. cstep s s1")
    case True
    then obtain s1 where s1: "cstep s s1"
      by blast
    obtain i c' t where m: "moves s i c' t" "s1 = \<lparr>cs_sys = t, cs_co = (cs_co s)[i := c']\<rparr>"
      using fstep.fstep [OF s1] fstep_moves by blast
    then obtain s' where "cstep\<^sup>*\<^sup>* s1 s'" "\<nexists>s''. cstep s' s''"
      using less.hyps [of s1] moves_work [OF less.prems m(1)] turns_moves [OF less.prems m(1)] by blast
    then show ?thesis
      using s1 by (meson converse_rtranclp_into_rtranclp)
  qed blast
qed

lemma csteps_fsteps: "cstep\<^sup>*\<^sup>* s s' \<Longrightarrow> fstep\<^sup>*\<^sup>* s s'"
  by (induction rule: rtranclp_induct) (auto intro: fstep.fstep rtranclp.rtrancl_into_rtrancl)

text \<open>C36: concurrent commits are serializable and end.  Start any number of transactions on a journal
  with nothing pending and let their commits interleave in any way.  Every step brings the commits
  closer to their end, and a state in which no commit can take a step is one in which all have
  returned: the device then is exactly what the transactions leave when they are applied one after
  the other in some order, and the turn is the next free number again.\<close>

theorem commits_serializable:
  assumes ready: "journal_ready s" "j_nextSeq (js_journal s) + length ess < 18446744073709551616" and w: "dev_writable (js_dev s)"
    and es: "list_all (entries_in (j_fsOffset (js_journal s)) (j_blockSize (js_journal s)) (j_sb (js_journal s))) ess"
    and run: "cstep\<^sup>*\<^sup>* (start ess s) s'"
  shows "(\<forall>s''. cstep s' s'' \<longrightarrow> work s'' < work s')
    \<and> ((\<exists>s''. cstep s' s'')
       \<or> (\<forall>c\<in>set (cs_co s'). co_phase c = Done)
         \<and> (\<exists>ess'. mset ess' = mset ess
              \<and> js_dev (cs_sys s') = stores (concat (map (entry_writes (j_fsOffset (js_journal s)) (j_blockSize (js_journal s))) ess')) (js_dev s))
         \<and> j_applySeq (js_journal (cs_sys s')) = j_nextSeq (js_journal (cs_sys s')))"
proof -
  define n0 where "n0 = j_nextSeq (js_journal s)"
  have s0: "turns_ok n0 (start ess s)"
    unfolding n0_def by (rule turns_start [OF ready])
  have "calm (start ess s)"
    using w es by (auto simp: calm_def start_def co_start_def list_all_iff)
  from calm_csteps [OF run this s0] have s': "calm s'" "turns_ok n0 s'" "map co_entries (cs_co s') = ess" "fixed (cs_sys s') = fixed s"
    by (simp_all add: start_def co_start_def comp_def)
  have log: "log_ok (j_js (js_journal s)) s'"
    by (rule log_fsteps [OF csteps_fsteps [OF run] s0 log_start])
  note dev = serial_fsteps [OF csteps_fsteps [OF run] s0 serial_start]
  have "work s'' < work s'" if c: "cstep s' s''" for s''
    using c moves_work [OF s'(2)] by (auto simp: moves_def elim!: cstep_cases)
  moreover have "(\<forall>c\<in>set (cs_co s'). co_phase c = Done)
      \<and> (\<exists>ess'. mset ess' = mset ess
           \<and> js_dev (cs_sys s') = stores (concat (map (entry_writes (j_fsOffset (js_journal s)) (j_blockSize (js_journal s))) ess')) (js_dev s))
      \<and> j_applySeq (js_journal (cs_sys s')) = j_nextSeq (js_journal (cs_sys s'))" if stuck: "\<nexists>s''. cstep s' s''"
  proof -
    note fin = calm_progress [OF s'(1,2) log stuck]
    obtain ess' where "mset ess' = mset (map co_entries (cs_co s'))"
      "serial_writes n0 s' = concat (map (entry_writes (j_fsOffset (js_journal (cs_sys s'))) (j_blockSize (js_journal (cs_sys s')))) ess')" "ja s' = jn s'"
      by (rule all_done_serial [OF s'(2) fin])
    then show ?thesis
      using fin s'(3,4) dev by (auto simp: fixed_def ja_def jn_def)
  qed
  ultimately show ?thesis
    by blast
qed

definition sample_js :: jsys where
  "sample_js = \<lparr>js_journal = OpenJournal [] 0 64 mini_sb, js_dev = mini_dev\<rparr>"

lemma sample_js_simps [simp]:
  "js_journal sample_js = \<lparr>j_js = [], j_fsOffset = 0, j_blockSize = 64, j_sb = mini_sb, j_enabled = True, j_nextSeq = 1, j_applySeq = 1, j_appendOff = 0\<rparr>"
  "js_dev sample_js = mini_dev" "journal_ready sample_js"
  using init_records [of "[]" 0] by (simp_all add: sample_js_def OpenJournal_def initNextSeq_def records_def w64_def journal_ready_def)

lemma sample_entries [simp]: "list_all (entries_in 0 64 mini_sb) [sample_tx 3, sample_tx 40]"
  by (simp add: sample_tx_def entries_in_def entry_off_def)

text \<open>Two commits at once on the sample image.\<close>

theorem commits_serializable_witness:
  "\<exists>s' ess'. cstep\<^sup>*\<^sup>* (start [sample_tx 3, sample_tx 40] sample_js) s' \<and> (\<forall>c\<in>set (cs_co s'). co_phase c = Done)
    \<and> mset ess' = {#sample_tx 3, sample_tx 40#} \<and> js_dev (cs_sys s') = stores (concat (map (entry_writes 0 64) ess')) mini_dev"
proof -
  have "turns_ok 1 (start [sample_tx 3, sample_tx 40] sample_js)"
    using turns_start [of sample_js "[sample_tx 3, sample_tx 40]"] by simp
  then obtain s' where s': "cstep\<^sup>*\<^sup>* (start [sample_tx 3, sample_tx 40] sample_js) s'" "\<nexists>s''. cstep s' s''"
    using runs_end by blast
  have "list_all (entries_in (j_fsOffset (js_journal sample_js)) (j_blockSize (js_journal sample_js)) (j_sb (js_journal sample_js))) [sample_tx 3, sample_tx 40]"
    using sample_entries by simp
  then have "\<exists>ess'. (\<forall>c\<in>set (cs_co s'). co_phase c = Done) \<and> mset ess' = {#sample_tx 3, sample_tx 40#}
      \<and> js_dev (cs_sys s') = stores (concat (map (entry_writes 0 64) ess')) mini_dev"
    using commits_serializable [OF _ _ _ _ s'(1)] s'(2) by auto
  then show ?thesis
    using s'(1) by blast
qed

text \<open>C37: whatever interleaving and whatever failures of the sidecar file or of the device: at every
  moment the device holds the writes done so far in the order of the sequence numbers, never those
  of two transactions mixed; at most one commit is applying; whoever has written to the device has
  its complete record, commit record included, in the sidecar file, where no other commit
  overwrites it; and what was in the file before is still there.\<close>

theorem commits_write_ahead:
  assumes "journal_ready s" "j_nextSeq (js_journal s) + length ess < 18446744073709551616" "fstep\<^sup>*\<^sup>* (start ess s) s'"
  shows "js_dev (cs_sys s') = stores (serial_writes (j_nextSeq (js_journal s)) s') (js_dev s)
    \<and> (\<forall>i<length (cs_co s'). \<forall>k<length (cs_co s'). co_phase (cs_co s' ! i) = Applying \<longrightarrow> co_phase (cs_co s' ! k) = Applying \<longrightarrow> i = k)
    \<and> (\<forall>c\<in>set (cs_co s'). 0 < co_applied c \<longrightarrow> (\<exists>off. co_off c = Some off \<and> holds_at (j_js (js_journal (cs_sys s'))) off (co_record c)))
    \<and> holds_at (j_js (js_journal (cs_sys s'))) 0 (j_js (js_journal s))"
proof -
  note s0 = turns_start [OF assms(1,2)]
  note ok = turns_fsteps [OF assms(3) s0] and log = log_fsteps [OF assms(3) s0 log_start]
  have "i = k" if ik: "i < length (cs_co s')" "k < length (cs_co s')" "co_phase (cs_co s' ! i) = Applying" "co_phase (cs_co s' ! k) = Applying" for i k
  proof -
    have "co_seq (cs_co s' ! i) = co_seq (cs_co s' ! k)" "numbered (cs_co s' ! i)" "numbered (cs_co s' ! k)"
      using turns_co [OF ok ik(1)] turns_co [OF ok ik(2)] ik(3,4) by (simp_all add: co_ok_def numbered_def)
    then show ?thesis
      using ok ik(1,2) unfolding turns_ok_def by blast
  qed
  moreover have "\<exists>off. co_off c = Some off \<and> holds_at (j_js (js_journal (cs_sys s'))) off (co_record c)"
    if c: "c \<in> set (cs_co s')" "0 < co_applied c" for c
  proof -
    have "log_co (js_journal (cs_sys s')) (j_js (js_journal s)) c"
      using log c(1) by (auto simp: log_ok_def in_set_conv_nth)
    then show ?thesis
      using c(2) by (auto simp: log_co_def logged_def split: option.splits)
  qed
  ultimately show ?thesis
    using serial_fsteps [OF assms(3) s0 serial_start] log unfolding log_ok_def by blast
qed

text \<open>The state after both commits of the sample.\<close>

theorem commits_write_ahead_witness:
  "\<exists>s'. fstep\<^sup>*\<^sup>* (start [sample_tx 3, sample_tx 40] sample_js) s' \<and> (\<nexists>s''. cstep s' s'')
    \<and> js_dev (cs_sys s') = stores (serial_writes 1 s') mini_dev \<and> holds_at (j_js (js_journal (cs_sys s'))) 0 []"
proof -
  have "turns_ok 1 (start [sample_tx 3, sample_tx 40] sample_js)"
    using turns_start [of sample_js "[sample_tx 3, sample_tx 40]"] by simp
  then obtain s' where s': "cstep\<^sup>*\<^sup>* (start [sample_tx 3, sample_tx 40] sample_js) s'" "\<nexists>s''. cstep s' s''"
    using runs_end by blast
  then show ?thesis
    using commits_write_ahead [OF _ _ csteps_fsteps [OF s'(1)]] csteps_fsteps [OF s'(1)] by auto
qed

section \<open>A turn that is lost\<close>

lemma lost_moves:
  assumes ok: "turns_ok n0 s" and i: "i < length (cs_co s)" "co_phase (cs_co s ! i) = Gone" "co_seq (cs_co s ! i) = ja s" and m: "moves s k c' t"
  shows "k \<noteq> i" "j_applySeq (js_journal t) = ja s"
proof -
  show ki: "k \<noteq> i"
    using m i(2) by (auto simp: moves_def co_step_def co_fail_def)
  have k: "k < length (cs_co s)"
    using m by (simp add: moves_def)
  have "co_phase (cs_co s ! k) \<noteq> Applying"
  proof
    assume a: "co_phase (cs_co s ! k) = Applying"
    then have "numbered (cs_co s ! i)" "numbered (cs_co s ! k)" "co_seq (cs_co s ! k) = co_seq (cs_co s ! i)"
      using turns_co [OF ok k] i by (simp_all add: co_ok_def numbered_def)
    then show False
      using ok i(1) k ki unfolding turns_ok_def by blast
  qed
  note na = this
  show "j_applySeq (js_journal t) = ja s"
    by (rule moves_cases [OF m turns_enabled [OF ok]]) (use na in \<open>auto simp: ja_def reserveAppend_def Let_def\<close>)
qed

lemma waiting_moves:
  assumes "moves s k c' t" "i < length (cs_co s)" "co_phase (cs_co s ! i) = Waiting" "co_seq (cs_co s ! i) \<noteq> ja s"
  shows "k \<noteq> i"
  using assms by (auto simp: moves_def co_step_def co_fail_def ja_def Let_def)

lemma lost_fsteps:
  assumes "fstep\<^sup>*\<^sup>* s s'" "turns_ok n0 s" "i < length (cs_co s)" "co_phase (cs_co s ! i) = Gone" "co_seq (cs_co s ! i) = ja s"
  shows "ja s' = ja s \<and> length (cs_co s') = length (cs_co s) \<and> cs_co s' ! i = cs_co s ! i
    \<and> (\<forall>l<length (cs_co s). co_phase (cs_co s ! l) = Waiting \<and> co_seq (cs_co s ! l) \<noteq> ja s \<longrightarrow> cs_co s' ! l = cs_co s ! l)"
  using assms
proof (induction rule: rtranclp_induct)
  case (step s1 s2)
  then have s1: "ja s1 = ja s" "length (cs_co s1) = length (cs_co s)" "cs_co s1 ! i = cs_co s ! i"
    and w: "\<And>l. l < length (cs_co s) \<Longrightarrow> co_phase (cs_co s ! l) = Waiting \<Longrightarrow> co_seq (cs_co s ! l) \<noteq> ja s \<Longrightarrow> cs_co s1 ! l = cs_co s ! l"
    by simp_all
  obtain k c' t where m: "moves s1 k c' t" and s2: "s2 = \<lparr>cs_sys = t, cs_co = (cs_co s1)[k := c']\<rparr>"
    using step(2) fstep_moves by blast
  have "k \<noteq> i" "j_applySeq (js_journal t) = ja s1"
    using lost_moves [OF turns_fsteps [OF step(1) step.prems(1)] _ _ _ m, of i] s1 step.prems by simp_all
  moreover have "k \<noteq> l" if "l < length (cs_co s)" "co_phase (cs_co s ! l) = Waiting" "co_seq (cs_co s ! l) \<noteq> ja s" for l
    using waiting_moves [OF m, of l] w [OF that] that s1 by simp
  ultimately show ?case
    using s1 w by (simp add: s2 ja_def)
qed simp

text \<open>C38: a commit that fails after it has taken its number and before its turn (\<open>reserveAppend\<close> or a
  write to the sidecar file fails) never hands the turn on.  From the moment \<open>applySeq\<close> reaches
  its number the turn stays there for ever: no commit with a later number, whatever its progress,
  gets to apply an entry or to return successfully, and one that has its record in the sidecar and
  waits for its turn never does anything again.\<close>

theorem lost_turn_blocks:
  assumes "journal_ready s" "j_nextSeq (js_journal s) + length ess < 18446744073709551616" "fstep\<^sup>*\<^sup>* (start ess s) s1"
    and i: "i < length (cs_co s1)" "co_phase (cs_co s1 ! i) = Gone" "co_seq (cs_co s1 ! i) = j_applySeq (js_journal (cs_sys s1))"
    and run: "fstep\<^sup>*\<^sup>* s1 s2"
  shows "j_applySeq (js_journal (cs_sys s2)) = j_applySeq (js_journal (cs_sys s1))
    \<and> (\<forall>c\<in>set (cs_co s2). co_seq (cs_co s1 ! i) < co_seq c \<longrightarrow> co_phase c \<noteq> Done \<and> co_applied c = 0)
    \<and> (\<forall>k<length (cs_co s1). co_seq (cs_co s1 ! i) < co_seq (cs_co s1 ! k) \<and> co_phase (cs_co s1 ! k) = Waiting
        \<longrightarrow> cs_co s2 ! k = cs_co s1 ! k)"
proof -
  note ok = turns_fsteps [OF assms(3) turns_start [OF assms(1,2)]]
  have lost: "ja s2 = ja s1" "\<And>l. l < length (cs_co s1) \<Longrightarrow> co_phase (cs_co s1 ! l) = Waiting \<Longrightarrow> co_seq (cs_co s1 ! l) \<noteq> ja s1 \<Longrightarrow> cs_co s2 ! l = cs_co s1 ! l"
    using lost_fsteps [OF run ok i(1,2)] i(3) by (simp_all add: ja_def)
  moreover have "co_phase c \<noteq> Done \<and> co_applied c = 0" if c: "c \<in> set (cs_co s2)" "co_seq (cs_co s1 ! i) < co_seq c" for c
  proof -
    have "co_ok (j_nextSeq (js_journal s)) (ja s2) (jn s2) c"
      using turns_co [OF turns_fsteps [OF run ok]] c(1) by (auto simp: in_set_conv_nth)
    then show ?thesis
      using c(2) i(3) lost(1) by (auto simp: co_ok_def ja_def split: phase.splits)
  qed
  ultimately show ?thesis
    using i(3) by (simp add: ja_def)
qed

text \<open>The first of two commits fails to reserve its place; the second takes its number.\<close>

theorem lost_turn_blocks_witness:
  "\<exists>s1 s2. fstep\<^sup>*\<^sup>* (start [sample_tx 3, sample_tx 40] sample_js) s1 \<and> fstep\<^sup>*\<^sup>* s1 s2
    \<and> co_phase (cs_co s2 ! 0) = Gone \<and> co_phase (cs_co s2 ! 1) = Numbered
    \<and> j_applySeq (js_journal (cs_sys s2)) = 1 \<and> co_applied (cs_co s2 ! 1) = 0"
proof -
  define s0 where "s0 = start [sample_tx 3, sample_tx 40] sample_js"
  define t1 where "t1 = sample_js\<lparr>js_journal := (js_journal sample_js)\<lparr>j_nextSeq := 2\<rparr>\<rparr>"
  define a where "a = \<lparr>cs_sys = t1, cs_co = [(co_start (sample_tx 3))\<lparr>co_phase := Numbered, co_seq := 1\<rparr>, co_start (sample_tx 40)]\<rparr>"
  define b where "b = \<lparr>cs_sys = t1, cs_co = [(co_start (sample_tx 3))\<lparr>co_phase := Gone, co_seq := 1\<rparr>, co_start (sample_tx 40)]\<rparr>"
  define t2 where "t2 = sample_js\<lparr>js_journal := (js_journal sample_js)\<lparr>j_nextSeq := 3\<rparr>\<rparr>"
  define c where "c = \<lparr>cs_sys = t2, cs_co = [(co_start (sample_tx 3))\<lparr>co_phase := Gone, co_seq := 1\<rparr>, (co_start (sample_tx 40))\<lparr>co_phase := Numbered, co_seq := 2\<rparr>]\<rparr>"
  have "cstep s0 a"
    using cstep.intros [of 0 s0 "(co_start (sample_tx 3))\<lparr>co_phase := Numbered, co_seq := 1\<rparr>" t1]
    by (simp add: s0_def a_def start_def co_step_def co_start_def Let_def journal_upd_def t1_def w64_def)
  moreover have "fstep a b"
    using ffail [of 0 a 0 "(co_start (sample_tx 3))\<lparr>co_phase := Gone, co_seq := 1\<rparr>" t1]
    by (simp add: a_def b_def co_fail_def co_start_def Let_def)
  moreover have "cstep b c"
    using cstep.intros [of 1 b "(co_start (sample_tx 40))\<lparr>co_phase := Numbered, co_seq := 2\<rparr>" t2]
    by (simp add: b_def c_def co_step_def co_start_def Let_def journal_upd_def t1_def t2_def w64_def)
  ultimately have runs: "fstep\<^sup>*\<^sup>* s0 b" "fstep\<^sup>*\<^sup>* b c"
    by (meson fstep.fstep r_into_rtranclp rtranclp_trans)+
  have "j_applySeq (js_journal (cs_sys c)) = 1"
    using lost_turn_blocks [of sample_js "[sample_tx 3, sample_tx 40]" b 0 c] runs by (simp add: s0_def b_def t1_def)
  then show ?thesis
    using runs by (intro exI [of _ b] exI [of _ c]) (simp add: s0_def c_def co_start_def)
qed

end
