(* ===== verification/JournalCrash.thy ===== *)
theory JournalCrash
  imports JournalSteps
begin

text \<open>
  A crash in the middle of a commit (\<open>src/journal.go\<close>, \<open>Commit\<close>, \<open>OpenJournal\<close>,
  \<open>ReplayOnOpen\<close>).  The states in which a crash can find a commit are those the step relation of
  \<open>JournalSteps\<close> reaches, the torn writes to the sidecar file included; on top of them the block
  write under way may have left only some of its bytes on the device.
\<close>

section \<open>A commit on its own is a run of its steps\<close>

definition co_at :: "journalEntry list \<Rightarrow> phase \<Rightarrow> u64 \<Rightarrow> nat option \<Rightarrow> nat \<Rightarrow> committer" where
  "co_at es p q off m = \<lparr>co_entries = es, co_phase = p, co_seq = q, co_off = off, co_applied = m\<rparr>"

lemma co_at_simps [simp]:
  "co_entries (co_at es p q off m) = es" "co_phase (co_at es p q off m) = p" "co_seq (co_at es p q off m) = q"
  "co_off (co_at es p q off m) = off" "co_applied (co_at es p q off m) = m"
  "(co_at es p q off m)\<lparr>co_phase := p'\<rparr> = co_at es p' q off m" "(co_at es p q off m)\<lparr>co_applied := m'\<rparr> = co_at es p q off m'"
  "(co_at es p q off m)\<lparr>co_seq := q'\<rparr> = co_at es p q' off m" "(co_at es p q off m)\<lparr>co_off := off'\<rparr> = co_at es p q off' m"
  "(co_at es p q off m)\<lparr>co_phase := p', co_seq := q'\<rparr> = co_at es p' q' off m" "(co_at es p q off m)\<lparr>co_phase := p', co_off := off'\<rparr> = co_at es p' q off' m"
  by (simp_all add: co_at_def)

lemma co_at_parts [simp]:
  "co_record (co_at es p q off m) = tx_record q es" "co_body (co_at es p q off m) = encode_tx q es"
  by (simp_all add: co_record_def co_body_def)

lemma co_start_at: "co_start es = co_at es Staged 0 None 0"
  by (simp add: co_start_def co_at_def)

lemma single_step:
  assumes "co_step c t = Some (c', t')"
  shows "cstep \<lparr>cs_sys = t, cs_co = [c]\<rparr> \<lparr>cs_sys = t', cs_co = [c']\<rparr>"
  using cstep.intros [of 0 "\<lparr>cs_sys = t, cs_co = [c]\<rparr>" c' t'] assms by simp

lemma file_write_end: "off = length js \<Longrightarrow> file_write js off data = js @ data"
  by (simp add: file_write_def zeros_def)

lemma tx_record_split: "tx_record q es = encode_tx q es @ commit_record q (encode_tx q es)"
  by (simp add: tx_record_def)

lemma entry_writes_take_Suc:
  "m < length es \<Longrightarrow> entry_writes fsOffset blockSize (take (Suc m) es)
    = entry_writes fsOffset blockSize (take m es) @ [(nat (entry_off fsOffset blockSize (je_Block (es ! m))), je_Data (es ! m))]"
  by (simp add: entry_writes_def take_Suc_conv_app_nth)

lemma apply_step:
  assumes "entries_in (j_fsOffset (js_journal t)) (j_blockSize (js_journal t)) (j_sb (js_journal t)) es" "dev_writable (js_dev t)" "m < length es"
  shows "co_step (co_at es Applying q off m) t = Some (co_at es Applying q off (Suc m),
    t\<lparr>js_dev := dev_store (js_dev t) (nat (entry_off (j_fsOffset (js_journal t)) (j_blockSize (js_journal t)) (je_Block (es ! m)))) (je_Data (es ! m))\<rparr>)"
  using assms
  by (simp add: co_step_def Let_def writeAtWithTrace_eq WriteAt_Inr_unless entries_in_def list_all_length not_le)

lemma apply_run:
  assumes "entries_in (j_fsOffset (js_journal t)) (j_blockSize (js_journal t)) (j_sb (js_journal t)) es" "dev_writable (js_dev t)" "m \<le> length es"
  shows "cstep\<^sup>*\<^sup>* \<lparr>cs_sys = t, cs_co = [co_at es Applying q off 0]\<rparr>
    \<lparr>cs_sys = t\<lparr>js_dev := stores (entry_writes (j_fsOffset (js_journal t)) (j_blockSize (js_journal t)) (take m es)) (js_dev t)\<rparr>,
     cs_co = [co_at es Applying q off m]\<rparr>"
  using assms(3)
proof (induction m)
  case (Suc m)
  define u where "u = t\<lparr>js_dev := stores (entry_writes (j_fsOffset (js_journal t)) (j_blockSize (js_journal t)) (take m es)) (js_dev t)\<rparr>"
  have "cstep \<lparr>cs_sys = u, cs_co = [co_at es Applying q off m]\<rparr>
    \<lparr>cs_sys = u\<lparr>js_dev := dev_store (js_dev u) (nat (entry_off (j_fsOffset (js_journal t)) (j_blockSize (js_journal t)) (je_Block (es ! m)))) (je_Data (es ! m))\<rparr>,
     cs_co = [co_at es Applying q off (Suc m)]\<rparr>"
    using apply_step [of u es m q off] assms(1,2) Suc.prems by (intro single_step) (simp add: u_def)
  moreover have "u\<lparr>js_dev := dev_store (js_dev u) (nat (entry_off (j_fsOffset (js_journal t)) (j_blockSize (js_journal t)) (je_Block (es ! m)))) (je_Data (es ! m))\<rparr>
    = t\<lparr>js_dev := stores (entry_writes (j_fsOffset (js_journal t)) (j_blockSize (js_journal t)) (take (Suc m) es)) (js_dev t)\<rparr>"
    using Suc.prems by (simp add: u_def entry_writes_take_Suc stores_append)
  ultimately show ?case
    using Suc.IH Suc.prems u_def by (auto intro: rtranclp.rtrancl_into_rtrancl)
qed (simp add: entry_writes_def)

text \<open>The journal once the record is in the sidecar, before the turn is handed on.\<close>

definition logged :: "jsys \<Rightarrow> journalEntry list \<Rightarrow> nat \<Rightarrow> jsys" where
  "logged s es m =
    (let j = js_journal s; rec = tx_record (j_nextSeq j) es
     in s\<lparr>js_journal := j\<lparr>j_nextSeq := w64 (j_nextSeq j + 1), j_appendOff := length (j_js j) + length rec, j_js := j_js j @ rec\<rparr>,
          js_dev := stores (entry_writes (j_fsOffset j) (j_blockSize j) (take m es)) (js_dev s)\<rparr>)"

lemma logged_run:
  assumes ready: "journal_ready s" and "dev_writable (js_dev s)"
    and "entries_in (j_fsOffset (js_journal s)) (j_blockSize (js_journal s)) (j_sb (js_journal s)) es" "m \<le> length es"
  shows "cstep\<^sup>*\<^sup>* (start [es] s)
    \<lparr>cs_sys = logged s es m, cs_co = [co_at es Applying (j_nextSeq (js_journal s)) (Some (length (j_js (js_journal s)))) m]\<rparr>"
proof -
  define j where "j = js_journal s"
  define q where "q = j_nextSeq j"
  define off where "off = length (j_js j)"
  have j: "j_enabled j" "j_applySeq j = q" "max (j_appendOff j) (length (j_js j)) = off"
    using ready by (simp_all add: journal_ready_def j_def q_def off_def Let_def max_def)
  define s1 where "s1 = s\<lparr>js_journal := j\<lparr>j_nextSeq := w64 (q + 1)\<rparr>\<rparr>"
  define j2 where "j2 = j\<lparr>j_nextSeq := w64 (q + 1), j_appendOff := off + length (tx_record q es)\<rparr>"
  define t2 where "t2 = s\<lparr>js_journal := j2\<rparr>"
  define t3 where "t3 = s\<lparr>js_journal := j2\<lparr>j_js := j_js j @ encode_tx q es\<rparr>\<rparr>"
  define t4 where "t4 = s\<lparr>js_journal := j2\<lparr>j_js := j_js j @ tx_record q es\<rparr>\<rparr>"
  have "cstep (start [es] s) \<lparr>cs_sys = s1, cs_co = [co_at es Numbered q None 0]\<rparr>"
    unfolding start_def list.map co_start_at
    by (rule single_step) (use j in \<open>simp add: co_step_def Let_def journal_upd_def s1_def q_def j_def\<close>)
  moreover have "cstep \<lparr>cs_sys = s1, cs_co = [co_at es Numbered q None 0]\<rparr> \<lparr>cs_sys = t2, cs_co = [co_at es Placed q (Some off) 0]\<rparr>"
    by (rule single_step) (use j in \<open>simp add: co_step_def reserveAppend_def Let_def s1_def t2_def j2_def\<close>)
  moreover have "cstep \<lparr>cs_sys = t2, cs_co = [co_at es Placed q (Some off) 0]\<rparr> \<lparr>cs_sys = t3, cs_co = [co_at es Logging q (Some off) 0]\<rparr>"
    by (rule single_step) (simp add: co_step_def Let_def js_write_def journal_upd_def t2_def t3_def j2_def off_def file_write_end)
  moreover have "cstep \<lparr>cs_sys = t3, cs_co = [co_at es Logging q (Some off) 0]\<rparr> \<lparr>cs_sys = t4, cs_co = [co_at es Waiting q (Some off) 0]\<rparr>"
    by (rule single_step) (simp add: co_step_def Let_def js_write_def journal_upd_def t3_def t4_def j2_def off_def file_write_end tx_record_split)
  moreover have "cstep \<lparr>cs_sys = t4, cs_co = [co_at es Waiting q (Some off) 0]\<rparr> \<lparr>cs_sys = t4, cs_co = [co_at es Applying q (Some off) 0]\<rparr>"
    by (rule single_step) (use j in \<open>simp add: co_step_def t4_def j2_def\<close>)
  moreover have "logged s es m = t4\<lparr>js_dev := stores (entry_writes (j_fsOffset j) (j_blockSize j) (take m es)) (js_dev s)\<rparr>"
    by (simp add: logged_def Let_def t4_def j2_def j_def [symmetric] q_def [symmetric] off_def)
  then have "cstep\<^sup>*\<^sup>* \<lparr>cs_sys = t4, cs_co = [co_at es Applying q (Some off) 0]\<rparr> \<lparr>cs_sys = logged s es m, cs_co = [co_at es Applying q (Some off) m]\<rparr>"
    using apply_run [of t4 es m q "Some off"] assms(2-4) by (simp add: t4_def j2_def j_def)
  ultimately show ?thesis
    unfolding j_def [symmetric] q_def [symmetric] off_def [symmetric] by (metis (no_types, lifting) converse_rtranclp_into_rtranclp)
qed

lemma Commit_run:
  assumes ready: "journal_ready s" and "dev_writable (js_dev s)"
    and "entries_in (j_fsOffset (js_journal s)) (j_blockSize (js_journal s)) (j_sb (js_journal s)) es"
    and com: "Commit \<lparr>tx_entries = es, tx_committed = False\<rparr> s = Some (r, tx', s2)"
  shows "cstep\<^sup>*\<^sup>* (start [es] s) \<lparr>cs_sys = s2, cs_co = [co_at es Done (j_nextSeq (js_journal s)) (Some (length (j_js (js_journal s)))) (length es)]\<rparr>"
proof -
  define j where "j = js_journal s"
  define q where "q = j_nextSeq j"
  define off where "off = length (j_js j)"
  have j: "j_enabled j" "j_applySeq j = q" "max (j_appendOff j) (length (j_js j)) = off"
    using ready by (simp_all add: journal_ready_def j_def q_def off_def Let_def max_def)
  define t where "t = logged s es (length es)"
  have "s2 = t\<lparr>js_journal := (js_journal t)\<lparr>j_applySeq := w64 (q + 1)\<rparr>\<rparr>"
    using com j apply_entries_stores(1) [OF assms(3,2)]
    by (intro jsys.equality)
      (auto simp: Commit_def Let_def reserveAppend_def j_def [symmetric] q_def [symmetric] file_write_end t_def logged_def off_def)
  then have "cstep \<lparr>cs_sys = t, cs_co = [co_at es Applying q (Some off) (length es)]\<rparr> \<lparr>cs_sys = s2, cs_co = [co_at es Done q (Some off) (length es)]\<rparr>"
    by (intro single_step) (use j in \<open>simp add: co_step_def hand_on_def journal_upd_def t_def logged_def Let_def j_def\<close>)
  with logged_run [OF assms(1-3), of "length es"] show ?thesis
    unfolding t_def j_def q_def off_def by (auto intro: rtranclp.rtrancl_into_rtrancl)
qed

section \<open>What a crash finds\<close>

text \<open>The device when the machine stops: the block write that is next may have reached it with
  its first \<open>p\<close> bytes only (with none for \<open>p = 0\<close>).\<close>

definition torn_dev :: "nat \<Rightarrow> csys \<Rightarrow> device" where
  "torn_dev p s =
    (let c = hd (cs_co s); j = js_journal (cs_sys s); f = js_dev (cs_sys s)
     in if co_phase c = Applying \<and> co_applied c < length (co_entries c) \<and> 0 < p then
          let e = co_entries c ! co_applied c
          in dev_store f (nat (entry_off (j_fsOffset j) (j_blockSize j) (je_Block e))) (take p (je_Data e))
        else f)"

text \<open>What the next start of the program begins with: the sidecar file opened anew beside that device.\<close>

definition reopen :: "nat \<Rightarrow> csys \<Rightarrow> jsys" where
  "reopen p s =
    (let j = js_journal (cs_sys s)
     in \<lparr>js_journal = OpenJournal (j_js j) (j_fsOffset j) (j_blockSize j) (j_sb j), js_dev = torn_dev p s\<rparr>)"

definition solo :: "jsys \<Rightarrow> journalEntry list \<Rightarrow> csys \<Rightarrow> bool" where
  "solo s es s1 \<longleftrightarrow>
    (\<exists>c. cs_co s1 = [c] \<and> co_entries c = es \<and> fixed (cs_sys s1) = fixed s \<and>
     (let q = j_nextSeq (js_journal s); js = j_js (js_journal s); js1 = j_js (js_journal (cs_sys s1)); f1 = js_dev (cs_sys s1);
          W = entry_writes (j_fsOffset (js_journal s)) (j_blockSize (js_journal s))
      in (co_phase c \<noteq> Staged \<longrightarrow> co_seq c = q) \<and> (co_phase c \<in> {Placed, Logging} \<longrightarrow> co_off c = Some (length js)) \<and>
      (case co_phase c of
         Staged \<Rightarrow> cs_sys s1 = s \<and> co_applied c = 0
       | Numbered \<Rightarrow> js1 = js \<and> f1 = js_dev s \<and> j_appendOff (js_journal (cs_sys s1)) \<le> length js \<and> co_applied c = 0
       | Placed \<Rightarrow> js1 = js \<and> f1 = js_dev s \<and> co_applied c = 0
       | Logging \<Rightarrow> js1 = js @ encode_tx q es \<and> f1 = js_dev s \<and> co_applied c = 0
       | Waiting \<Rightarrow> js1 = js @ tx_record q es \<and> f1 = js_dev s \<and> co_applied c = 0
       | Applying \<Rightarrow> js1 = js @ tx_record q es \<and> f1 = stores (W (take (co_applied c) es)) (js_dev s)
       | Done \<Rightarrow> js1 = js @ tx_record q es \<and> f1 = stores (W es) (js_dev s)
       | Gone \<Rightarrow> (\<exists>k. js1 = js @ take k (tx_record q es)) \<and> f1 = js_dev s)))"

lemma solo_start: "solo s es (start [es] s)"
  by (simp add: solo_def start_def co_start_def Let_def)

lemma solo_apply:
  assumes inv: "solo s es s1" and c: "cs_co s1 = [c]" "co_phase c = Applying" and m: "moves s1 0 c' t"
    and ok: "entries_in (j_fsOffset (js_journal s)) (j_blockSize (js_journal s)) (j_sb (js_journal s)) es" "dev_writable (js_dev s)"
  shows "solo s es \<lparr>cs_sys = t, cs_co = [c']\<rparr>"
proof -
  have es: "co_entries c = es" and fx: "fixed (cs_sys s1) = fixed s" and q: "co_seq c = j_nextSeq (js_journal s)"
    and js: "j_js (js_journal (cs_sys s1)) = j_js (js_journal s) @ tx_record (j_nextSeq (js_journal s)) es"
    and f: "js_dev (cs_sys s1) = stores (entry_writes (j_fsOffset (js_journal s)) (j_blockSize (js_journal s)) (take (co_applied c) es)) (js_dev s)"
    using inv c by (auto simp: solo_def Let_def)
  have at: "c = co_at es Applying (co_seq c) (co_off c) (co_applied c)"
    using c(2) es by (simp add: co_at_def)
  have st: "co_step c (cs_sys s1) = Some (c', t)"
    using m c by (simp add: moves_def co_fail_def)
  show ?thesis
  proof (cases "co_applied c < length es")
    case True
    have "co_step c (cs_sys s1) = Some (c\<lparr>co_applied := Suc (co_applied c)\<rparr>, (cs_sys s1)\<lparr>js_dev := dev_store (js_dev (cs_sys s1))
        (nat (entry_off (j_fsOffset (js_journal s)) (j_blockSize (js_journal s)) (je_Block (es ! co_applied c)))) (je_Data (es ! co_applied c))\<rparr>)"
      using apply_step [of "cs_sys s1" es "co_applied c" "co_seq c" "co_off c"] True ok fx f at
      by (simp add: fixed_def) (metis co_at_simps(7))
    then show ?thesis
      using st c(2) es fx q js f True by (auto simp: solo_def Let_def entry_writes_take_Suc stores_append)
  next
    case False
    then show ?thesis
      using st c(2) es fx q js f by (auto simp: solo_def Let_def co_step_def)
  qed
qed

lemma solo_moves:
  assumes inv: "solo s es s1" and m: "moves s1 i c' t" and ready: "journal_ready s"
    and ok: "entries_in (j_fsOffset (js_journal s)) (j_blockSize (js_journal s)) (j_sb (js_journal s)) es" "dev_writable (js_dev s)"
  shows "solo s es \<lparr>cs_sys = t, cs_co = (cs_co s1)[i := c']\<rparr>"
proof -
  obtain c where c: "cs_co s1 = [c]"
    using inv by (auto simp: solo_def)
  then have i: "i = 0"
    using m by (simp add: moves_def)
  have en: "j_enabled (js_journal (cs_sys s1))" and es: "co_entries c = es" and fx: "fixed (cs_sys s1) = fixed s"
    using inv ready c by (auto simp: solo_def journal_ready_def fixed_def Let_def)
  define q where "q = j_nextSeq (js_journal s)"
  define js where "js = j_js (js_journal s)"
  have inv': "co_phase c \<noteq> Staged \<longrightarrow> co_seq c = q" "co_phase c \<in> {Placed, Logging} \<longrightarrow> co_off c = Some (length js)"
    using inv c by (auto simp: solo_def Let_def q_def js_def)
  have ap: "j_appendOff (js_journal s) \<le> length js"
    using ready by (simp add: journal_ready_def Let_def js_def)
  have rec: "take k (encode_tx q es) = take (min k (length (encode_tx q es))) (tx_record q es)" for k
    by (simp add: tx_record_split min_def)
  have rec2: "encode_tx q es @ take k (commit_record q (encode_tx q es)) = take (length (encode_tx q es) + k) (tx_record q es)" for k
    by (simp add: tx_record_split)
  show ?thesis
  proof (cases "co_phase c = Applying")
    case True
    then show ?thesis
      using solo_apply [OF inv c True _ ok] m c i by simp
  next
    case False
    from m en show ?thesis
    proof (cases rule: moves_cases)
      case number
      then show ?thesis
        using inv c i ap es by (auto simp: solo_def Let_def jn_def js_def fixed_def journal_upd_def)
    next
      case (place off j')
      then show ?thesis
        using inv c i es by (auto simp: solo_def Let_def reserveAppend_def fixed_def)
    next
      case (body off)
      then show ?thesis
        using inv c i es by (auto simp: solo_def Let_def file_write_end co_body_def)
    next
      case (seal off)
      then show ?thesis
        using inv c i es by (auto simp: solo_def Let_def file_write_end co_body_def tx_record_split)
    next
      case turn
      then show ?thesis
        using inv c i es by (auto simp: solo_def Let_def entry_writes_def)
    next
      case lost
      have "\<exists>k. j_js (js_journal (cs_sys s1)) = js @ take k (tx_record q es)" "js_dev (cs_sys s1) = js_dev s"
        using lost inv c i rec [of "length (encode_tx q es)"] take_0 by (auto simp: solo_def Let_def js_def q_def intro: exI [of _ 0])
      then show ?thesis
        using lost inv' fx c i es by (auto simp: solo_def Let_def js_def q_def)
    next
      case (torn_body off k)
      then show ?thesis
        using inv c i es rec [of k] by (auto simp: solo_def Let_def file_write_end co_body_def q_def)
    next
      case (torn_seal off k)
      then show ?thesis
        using inv c i es rec2 [of k] by (auto simp: solo_def Let_def file_write_end co_body_def q_def)
    qed (use False c i in simp_all)
  qed
qed

lemma solo_dev:
  assumes "solo s es s1"
  shows "dev_writable (js_dev (cs_sys s1)) = dev_writable (js_dev s)"
    "co_phase (hd (cs_co s1)) \<notin> {Waiting, Applying, Done} \<Longrightarrow> js_dev (cs_sys s1) = js_dev s"
  using assms by (cases "co_phase (hd (cs_co s1))"; auto simp: solo_def Let_def)+

lemma solo_fsteps:
  assumes "fstep\<^sup>*\<^sup>* (start [es] s) s1" "journal_ready s"
    and "entries_in (j_fsOffset (js_journal s)) (j_blockSize (js_journal s)) (j_sb (js_journal s)) es" "dev_writable (js_dev s)"
  shows "solo s es s1"
  using assms(1)
proof (induction rule: rtranclp_induct)
  case (step s1 s2)
  obtain i c' t where "moves s1 i c' t" "s2 = \<lparr>cs_sys = t, cs_co = (cs_co s1)[i := c']\<rparr>"
    using step(2) fstep_moves by blast
  then show ?case
    using solo_moves [OF step.IH _ assms(2-4)] by simp
qed (rule solo_start)

section \<open>What the replay makes of it\<close>

lemma replay_reopened:
  assumes "txs_ok fsOffset blockSize sb ts" "dev_writable f"
  shows "fst (ReplayOnOpen \<lparr>js_journal = OpenJournal (records ts) fsOffset blockSize sb, js_dev = f\<rparr>) = Inr ()
    \<and> js_dev (snd (ReplayOnOpen \<lparr>js_journal = OpenJournal (records ts) fsOffset blockSize sb, js_dev = f\<rparr>)) = stores (txs_writes fsOffset blockSize ts) f"
proof -
  have "list_all tx_fits ts"
    using assms(1) by (simp add: txs_ok_def list_all_iff)
  then show ?thesis
    using replay_records [OF assms, of "[]"]
    by (simp add: OpenJournal_def initNextSeq_def init_records ReplayOnOpen_def replay_end)
qed

lemma replay_reopened_torn:
  assumes "txs_ok fsOffset blockSize sb ts" "tx_fits (seq, es)" "k < length (tx_record seq es)" "dev_writable f"
    and fin: "stores (txs_writes fsOffset blockSize ts) f = f"
  shows "js_dev (snd (ReplayOnOpen \<lparr>js_journal = OpenJournal (records ts @ take k (tx_record seq es)) fsOffset blockSize sb, js_dev = f\<rparr>)) = f"
proof -
  define j where "j = OpenJournal (records ts @ take k (tx_record seq es)) fsOffset blockSize sb"
  have j: "j_fsOffset j = fsOffset" "j_blockSize j = blockSize" "j_sb j = sb" "j_js j = records ts @ take k (tx_record seq es)"
    by (simp_all add: j_def OpenJournal_def initNextSeq_def Let_def split: sum.split option.split)
  obtain r where "replay_loop fsOffset blockSize sb (take k (tx_record seq es)) (next_after (j_nextSeq j) ts) f = (r, next_after (j_nextSeq j) ts, f)"
    using replay_torn [OF assms(2,3)] by blast
  then have "replay_loop fsOffset blockSize sb (j_js j) (j_nextSeq j) f = (r, next_after (j_nextSeq j) ts, f)"
    by (simp add: j fin replay_records [OF assms(1,4)])
  then show ?thesis
    unfolding j_def [symmetric] by (simp add: ReplayOnOpen_def Let_def j)
qed

lemma torn_dev_absorbed:
  assumes "solo s es s1" "c = hd (cs_co s1)" "co_phase c \<in> {Waiting, Applying, Done}"
    and "W = entry_writes (j_fsOffset (js_journal s)) (j_blockSize (js_journal s)) es" "js_dev s = stores vs f"
  shows "stores (vs @ W) (torn_dev p s1) = stores (vs @ W) f"
proof -
  define m where "m = (case co_phase c of Applying \<Rightarrow> co_applied c | Done \<Rightarrow> length W | _ \<Rightarrow> 0)"
  have lW: "length W = length es" and nW: "n < length es \<Longrightarrow> W ! n = (nat (entry_off (j_fsOffset (js_journal s)) (j_blockSize (js_journal s)) (je_Block (es ! n))), je_Data (es ! n))" for n
    by (simp_all add: assms(4) entry_writes_def)
  have c: "co_entries c = es" and fx: "fixed (cs_sys s1) = fixed s"
    using assms(1,2) by (auto simp: solo_def)
  have tW: "entry_writes (j_fsOffset (js_journal s)) (j_blockSize (js_journal s)) (take n es) = take n W" for n
    by (simp add: assms(4) entry_writes_def take_map)
  have f1: "js_dev (cs_sys s1) = stores (take m W) (js_dev s)"
    using assms(1-3) tW by (auto simp: solo_def Let_def m_def assms(4))
  show ?thesis
  proof (cases "co_phase c = Applying \<and> co_applied c < length es \<and> 0 < p")
    case True
    then have m: "m < length W" "co_applied c = m"
      by (simp_all add: m_def lW)
    then have "partial m p W = take m W @ [(fst (W ! m), take p (snd (W ! m)))]"
      by (simp add: partial_def take_Suc_conv_app_nth Cons_nth_drop_Suc [symmetric])
    then have "torn_dev p s1 = stores (partial m p W) (stores vs f)"
      using True c fx f1 assms(2,5) m lW nW [of m] by (simp add: torn_dev_def fixed_def Let_def stores_append)
    then show ?thesis
      using partial_absorbed by simp
  next
    case False
    then have "torn_dev p s1 = stores (vs @ take m W) f"
      using f1 assms(2,5) c by (auto simp: torn_dev_def Let_def stores_append)
    then show ?thesis
      using stores_again [of "vs @ take m W" "drop m W" f] by simp
  qed
qed

text \<open>A record cut anywhere behind the records of \<open>ts\<close>: the device stays as it is, or the record was complete.\<close>

lemma replay_reopened_part:
  assumes ok: "txs_ok fsOffset blockSize sb (ts @ [(seq, es)])" and f: "dev_writable f"
    and fin: "stores (txs_writes fsOffset blockSize ts) f = f"
    and R: "R = ReplayOnOpen \<lparr>js_journal = OpenJournal (records ts @ take k (tx_record seq es)) fsOffset blockSize sb, js_dev = f\<rparr>"
  shows "js_dev (snd R) = f \<or> fst R = Inr () \<and> js_dev (snd R) = stores (entry_writes fsOffset blockSize es) f"
proof (cases "k < length (tx_record seq es)")
  case True
  have "txs_ok fsOffset blockSize sb ts" "tx_fits (seq, es)"
    using ok by (simp_all add: txs_ok_def)
  then show ?thesis
    using replay_reopened_torn [OF _ _ True f fin] by (simp add: R)
next
  case False
  then have "records ts @ take k (tx_record seq es) = records (ts @ [(seq, es)])"
    "stores (txs_writes fsOffset blockSize (ts @ [(seq, es)])) f = stores (entry_writes fsOffset blockSize es) f"
    by (simp_all add: records_def txs_writes_def stores_append fin [unfolded txs_writes_def])
  then show ?thesis
    using replay_reopened [OF ok f] by (simp add: R)
qed

text \<open>C33: a crash in the middle of a commit loses nothing and shows nothing half done.  Take a journal with
  nothing pending whose sidecar holds the records of the transactions \<open>ts\<close>, beside a device that
  has them applied.  The commit of one more transaction succeeds, and it is a run of the steps of
  \<open>Commit\<close>.  Stop the program in any state these steps reach, with writes to the sidecar file that
  fail half-way among them and with only \<open>p\<close> bytes of the block write under way on the device,
  open the sidecar again and replay it.  The device is then either exactly as before the commit
  or exactly as after it, and in the second case the replay has succeeded.  Before anything of the
  record was written it is the first and the replay succeeds; once the commit record is in the
  sidecar, and in particular when the commit has returned, it is the second.\<close>

theorem commit_crash_atomic:
  assumes "journal_ready s" "j_js (js_journal s) = records ts"
    and "txs_ok (j_fsOffset (js_journal s)) (j_blockSize (js_journal s)) (j_sb (js_journal s)) (ts @ [(j_nextSeq (js_journal s), es)])"
    and "js_dev s = stores (txs_writes (j_fsOffset (js_journal s)) (j_blockSize (js_journal s)) ts) f" "dev_writable f"
    and "fstep\<^sup>*\<^sup>* (start [es] s) s1"
  shows "\<exists>tx' s2 c. Commit \<lparr>tx_entries = es, tx_committed = False\<rparr> s = Some (Inr (), tx', s2)
    \<and> cstep\<^sup>*\<^sup>* (start [es] s) \<lparr>cs_sys = s2, cs_co = [c]\<rparr> \<and> co_phase c = Done
    \<and> (case ReplayOnOpen (reopen p s1) of (r, s3) \<Rightarrow>
         (js_dev s3 = js_dev s \<or> r = Inr () \<and> js_dev s3 = js_dev s2)
         \<and> (co_phase (hd (cs_co s1)) \<in> {Staged, Numbered, Placed} \<longrightarrow> r = Inr () \<and> js_dev s3 = js_dev s)
         \<and> (co_phase (hd (cs_co s1)) \<in> {Waiting, Applying, Done} \<longrightarrow> r = Inr () \<and> js_dev s3 = js_dev s2))"
proof -
  define q where "q = j_nextSeq (js_journal s)"
  define fo where "fo = j_fsOffset (js_journal s)"
  define bs where "bs = j_blockSize (js_journal s)"
  define sb where "sb = j_sb (js_journal s)"
  note geo = q_def [symmetric] fo_def [symmetric] bs_def [symmetric] sb_def [symmetric]
  define vs where "vs = txs_writes fo bs ts"
  define W where "W = entry_writes fo bs es"
  define c1 where "c1 = hd (cs_co s1)"
  have ok: "txs_ok fo bs sb ts" "txs_ok fo bs sb (ts @ [(q, es)])" "tx_fits (q, es)" "entries_in fo bs sb es"
    using assms(3) by (simp_all add: geo txs_ok_def)
  have dev: "js_dev s = stores vs f" "dev_writable (js_dev s)"
    using assms(4,5) by (simp_all add: vs_def geo)
  have all: "txs_writes fo bs (ts @ [(q, es)]) = vs @ W" "records (ts @ [(q, es)]) = records ts @ tx_record q es"
    by (simp_all add: txs_writes_def vs_def W_def records_def)
  have again: "stores vs (js_dev s) = js_dev s"
    using stores_again [of vs "[]" f] by (simp add: dev)
  obtain tx' s2 where com: "Commit \<lparr>tx_entries = es, tx_committed = False\<rparr> s = Some (Inr (), tx', s2)"
    and s2: "js_dev s2 = stores W (js_dev s)"
    by (rule Commit_ready [OF assms(1) _ dev(2), of es]) (use ok(4) in \<open>simp_all add: geo W_def\<close>)
  note run = Commit_run [OF assms(1) dev(2) _ com, unfolded geo, OF ok(4)]
  have inv: "solo s es s1"
    using solo_fsteps [OF assms(6,1) _ dev(2)] ok(4) by (simp add: geo)
  then have fx: "fixed (cs_sys s1) = fixed s"
    by (auto simp: solo_def)
  define R where "R = ReplayOnOpen (reopen p s1)"
  have re: "reopen p s1 = \<lparr>js_journal = OpenJournal (j_js (js_journal (cs_sys s1))) fo bs sb, js_dev = torn_dev p s1\<rparr>"
    using fx by (simp add: reopen_def Let_def fixed_def geo)
  have td: "dev_writable (torn_dev p s1)" "co_phase c1 \<notin> {Waiting, Applying, Done} \<Longrightarrow> torn_dev p s1 = js_dev s"
    using solo_dev [OF inv] dev(2) by (simp_all add: torn_dev_def Let_def c1_def)
  have after: "fst R = Inr () \<and> js_dev (snd R) = js_dev s2" if "co_phase c1 \<in> {Waiting, Applying, Done}"
  proof -
    have "j_js (js_journal (cs_sys s1)) = records (ts @ [(q, es)])"
      unfolding all(2) using inv that by (auto simp: solo_def Let_def c1_def assms(2) q_def)
    moreover have "stores (vs @ W) (torn_dev p s1) = js_dev s2"
      using torn_dev_absorbed [OF inv c1_def that _ dev(1)] by (simp add: W_def geo s2 dev(1) stores_append)
    ultimately show ?thesis
      using replay_reopened [OF ok(2) td(1)] by (simp add: R_def re all(1))
  qed
  have before: "fst R = Inr () \<and> js_dev (snd R) = js_dev s" if "co_phase c1 \<in> {Staged, Numbered, Placed}"
  proof -
    have "j_js (js_journal (cs_sys s1)) = records ts" "torn_dev p s1 = js_dev s"
      using inv that td(2) by (auto simp: solo_def Let_def c1_def assms(2))
    then show ?thesis
      using replay_reopened [OF ok(1) dev(2)] again by (simp add: R_def re vs_def)
  qed
  have torn: "js_dev (snd R) = js_dev s \<or> fst R = Inr () \<and> js_dev (snd R) = js_dev s2" if p: "co_phase c1 \<in> {Logging, Gone}"
  proof -
    have "\<exists>k. j_js (js_journal (cs_sys s1)) = records ts @ take k (tx_record q es)"
      using inv p by (auto simp: solo_def Let_def c1_def assms(2) q_def tx_record_split intro: exI [of _ "length (encode_tx q es)"])
    then obtain k where k: "j_js (js_journal (cs_sys s1)) = records ts @ take k (tx_record q es)"
      by blast
    moreover have "torn_dev p s1 = js_dev s"
      using td(2) p by auto
    ultimately show ?thesis
      using replay_reopened_part [OF ok(2) dev(2) again [unfolded vs_def] refl, of k] by (simp add: R_def re s2 W_def)
  qed
  have "co_phase c1 \<in> {Waiting, Applying, Done} \<or> co_phase c1 \<in> {Staged, Numbered, Placed} \<or> co_phase c1 \<in> {Logging, Gone}"
    by (cases "co_phase c1") simp_all
  then have "(js_dev (snd R) = js_dev s \<or> fst R = Inr () \<and> js_dev (snd R) = js_dev s2)"
    using after before torn by blast
  then show ?thesis
    using com run after before unfolding R_def [symmetric] c1_def [symmetric] by (auto simp: case_prod_beta)
qed

text \<open>The sample commit stopped before it began, and with its first block and one byte of its second
  block on the device.\<close>

theorem commit_crash_atomic_witness:
  "\<exists>s1 tx' s2. fstep\<^sup>*\<^sup>* (start [sample_tx 40] sample_js) s1 \<and> co_phase (hd (cs_co s1)) = Applying \<and> co_applied (hd (cs_co s1)) = 1
    \<and> Commit \<lparr>tx_entries = sample_tx 40, tx_committed = False\<rparr> sample_js = Some (Inr (), tx', s2)
    \<and> js_dev (snd (ReplayOnOpen (reopen 1 s1))) = js_dev s2
    \<and> js_dev (snd (ReplayOnOpen (reopen 1 (start [sample_tx 40] sample_js)))) = js_dev sample_js"
proof -
  have ts: "j_js (js_journal sample_js) = records []" "js_dev sample_js = stores (txs_writes 0 64 []) mini_dev"
    by (simp_all add: records_def txs_writes_def)
  have ok: "txs_ok 0 64 mini_sb [(1, sample_tx 40)]" and ein: "entries_in 0 64 mini_sb (sample_tx 40)"
    using sample_txs_ok [of 40] by (simp_all add: txs_ok_def)
  define s1 where "s1 = \<lparr>cs_sys = logged sample_js (sample_tx 40) 1, cs_co = [co_at (sample_tx 40) Applying 1 (Some 0) 1]\<rparr>"
  have "cstep\<^sup>*\<^sup>* (start [sample_tx 40] sample_js) s1"
    using logged_run [of sample_js "sample_tx 40" 1] ein mini_dev_writable by (simp add: s1_def sample_tx_def)
  then have run: "fstep\<^sup>*\<^sup>* (start [sample_tx 40] sample_js) s1"
    by (rule csteps_fsteps)
  have "co_phase (hd (cs_co (start [sample_tx 40] sample_js))) = Staged" "co_phase (hd (cs_co s1)) = Applying" "co_applied (hd (cs_co s1)) = 1"
    by (simp_all add: start_def co_start_def s1_def)
  with commit_crash_atomic [of sample_js "[]" "sample_tx 40" mini_dev s1 1]
    commit_crash_atomic [of sample_js "[]" "sample_tx 40" mini_dev "start [sample_tx 40] sample_js" 1]
  show ?thesis
    using run ts ok mini_dev_writable by (auto simp: case_prod_beta)
qed

end
