(* ===== verification/Extents.thy ===== *)
theory Extents
  imports Inode
begin

text \<open>
  Extent trees: the reader of \<open>inode.go\<close> (\<open>parseExtentRoot\<close>, \<open>parseExtentNode\<close>) with its
  validation, the writers \<open>setInlineExtents\<close> (\<open>inode.go\<close>) and the leaf and root encoders of
  \<open>writeExtentTree\<close> and \<open>prepareExtentChild\<close> (\<open>write.go\<close>), and the builders of leaf lists,
  \<open>buildExtents\<close> (\<open>write.go\<close>) and \<open>coalesceExtents\<close> (\<open>writeat.go\<close>).
\<close>

section \<open>Reading\<close>

definition get_leaf :: "byte list \<Rightarrow> nat \<Rightarrow> extentLeaf" where
  "get_leaf buf off =
    (let cnt = u16_at buf (off + 4) in
     \<lparr>LogBlock = u32_at buf off,
      PhysBlock = join32 (u16_at buf (off + 6)) (u32_at buf (off + 8)),
      Count = (if cnt > 32768 then cnt AND 0x7FFF else cnt)\<rparr>)"

definition get_index :: "byte list \<Rightarrow> nat \<Rightarrow> u64" where
  "get_index buf off = join32 (u16_at buf (off + 8)) (u32_at buf (off + 4))"

text \<open>The entries the loop visits: it stops at the first one that does not fit in the buffer.\<close>

definition node_entries :: "byte list \<Rightarrow> nat list" where
  "node_entries buf =
    map (\<lambda>i. 12 + i * 12) (takeWhile (\<lambda>i. 12 + i * 12 + 12 \<le> length buf) [0..<u16_at buf 2])"

definition maxExtentDepth :: nat where
  "maxExtentDepth = 5"

definition check_header :: "byte list \<Rightarrow> u16 \<Rightarrow> unit result" where
  "check_header buf expectDepth =
    (if length buf < 12 then Inl ErrExtentShort
     else if u16_at buf 0 \<noteq> ExtentMagic then Inl ErrExtentMagic
     else if u16_at buf 6 \<noteq> expectDepth then Inl ErrExtentDepth
     else if u16_at buf 6 > maxExtentDepth then Inl ErrExtentDepth
     else Inr ())"

primrec walk_children :: "(byte list \<Rightarrow> 'v \<Rightarrow> (extentLeaf list \<times> 'v) result) \<Rightarrow> 'v safeio \<Rightarrow> device
    \<Rightarrow> int \<Rightarrow> superblock \<Rightarrow> u64 list \<Rightarrow> 'v \<Rightarrow> (extentLeaf list \<times> 'v) result" where
  "walk_children node S f fsOffset sb [] v = Inr ([], v)"
| "walk_children node S f fsOffset sb (c # cs) v =
    (if c = 0 \<or> (BlocksCount sb \<noteq> 0 \<and> c \<ge> BlocksCount sb) then Inl ErrExtentIndexRange
     else res_bind (Check S v c) (\<lambda>v1.
          res_bind (readRawBlock f fsOffset sb c) (\<lambda>childBuf.
          res_bind (node childBuf v1) (\<lambda>(sub, v2).
          res_bind (walk_children node S f fsOffset sb cs v2) (\<lambda>(rest, v3).
            Inr (sub @ rest, v3))))))"

primrec parseExtentNode :: "u16 \<Rightarrow> 'v safeio \<Rightarrow> device \<Rightarrow> int \<Rightarrow> superblock \<Rightarrow> byte list \<Rightarrow> 'v
    \<Rightarrow> (extentLeaf list \<times> 'v) result" where
  "parseExtentNode 0 S f fsOffset sb buf v =
    res_bind (check_header buf 0) (\<lambda>_. Inr (map (get_leaf buf) (node_entries buf), v))"
| "parseExtentNode (Suc d) S f fsOffset sb buf v =
    res_bind (check_header buf (Suc d)) (\<lambda>_.
      walk_children (\<lambda>b w. parseExtentNode d S f fsOffset sb b w) S f fsOffset sb
        (map (get_index buf) (node_entries buf)) v)"

definition parseExtentRoot :: "'v safeio \<Rightarrow> device \<Rightarrow> int \<Rightarrow> superblock \<Rightarrow> byte list \<Rightarrow> extentLeaf list result" where
  "parseExtentRoot S f fsOffset sb buf =
    (if length buf < 12 then Inl ErrExtentShort
     else if u16_at buf 6 > maxExtentDepth then Inl ErrExtentDepth
     else res_bind (parseExtentNode (u16_at buf 6) S f fsOffset sb buf (VisitSet0 S)) (\<lambda>(leaves, _).
          res_bind (validateExtents leaves) (\<lambda>_. Inr leaves)))"

definition extents :: "'v safeio \<Rightarrow> device \<Rightarrow> int \<Rightarrow> superblock \<Rightarrow> inode \<Rightarrow> extentLeaf list result" where
  "extents S f fsOffset sb i =
    (if has_flag (inode_flags i) InodeFlagInlineData then Inl ErrInlineUnsupported
     else if \<not> has_flag (inode_flags i) InodeFlagExtents then Inl ErrBlockMapUnsupported
     else parseExtentRoot S f fsOffset sb (iblock i))"

section \<open>Writing\<close>

definition put_leaf :: "byte list \<Rightarrow> nat \<Rightarrow> extentLeaf \<Rightarrow> byte list" where
  "put_leaf buf off e =
    put_u32 (put_u16 (put_u16 (put_u32 buf off (LogBlock e)) (off + 4) (Count e))
      (off + 6) (w16 (drop_bit 32 (PhysBlock e)))) (off + 8) (w32 (PhysBlock e AND 0xFFFFFFFF))"

fun put_leaves :: "byte list \<Rightarrow> nat \<Rightarrow> extentLeaf list \<Rightarrow> byte list" where
  "put_leaves buf i [] = buf"
| "put_leaves buf i (e # es) = put_leaves (put_leaf buf (12 + i * 12) e) (i + 1) es"

definition put_header :: "byte list \<Rightarrow> u16 \<Rightarrow> u16 \<Rightarrow> u16 \<Rightarrow> byte list" where
  "put_header buf entries cap depth =
    put_u16 (put_u16 (put_u16 (put_u16 buf 0 ExtentMagic) 2 entries) 4 cap) 6 depth"

definition set_extents_flag :: "byte list \<Rightarrow> byte list" where
  "set_extents_flag raw = put_u32 raw inodeOffFlags (u32_at raw inodeOffFlags OR InodeFlagExtents)"

definition setInlineExtents :: "extentLeaf list \<Rightarrow> inode \<Rightarrow> inode result" where
  "setInlineExtents exts i =
    (if length exts > 4 then Inl ErrTooManyExtents
     else
       let buf = put_leaves (put_u32 (put_header (zeros 60) (w16 (length exts)) 4 0) 8 0) 0 exts
       in Inr (i\<lparr>in_raw := set_extents_flag (put_bytes (in_raw i) inodeOffBlock buf)\<rparr>))"

definition leafCap :: "superblock \<Rightarrow> nat" where
  "leafCap sb = (BlockSize sb - 12) div 12"

definition extent_child_buf :: "superblock \<Rightarrow> extentLeaf list \<Rightarrow> byte list" where
  "extent_child_buf sb exts =
    put_leaves (put_header (zeros (BlockSize sb)) (w16 (length exts)) (w16 (leafCap sb)) 0) 0 exts"

definition set_index_root :: "extentLeaf list \<Rightarrow> u64 \<Rightarrow> inode \<Rightarrow> inode" where
  "set_index_root exts childBlock i =
    (let b0 = put_u32 (put_header (zeros 60) 1 4 1) 8 0;
         b1 = put_u32 b0 12 (LogBlock (hd exts));
         b2 = put_u32 b1 16 (w32 (childBlock AND 0xFFFFFFFF));
         b3 = put_u16 b2 20 (w16 (drop_bit 32 childBlock))
     in i\<lparr>in_raw := set_extents_flag (put_bytes (in_raw i) inodeOffBlock b3)\<rparr>)"

definition singleExtentChild :: "inode \<Rightarrow> u64 option" where
  "singleExtentChild i =
    (let buf = iblock i in
     if u16_at buf 0 \<noteq> ExtentMagic then None
     else if u16_at buf 6 \<noteq> 1 \<or> u16_at buf 2 \<noteq> 1 then None
     else Some (join32 (u16_at buf 20) (u32_at buf 16)))"

section \<open>Building leaf lists\<close>

fun build_loop :: "u64 \<Rightarrow> u64 \<Rightarrow> u16 \<Rightarrow> u32 \<Rightarrow> u64 list \<Rightarrow> extentLeaf list" where
  "build_loop prev start cnt logBase [] = [\<lparr>LogBlock = logBase, PhysBlock = start, Count = cnt\<rparr>]"
| "build_loop prev start cnt logBase (p # ps) =
    (if p = w64 (prev + 1) \<and> cnt < 0x7FFF
     then build_loop p start (cnt + 1) logBase ps
     else \<lparr>LogBlock = logBase, PhysBlock = start, Count = cnt\<rparr>
            # build_loop p p 1 (w32 (logBase + cnt)) ps)"

fun buildExtents :: "u64 list \<Rightarrow> extentLeaf list" where
  "buildExtents [] = []"
| "buildExtents (p # ps) = build_loop p p 1 0 ps"

fun coalesce_loop :: "extentLeaf \<Rightarrow> extentLeaf list \<Rightarrow> extentLeaf list" where
  "coalesce_loop lst [] = [lst]"
| "coalesce_loop lst (e # es) =
    (if LogBlock lst + Count lst = LogBlock e \<and> w64 (PhysBlock lst + Count lst) = PhysBlock e
        \<and> Count lst + Count e \<le> 0x7FFF
     then coalesce_loop (lst\<lparr>Count := w16 (Count lst + Count e)\<rparr>) es
     else lst # coalesce_loop e es)"

text \<open>
  \<open>sort.Slice\<close> promises no order among leaves of equal \<open>LogBlock\<close>; \<open>sort_key\<close> keeps theirs.  The
  two agree when the \<open>LogBlock\<close>s are distinct, as they are for nonempty leaves that
  \<open>validateExtents\<close> accepts.
\<close>

definition coalesceExtents :: "extentLeaf list \<Rightarrow> extentLeaf list" where
  "coalesceExtents exts =
    (if length exts < 2 then exts
     else case sort_key LogBlock exts of
            [] \<Rightarrow> []
          | e # es \<Rightarrow> coalesce_loop e es)"

section \<open>Round trips\<close>

definition leaf_ok :: "extentLeaf \<Rightarrow> bool" where
  "leaf_ok e \<longleftrightarrow> LogBlock e < 4294967296 \<and> PhysBlock e < 281474976710656 \<and> Count e \<le> 32768"

lemma length_put_leaf [simp]: "off + 12 \<le> length buf \<Longrightarrow> length (put_leaf buf off e) = length buf"
  by (simp add: put_leaf_def)

lemma length_put_leaves [simp]:
  "12 + 12 * (i + length es) \<le> length buf \<Longrightarrow> length (put_leaves buf i es) = length buf"
  by (induction buf i es rule: put_leaves.induct) auto

lemma length_put_header [simp]: "12 \<le> length buf \<Longrightarrow> length (put_header buf n c d) = length buf"
  by (simp add: put_header_def)

lemma get_leaf_same:
  assumes "off + 12 \<le> length buf" "leaf_ok e"
  shows "get_leaf (put_leaf buf off e) off = e"
proof -
  have *: "PhysBlock e div 4294967296 < 65536"
    using assms(2) by (auto simp: leaf_ok_def)
  show ?thesis
    using assms *
    by (simp add: get_leaf_def put_leaf_def Let_def codec_simps leaf_ok_def and_mask32 drop_bit_eq_div)
qed

lemma bytes_at_put_leaf:
  assumes "off + 12 \<le> length buf" "o' + n \<le> off \<or> off + 12 \<le> o'"
  shows "bytes_at (put_leaf buf off e) o' n = bytes_at buf o' n"
  unfolding put_leaf_def using assms by (auto simp: bytes_at_put_other)

lemma get_put_leaf_other:
  assumes "off + 12 \<le> length buf"
  shows "o' + 12 \<le> off \<or> off + 12 \<le> o' \<Longrightarrow> get_leaf (put_leaf buf off e) o' = get_leaf buf o'"
    and "o' + 2 \<le> off \<or> off + 12 \<le> o' \<Longrightarrow> u16_at (put_leaf buf off e) o' = u16_at buf o'"
  using assms by (auto simp: get_leaf_def Let_def u16_at_def u32_at_def bytes_at_put_leaf)

lemma get_put_leaves_before:
  assumes "12 + 12 * (i + length es) \<le> length buf"
  shows "o' + 12 \<le> 12 + 12 * i \<Longrightarrow> get_leaf (put_leaves buf i es) o' = get_leaf buf o'"
    and "o' + 2 \<le> 12 + 12 * i \<Longrightarrow> u16_at (put_leaves buf i es) o' = u16_at buf o'"
  using assms
  by (induction buf i es rule: put_leaves.induct) (auto simp: get_put_leaf_other)

lemma get_put_leaves:
  assumes "12 + 12 * (i + length es) \<le> length buf" "\<forall>e\<in>set es. leaf_ok e" "j < length es"
  shows "get_leaf (put_leaves buf i es) (12 + (i + j) * 12) = es ! j"
  using assms
proof (induction buf i es arbitrary: j rule: put_leaves.induct)
  case (2 buf i e es)
  show ?case
  proof (cases j)
    case 0
    have "get_leaf (put_leaves (put_leaf buf (12 + i * 12) e) (i + 1) es) (12 + i * 12)
      = get_leaf (put_leaf buf (12 + i * 12) e) (12 + i * 12)"
      using 2(2) by (intro get_put_leaves_before(1)) auto
    also have "\<dots> = e"
      using 2(2,3) by (intro get_leaf_same) auto
    finally show ?thesis
      using 0 by simp
  next
    case (Suc k)
    have "get_leaf (put_leaves (put_leaf buf (12 + i * 12) e) (i + 1) es) (12 + (i + 1 + k) * 12) = es ! k"
      using 2(2-4) Suc by (intro 2(1)) auto
    then show ?thesis
      by (simp add: Suc)
  qed
qed simp

lemma u16_at_header:
  assumes "12 \<le> length buf" "n < 65536" "d < 65536"
  shows "u16_at (put_header buf n c d) 0 = ExtentMagic" "u16_at (put_header buf n c d) 2 = n"
    "u16_at (put_header buf n c d) 6 = d"
  using assms by (simp_all add: put_header_def codec_simps)

lemma takeWhile_fit:
  "12 + n * 12 \<le> len \<Longrightarrow> takeWhile (\<lambda>i. 12 + i * 12 + 12 \<le> len) [0..<n] = [0..<n]"
  by (simp add: takeWhile_eq_all_conv)

lemma node_entries_eq:
  "u16_at buf 2 = n \<Longrightarrow> 12 + n * 12 \<le> length buf \<Longrightarrow> node_entries buf = map (\<lambda>i. 12 + i * 12) [0..<n]"
  unfolding node_entries_def by (simp only: takeWhile_fit)

lemma parse_leaf_node:
  assumes buf: "buf = put_leaves buf0 0 exts" and len: "12 + 12 * length exts \<le> length buf0"
    and hdr: "u16_at buf0 0 = ExtentMagic" "u16_at buf0 2 = length exts" "u16_at buf0 6 = 0"
    and ok: "\<forall>e\<in>set exts. leaf_ok e"
  shows "parseExtentNode 0 S f fsOffset sb buf v = Inr (exts, v)"
proof -
  have l: "length buf = length buf0"
    using len by (simp add: buf)
  have h: "u16_at buf 0 = ExtentMagic" "u16_at buf 2 = length exts" "u16_at buf 6 = 0"
    using len hdr by (simp_all add: buf get_put_leaves_before)
  have n: "node_entries buf = map (\<lambda>i. 12 + i * 12) [0..<length exts]"
    by (rule node_entries_eq) (use h l len in simp_all)
  have "get_leaf buf (12 + j * 12) = exts ! j" if "j < length exts" for j
    using get_put_leaves [of 0 exts buf0 j] that len ok by (simp add: buf)
  then have "map (get_leaf buf) (node_entries buf) = exts"
    unfolding n by (intro nth_equalityI) simp_all
  then show ?thesis
    using len by (simp add: check_header_def h l maxExtentDepth_def)
qed

lemma has_flag_iff: "has_flag x m \<longleftrightarrow> (\<exists>k. bit x k \<and> bit m k)"
  by (simp add: has_flag_def bit_eq_iff bit_and_iff)

lemma has_flag_or: "has_flag (x OR m) n \<longleftrightarrow> has_flag x n \<or> has_flag m n"
  by (auto simp: has_flag_iff bit_or_iff)

lemma or_less_2_32: "a < 4294967296 \<Longrightarrow> b < 4294967296 \<Longrightarrow> a OR b < (4294967296 :: nat)"
  using OR_upper [of "int a" 32 "int b"] by (simp flip: of_nat_or_eq)

lemma iblock_set:
  assumes "128 \<le> length (in_raw i)" "length buf = 60"
  shows "iblock (i\<lparr>in_raw := set_extents_flag (put_bytes (in_raw i) 40 buf)\<rparr>) = buf"
  using assms bytes_at_put_bytes_same [of 40 buf "in_raw i"]
  by (simp add: iblock_def set_extents_flag_def bytes_at_put_other)

lemma flags_set:
  assumes "128 \<le> length (in_raw i)" "length buf = 60"
  shows "inode_flags (i\<lparr>in_raw := set_extents_flag (put_bytes (in_raw i) 40 buf)\<rparr>)
    = inode_flags i OR InodeFlagExtents"
proof -
  have "u32_at (put_bytes (in_raw i) 40 buf) 32 = u32_at (in_raw i) 32"
    using assms by (simp add: u32_at_def bytes_at_put_bytes_other)
  moreover have "u32_at (in_raw i) 32 OR InodeFlagExtents < 4294967296"
    by (rule or_less_2_32) simp_all
  ultimately show ?thesis
    using assms by (simp add: inode_flags_def set_extents_flag_def)
qed

lemma extents_set:
  assumes "128 \<le> length (in_raw i)" "length buf = 60" "\<not> has_flag (inode_flags i) InodeFlagInlineData"
  shows "extents S f fsOffset sb (i\<lparr>in_raw := set_extents_flag (put_bytes (in_raw i) 40 buf)\<rparr>)
    = parseExtentRoot S f fsOffset sb buf"
proof -
  have "has_flag InodeFlagExtents InodeFlagExtents" "\<not> has_flag InodeFlagExtents InodeFlagInlineData"
    by (simp_all add: has_flag_def)
  with assms show ?thesis
    by (simp add: extents_def iblock_set flags_set has_flag_or)
qed

lemma u16_at_put_u32_8:
  "12 \<le> length buf \<Longrightarrow> o' + 2 \<le> 8 \<Longrightarrow> u16_at (put_u32 buf 8 v) o' = u16_at buf o'"
  by (simp add: codec_simps)

lemma setInlineExtents_parse:
  assumes set: "setInlineExtents exts i = Inr i'" and raw: "128 \<le> length (in_raw i)"
    and ok: "\<forall>e\<in>set exts. leaf_ok e" "validateExtents exts = Inr ()"
    and inl: "\<not> has_flag (inode_flags i) InodeFlagInlineData"
  shows "extents S f fsOffset sb i' = Inr exts"
proof -
  define buf0 where "buf0 = put_u32 (put_header (zeros 60) (w16 (length exts)) 4 0) 8 0"
  have len: "length exts \<le> 4" and i': "i' = i\<lparr>in_raw := set_extents_flag (put_bytes (in_raw i) 40 (put_leaves buf0 0 exts))\<rparr>"
    using set by (auto simp: setInlineExtents_def Let_def buf0_def split: if_splits)
  have b: "length buf0 = 60" "u16_at buf0 0 = ExtentMagic" "u16_at buf0 2 = length exts" "u16_at buf0 6 = 0"
    using len by (simp_all add: buf0_def u16_at_put_u32_8 u16_at_header)
  have l: "length (put_leaves buf0 0 exts) = 60"
    using b(1) len by simp
  have "parseExtentNode 0 S f fsOffset sb (put_leaves buf0 0 exts) v = Inr (exts, v)" for v
    by (rule parse_leaf_node [OF refl _ b(2-4) ok(1)]) (use b(1) len in simp)
  moreover have "u16_at (put_leaves buf0 0 exts) 6 = 0"
    using b len by (simp add: get_put_leaves_before)
  ultimately show ?thesis
    unfolding i' extents_set [OF raw l inl]
    using ok(2) by (simp add: parseExtentRoot_def l)
qed

lemma set_index_root_buf:
  defines "buf child log \<equiv> put_u16 (put_u32 (put_u32 (put_u32 (put_header (zeros 60) 1 4 1) 8 0) 12 log) 16
    (w32 (child AND 0xFFFFFFFF))) 20 (w16 (drop_bit 32 child))"
  shows "set_index_root exts child i
      = i\<lparr>in_raw := set_extents_flag (put_bytes (in_raw i) 40 (buf child (LogBlock (hd exts))))\<rparr>"
    and "length (buf child log) = 60" and "u16_at (buf child log) 0 = ExtentMagic"
    and "u16_at (buf child log) 2 = 1" and "u16_at (buf child log) 6 = 1"
    and "child < 281474976710656 \<Longrightarrow> join32 (u16_at (buf child log) 20) (u32_at (buf child log) 16) = child"
proof -
  show "set_index_root exts child i
      = i\<lparr>in_raw := set_extents_flag (put_bytes (in_raw i) 40 (buf child (LogBlock (hd exts))))\<rparr>"
    by (simp add: set_index_root_def buf_def Let_def)
  show "length (buf child log) = 60" "u16_at (buf child log) 0 = ExtentMagic"
    "u16_at (buf child log) 2 = 1" "u16_at (buf child log) 6 = 1"
    by (simp_all add: buf_def codec_simps u16_at_header)
  show "join32 (u16_at (buf child log) 20) (u32_at (buf child log) 16) = child" if "child < 281474976710656"
  proof -
    have "child div 4294967296 < 65536"
      using that by auto
    then show ?thesis
      by (simp add: buf_def codec_simps and_mask32 drop_bit_eq_div)
  qed
qed

lemma set_index_root_parse:
  assumes raw: "128 \<le> length (in_raw i)" and inl: "\<not> has_flag (inode_flags i) InodeFlagInlineData"
    and ok: "\<forall>e\<in>set exts. leaf_ok e" "validateExtents exts = Inr ()"
    and len: "length exts \<le> leafCap sb" "length exts < 65536" "12 \<le> BlockSize sb"
    and child: "child \<noteq> 0" "BlocksCount sb = 0 \<or> child < BlocksCount sb" "child < 281474976710656"
    and rd: "readRawBlock f fsOffset sb child = Inr (extent_child_buf sb exts)"
    and vs: "visitSet_ok S vis"
  shows "extents S f fsOffset sb (set_index_root exts child i) = Inr exts
       \<and> singleExtentChild (set_index_root exts child i) = Some child"
proof -
  note root = set_index_root_buf(1) [of exts child i]
  define buf where "buf = put_u16 (put_u32 (put_u32 (put_u32 (put_header (zeros 60) 1 4 1) 8 0) 12 (LogBlock (hd exts))) 16
    (w32 (child AND 0xFFFFFFFF))) 20 (w16 (drop_bit 32 child))"
  note buf = set_index_root_buf(2-6) [where child = child and log = "LogBlock (hd exts)", folded buf_def]
  define buf0 where "buf0 = put_header (zeros (BlockSize sb)) (w16 (length exts)) (w16 (leafCap sb)) 0"
  have fit: "12 + 12 * length exts \<le> BlockSize sb"
    using len by (simp add: leafCap_def less_eq_div_iff_mult_less_eq)
  have b0: "length buf0 = BlockSize sb" "u16_at buf0 0 = ExtentMagic" "u16_at buf0 2 = length exts" "u16_at buf0 6 = 0"
    using len by (simp_all add: buf0_def u16_at_header)
  have leaf: "parseExtentNode 0 S f fsOffset sb (extent_child_buf sb exts) v = Inr (exts, v)" for v
    by (rule parse_leaf_node [OF _ _ b0(2-4) ok(1)]) (use fit b0(1) in \<open>simp_all add: extent_child_buf_def buf0_def\<close>)
  obtain v1 where v1: "Check S (VisitSet0 S) child = Inr v1"
    using vs unfolding visitSet_ok_def by (metis empty_iff)
  have n: "node_entries buf = [12]"
    using node_entries_eq [OF buf(3)] buf(1) by simp
  have idx: "get_index buf 12 = child"
    using buf(5) child(3) by (simp add: get_index_def)
  have "parseExtentNode 1 S f fsOffset sb buf (VisitSet0 S) = Inr (exts, v1)"
  proof -
    have rng: "(child = 0 \<or> BlocksCount sb \<noteq> 0 \<and> BlocksCount sb \<le> child) = False"
      using child by auto
    have hdr: "check_header buf (Suc 0) = Inr ()"
      by (simp add: check_header_def buf maxExtentDepth_def)
    show ?thesis
      unfolding One_nat_def parseExtentNode.simps(2) n hdr res_bind_simps
      unfolding list.map walk_children.simps idx rng
      by (simp add: v1 rd leaf del: parseExtentNode.simps)
  qed
  then have "parseExtentRoot S f fsOffset sb buf = Inr exts"
    using ok(2) by (simp add: parseExtentRoot_def buf maxExtentDepth_def)
  moreover have ri: "set_index_root exts child i = i\<lparr>in_raw := set_extents_flag (put_bytes (in_raw i) 40 buf)\<rparr>"
    unfolding root buf_def ..
  moreover have "iblock (set_index_root exts child i) = buf"
    unfolding ri by (rule iblock_set [OF raw buf(1)])
  ultimately show ?thesis
    using extents_set [OF raw buf(1) inl, of S f fsOffset sb] buf child(3)
    by (simp add: singleExtentChild_def)
qed

section \<open>What a leaf list maps\<close>

text \<open>The logical and physical block of every block a leaf list covers, in its order.\<close>

definition leaf_map :: "extentLeaf \<Rightarrow> (u64 \<times> u64) list" where
  "leaf_map e = map (\<lambda>k. (LogBlock e + k, PhysBlock e + k)) [0..<Count e]"

definition ext_map :: "extentLeaf list \<Rightarrow> (u64 \<times> u64) list" where
  "ext_map exts = concat (map leaf_map exts)"

lemma ext_map_simps [simp]: "ext_map [] = []" "ext_map (e # es) = leaf_map e @ ext_map es"
  by (simp_all add: ext_map_def)

lemma leaf_map_zip: "leaf_map \<lparr>LogBlock = l, PhysBlock = p, Count = c\<rparr> = zip [l..<l + c] [p..<p + c]"
  by (rule nth_equalityI) (simp_all add: leaf_map_def)

lemma leaf_map_join:
  assumes "LogBlock a + Count a = LogBlock b" "PhysBlock a + Count a = PhysBlock b"
  shows "leaf_map (a\<lparr>Count := Count a + Count b\<rparr>) = leaf_map a @ leaf_map b"
  by (rule nth_equalityI)
    (use assms in \<open>auto simp: leaf_map_def nth_append\<close>)

lemma build_loop_map:
  assumes "1 \<le> cnt" "prev + 1 = start + cnt" "\<forall>p\<in>set (prev # ps). p + 1 < 18446744073709551616"
    "logBase + cnt + length ps \<le> 4294967296"
  shows "ext_map (build_loop prev start cnt logBase ps)
    = zip [logBase..<logBase + cnt + length ps] ([start..<start + cnt] @ ps)"
  using assms
proof (induction prev start cnt logBase ps rule: build_loop.induct)
  case (2 prev start cnt logBase p ps)
  show ?case
  proof (cases "p = w64 (prev + 1) \<and> cnt < 0x7FFF")
    case True
    then have p: "p = start + cnt"
      using 2(4,5) by simp
    have "ext_map (build_loop p start (cnt + 1) logBase ps)
      = zip [logBase..<logBase + (cnt + 1) + length ps] ([start..<start + (cnt + 1)] @ ps)"
      using True p 2(4-6) by (intro 2(1)) auto
    then show ?thesis
      using True p by simp
  next
    case False
    have "ext_map (build_loop p p 1 (logBase + cnt) ps)
      = zip [logBase + cnt..<logBase + cnt + 1 + length ps] (p # ps)"
      using 2(2) [OF False] 2(5,6) by (simp add: less_eq_Suc_le)
    moreover have "[logBase..<logBase + cnt + length (p # ps)]
      = [logBase..<logBase + cnt] @ [logBase + cnt..<logBase + cnt + 1 + length ps]"
      using upt_add_eq_append [of logBase "logBase + cnt" "1 + length ps"] by (simp add: add.assoc del: upt_Suc)
    ultimately show ?thesis
      using False 2(6) by (auto simp: leaf_map_zip simp del: upt_Suc)
  qed
qed (simp add: leaf_map_zip)

lemma build_loop_counts:
  assumes "1 \<le> cnt" "cnt \<le> 0x7FFF" "e \<in> set (build_loop prev start cnt logBase ps)"
  shows "1 \<le> Count e \<and> Count e \<le> 0x7FFF"
  using assms by (induction prev start cnt logBase ps rule: build_loop.induct) (auto split: if_splits)

lemma coalesce_loop_map:
  assumes "\<forall>x\<in>set (e # es). PhysBlock x + Count x < 18446744073709551616"
  shows "ext_map (coalesce_loop e es) = ext_map (e # es)"
  using assms
proof (induction e es rule: coalesce_loop.induct)
  case (2 l e es)
  show ?case
  proof (cases "LogBlock l + Count l = LogBlock e \<and> w64 (PhysBlock l + Count l) = PhysBlock e
        \<and> Count l + Count e \<le> 0x7FFF")
    case True
    then have a: "LogBlock l + Count l = LogBlock e" "PhysBlock l + Count l = PhysBlock e"
      "w16 (Count l + Count e) = Count l + Count e"
      using 2(3) by simp_all
    then have "ext_map (coalesce_loop (l\<lparr>Count := Count l + Count e\<rparr>) es)
      = ext_map (l\<lparr>Count := Count l + Count e\<rparr> # es)"
      using 2(1) [OF True] 2(3) by simp
    with True a show ?thesis
      by (simp add: leaf_map_join)
  next
    case False
    with 2(2) [OF False] 2(3) show ?thesis
      by auto
  qed
qed simp

lemma coalesceExtents_map:
  assumes "\<forall>x\<in>set exts. PhysBlock x + Count x < 18446744073709551616"
  shows "ext_map (coalesceExtents exts) = ext_map (sort_key LogBlock exts)"
proof (cases "length exts < 2")
  case True
  then have "sort_key LogBlock exts = exts"
    by (cases exts) (auto simp: less_Suc_eq numeral_2_eq_2)
  with True show ?thesis
    by (simp add: coalesceExtents_def)
next
  case False
  then obtain e es where s: "sort_key LogBlock exts = e # es"
    by (cases "sort_key LogBlock exts") (auto dest: arg_cong [of _ _ length])
  then have "set (e # es) = set exts"
    by (metis set_sort)
  with assms have "ext_map (coalesce_loop e es) = ext_map (e # es)"
    by (intro coalesce_loop_map) simp
  with False s show ?thesis
    by (simp add: coalesceExtents_def)
qed

section \<open>Properties\<close>

text \<open>C10: up to four leaves stored inline in an inode by \<open>setInlineExtents\<close> are read back unchanged
  by \<open>extents\<close>, for any device: encoding and parsing are inverse on valid leaf lists.\<close>

theorem inline_extents_roundtrip:
  assumes "setInlineExtents exts i = Inr i'" "128 \<le> length (in_raw i)"
    and "\<forall>e\<in>set exts. leaf_ok e" "validateExtents exts = Inr ()"
    and "\<not> has_flag (inode_flags i) InodeFlagInlineData"
  shows "extents S f fsOffset sb i' = Inr exts"
  using assms by (rule setInlineExtents_parse)

definition mini_exts :: "extentLeaf list" where
  "mini_exts = [\<lparr>LogBlock = 0, PhysBlock = 40, Count = 2\<rparr>, \<lparr>LogBlock = 5, PhysBlock = 33, Count = 1\<rparr>]"

lemma mini_exts_ok:
  "\<forall>e\<in>set mini_exts. leaf_ok e" "validateExtents mini_exts = Inr ()"
  by (simp_all add: mini_exts_def leaf_ok_def validateExtents_def checkRuns_def)

lemma mini_flags: "\<not> has_flag (inode_flags (decode_inode n (zeros 128))) InodeFlagInlineData"
proof -
  have "le_nat (replicate k 0) = 0" for k
    by (induction k) simp_all
  then show ?thesis
    by (simp add: inode_flags_def decode_inode_def u32_at_def bytes_at_def zeros_def has_flag_def)
qed

theorem inline_extents_roundtrip_witness:
  "\<exists>i'. setInlineExtents mini_exts (decode_inode 3 (zeros 128)) = Inr i'
     \<and> extents safeio_ref mini_dev 0 mini_sb i' = Inr mini_exts"
proof -
  obtain i' where i': "setInlineExtents mini_exts (decode_inode 3 (zeros 128)) = Inr i'"
    by (auto simp: setInlineExtents_def mini_exts_def Let_def)
  have "128 \<le> length (in_raw (decode_inode 3 (zeros 128)))"
    by (simp add: decode_inode_def)
  from inline_extents_roundtrip [OF i' this mini_exts_ok mini_flags] i' show ?thesis
    by blast
qed

text \<open>C11: a longer list, stored in a leaf block with a single index entry in the inode (the tree of
  \<open>writeExtentTree\<close> and \<open>prepareExtentChild\<close>), is read back unchanged when that block holds what
  was written, and \<open>singleExtentChild\<close> recognises the block.\<close>

theorem index_extents_roundtrip:
  assumes "128 \<le> length (in_raw i)" "\<not> has_flag (inode_flags i) InodeFlagInlineData"
    and "\<forall>e\<in>set exts. leaf_ok e" "validateExtents exts = Inr ()"
    and "length exts \<le> leafCap sb" "length exts < 65536" "12 \<le> BlockSize sb"
    and "child \<noteq> 0" "BlocksCount sb = 0 \<or> child < BlocksCount sb" "child < 281474976710656"
    and "readRawBlock f fsOffset sb child = Inr (extent_child_buf sb exts)"
    and "visitSet_ok S vis"
  shows "extents S f fsOffset sb (set_index_root exts child i) = Inr exts
       \<and> singleExtentChild (set_index_root exts child i) = Some child"
  using assms by (rule set_index_root_parse)

lemma length_extent_child_buf:
  "12 + 12 * length exts \<le> BlockSize sb \<Longrightarrow> length (extent_child_buf sb exts) = BlockSize sb"
  by (simp add: extent_child_buf_def)

theorem index_extents_roundtrip_witness:
  "extents safeio_ref (dev_store mini_dev 2560 (extent_child_buf mini_sb mini_exts)) 0 mini_sb
     (set_index_root mini_exts 40 (decode_inode 3 (zeros 128))) = Inr mini_exts"
proof -
  define dev where "dev = dev_store mini_dev 2560 (extent_child_buf mini_sb mini_exts)"
  have "length (extent_child_buf mini_sb mini_exts) = 64"
    using length_extent_child_buf [of mini_exts mini_sb] by (simp add: mini_exts_def)
  then have "readRawBlock dev 0 mini_sb 40 = Inr (extent_child_buf mini_sb mini_exts)"
    using ReadAt_store_same [of 2560 mini_dev "extent_child_buf mini_sb mini_exts"]
    by (simp add: readRawBlock_def block_off_def dev_def)
  moreover have "128 \<le> length (in_raw (decode_inode 3 (zeros 128)))"
    by (simp add: decode_inode_def)
  moreover have "length mini_exts \<le> leafCap mini_sb" "length mini_exts < 65536"
    by (simp_all add: mini_exts_def leafCap_def)
  ultimately show ?thesis
    unfolding dev_def [symmetric]
    using index_extents_roundtrip [of "decode_inode 3 (zeros 128)" mini_exts mini_sb 40 dev 0 safeio_ref set]
      mini_exts_ok mini_flags safeio_ref_ok(3) by simp
qed

text \<open>C12: \<open>buildExtents\<close> describes exactly the blocks it is given: block \<open>i\<close> of the file is the
  \<open>i\<close>-th physical block, with no gap and no overlap, and every leaf has between 1 and 0x7FFF
  blocks.\<close>

theorem buildExtents_maps:
  assumes "\<forall>p\<in>set ps. p + 1 < 18446744073709551616" "length ps \<le> 4294967296"
  shows "ext_map (buildExtents ps) = zip [0..<length ps] ps
       \<and> (\<forall>e\<in>set (buildExtents ps). 1 \<le> Count e \<and> Count e \<le> 0x7FFF)"
proof (cases ps)
  case (Cons p qs)
  with assms build_loop_map [of 1 p p qs 0] build_loop_counts [of 1 _ p p 0 qs] show ?thesis
    by auto
qed simp

theorem buildExtents_maps_witness:
  "ext_map (buildExtents [40, 41, 50]) = [(0, 40), (1, 41), (2, 50)]"
  using buildExtents_maps [of "[40, 41, 50]"] by simp

text \<open>C13: \<open>coalesceExtents\<close> changes how a leaf list is written but not what it maps: the blocks
  covered are those of the list sorted by logical block, in that order.\<close>

theorem coalesceExtents_maps:
  assumes "\<forall>x\<in>set exts. PhysBlock x + Count x < 18446744073709551616"
  shows "ext_map (coalesceExtents exts) = ext_map (sort_key LogBlock exts)"
  using assms by (rule coalesceExtents_map)

theorem coalesceExtents_maps_witness:
  "ext_map (coalesceExtents [\<lparr>LogBlock = 2, PhysBlock = 42, Count = 1\<rparr>, \<lparr>LogBlock = 0, PhysBlock = 40, Count = 2\<rparr>])
     = [(0, 40), (1, 41), (2, 42)]"
  by (subst coalesceExtents_maps) (simp, code_simp)

end
