(* ===== verification/Blockmap.thy ===== *)
theory Blockmap
  imports Extents
begin

text \<open>
  The classic ext2/ext3 block map of \<open>blockmap.go\<close>: \<open>blockMapExtents\<close> turns the twelve direct
  and three indirect pointers of an inode into a leaf list.  The recursion descends the fixed
  level of the pointer; what it has charged against the block budget, the indirect blocks it
  has visited and the leaves emitted so far are the record \<open>bm\<close>.  \<open>bmap\<close> is the textbook
  lookup of one logical block, the reference the leaf list is proved against.
\<close>

section \<open>Walking the map\<close>

record 'v bm =
  bm_used :: u64
  bm_visited :: 'v
  bm_out :: "extentLeaf list"

definition charge :: "u64 \<Rightarrow> 'v bm \<Rightarrow> 'v bm result" where
  "charge budget st =
    (let used = w64 (bm_used st + 1) in
     if used > budget then Inl ErrTooLarge else Inr (st\<lparr>bm_used := used\<rparr>))"

definition extend_out :: "u64 \<Rightarrow> u64 \<Rightarrow> extentLeaf list \<Rightarrow> extentLeaf list" where
  "extend_out lbn phys out =
    (if out \<noteq> [] \<and> Count (last out) < 0xFFFF \<and> w64 (PhysBlock (last out) + Count (last out)) = phys
        \<and> LogBlock (last out) + Count (last out) = lbn
     then butlast out @ [(last out)\<lparr>Count := Count (last out) + 1\<rparr>]
     else out @ [\<lparr>LogBlock = w32 lbn, PhysBlock = phys, Count = 1\<rparr>])"

definition emit :: "u64 \<Rightarrow> u64 \<Rightarrow> u64 \<Rightarrow> 'v bm \<Rightarrow> 'v bm result" where
  "emit budget phys lbn st =
    res_bind (charge budget st) (\<lambda>st1.
      if lbn > 4294967295 then Inl ErrOutOfBounds
      else Inr (st1\<lparr>bm_out := extend_out lbn phys (bm_out st1)\<rparr>))"

text \<open>
  The pointers of one indirect block: each covers \<open>span\<close> logical blocks from \<open>lbn\<close> on, the
  loop stops at the end of the file and skips holes.
\<close>

fun walk_ptrs :: "(u64 \<Rightarrow> u64 \<Rightarrow> 'v bm \<Rightarrow> 'v bm result) \<Rightarrow> u64 \<Rightarrow> u64 \<Rightarrow> u64 \<Rightarrow> u64 list \<Rightarrow> 'v bm \<Rightarrow> 'v bm result" where
  "walk_ptrs child nblocks span lbn [] st = Inr st"
| "walk_ptrs child nblocks span lbn (p # ps) st =
    (if lbn \<ge> nblocks then Inr st
     else res_bind (if p = 0 then Inr st else child p lbn st)
            (walk_ptrs child nblocks span (w64 (lbn + span)) ps))"

definition block_ptrs :: "byte list \<Rightarrow> nat \<Rightarrow> u32 list" where
  "block_ptrs buf n = map (\<lambda>i. u32_at buf (i * 4)) [0..<n]"

text \<open>\<open>walk level blk base\<close>, with \<open>emit\<close> as its level 0.\<close>

fun walk_map :: "nat \<Rightarrow> 'v safeio \<Rightarrow> device \<Rightarrow> int \<Rightarrow> superblock \<Rightarrow> u64 \<Rightarrow> u64 \<Rightarrow> u64 \<Rightarrow> u64 \<Rightarrow> 'v bm \<Rightarrow> 'v bm result" where
  "walk_map 0 S f fsOffset sb budget nblocks blk base st = emit budget blk base st"
| "walk_map (Suc l) S f fsOffset sb budget nblocks blk base st =
    res_bind (charge budget st) (\<lambda>st1.
    res_bind (Check S (bm_visited st1) blk) (\<lambda>v.
    res_bind (readRawBlock f fsOffset sb blk) (\<lambda>buf.
      walk_ptrs (walk_map l S f fsOffset sb budget nblocks) nblocks (w64 ((BlockSize sb div 4) ^ l)) base
        (block_ptrs buf (BlockSize sb div 4)) (st1\<lparr>bm_visited := v\<rparr>))))"

fun walk_roots :: "nat list \<Rightarrow> 'v safeio \<Rightarrow> device \<Rightarrow> int \<Rightarrow> superblock \<Rightarrow> u64 \<Rightarrow> u64 \<Rightarrow> byte list \<Rightarrow> u64 \<Rightarrow> 'v bm \<Rightarrow> 'v bm result" where
  "walk_roots [] S f fsOffset sb budget nblocks iblk base st = Inr st"
| "walk_roots (l # ls) S f fsOffset sb budget nblocks iblk base st =
    (if base \<ge> nblocks then Inr st
     else
       let p = u32_at iblk ((11 + l) * 4)
       in res_bind (if p \<noteq> 0 then walk_map l S f fsOffset sb budget nblocks p base st else Inr st)
            (walk_roots ls S f fsOffset sb budget nblocks iblk (w64 (base + w64 ((BlockSize sb div 4) ^ l)))))"

definition nblocks_of :: "superblock \<Rightarrow> u64 \<Rightarrow> u64" where
  "nblocks_of sb sz = sz div BlockSize sb + (if sz mod BlockSize sb \<noteq> 0 then 1 else 0)"

definition blockMapExtents :: "'v safeio \<Rightarrow> device \<Rightarrow> int \<Rightarrow> superblock \<Rightarrow> inode \<Rightarrow> extentLeaf list result" where
  "blockMapExtents S f fsOffset sb i =
    (if BlockSize sb < 4 then Inl ErrBlockMapSize
     else if in_size i = 0 then Inr []
     else
       let nblocks = nblocks_of sb (in_size i);
           budget = blockBudget sb;
           st0 = \<lparr>bm_used = 0, bm_visited = VisitSet0 S, bm_out = []\<rparr>
       in res_bind (walk_ptrs (emit budget) nblocks 1 0 (block_ptrs (iblock i) 12) st0) (\<lambda>st1.
          res_bind (walk_roots [1, 2, 3] S f fsOffset sb budget nblocks (iblock i) 12 st1) (\<lambda>st2.
            Inr (bm_out st2))))"

section \<open>The reference lookup\<close>

text \<open>The block a pointer \<open>blk\<close> at level \<open>l\<close> maps its \<open>r\<close>-th logical block to; 0 is a hole.\<close>

fun ptr_lookup :: "nat \<Rightarrow> device \<Rightarrow> int \<Rightarrow> superblock \<Rightarrow> u64 \<Rightarrow> u64 \<Rightarrow> u64" where
  "ptr_lookup 0 f fsOffset sb blk r = blk"
| "ptr_lookup (Suc l) f fsOffset sb blk r =
    (if blk = 0 then 0
     else case readRawBlock f fsOffset sb blk of
            Inl _ \<Rightarrow> 0
          | Inr buf \<Rightarrow>
              let span = (BlockSize sb div 4) ^ l
              in ptr_lookup l f fsOffset sb (u32_at buf (r div span * 4)) (r mod span))"

definition bmap :: "device \<Rightarrow> int \<Rightarrow> superblock \<Rightarrow> byte list \<Rightarrow> u64 \<Rightarrow> u64" where
  "bmap f fsOffset sb iblk b =
    (let n = BlockSize sb div 4 in
     if b < 12 then u32_at iblk (b * 4)
     else if b < 12 + n then ptr_lookup 1 f fsOffset sb (u32_at iblk 48) (b - 12)
     else if b < 12 + n + n ^ 2 then ptr_lookup 2 f fsOffset sb (u32_at iblk 52) (b - (12 + n))
     else if b < 12 + n + n ^ 2 + n ^ 3 then ptr_lookup 3 f fsOffset sb (u32_at iblk 56) (b - (12 + n + n ^ 2))
     else 0)"

text \<open>The pairs of logical and physical block in \<open>[a, b)\<close> that are not holes.\<close>

definition mapped :: "(u64 \<Rightarrow> u64) \<Rightarrow> u64 \<Rightarrow> u64 \<Rightarrow> (u64 \<times> u64) list" where
  "mapped m a b = filter (\<lambda>(_, p). p \<noteq> 0) (map (\<lambda>x. (x, m x)) [a..<b])"

section \<open>Correctness of the walk\<close>

lemma mapped_empty [simp]: "b \<le> a \<Longrightarrow> mapped m a b = []"
  by (simp add: mapped_def)

lemma mapped_append:
  assumes "a \<le> b" "b \<le> c"
  shows "mapped m a (min n b) @ mapped m b (min n c) = mapped m a (min n c)"
proof (cases "n \<le> b")
  case True
  then show ?thesis
    using assms by (simp add: min_absorb1)
next
  case False
  then have "[a..<min n c] = [a..<b] @ [b..<min n c]"
    using assms upt_add_eq_append [of a b "min n c - b"] by simp
  with False show ?thesis
    by (simp add: mapped_def min_absorb2)
qed

lemma mapped_cong: "(\<And>x. a \<le> x \<Longrightarrow> x < b \<Longrightarrow> m x = m' x) \<Longrightarrow> mapped m a b = mapped m' a b"
  unfolding mapped_def by (intro arg_cong [where f = "filter _"] map_cong) auto

lemma mapped_hole: "(\<And>x. a \<le> x \<Longrightarrow> x < b \<Longrightarrow> m x = 0) \<Longrightarrow> mapped m a b = []"
  unfolding mapped_def by (auto simp: filter_empty_conv)

lemma mapped_one: "m a \<noteq> 0 \<Longrightarrow> mapped m a (Suc a) = [(a, m a)]"
  by (simp add: mapped_def)

definition bm_leaf_ok :: "extentLeaf \<Rightarrow> bool" where
  "bm_leaf_ok e \<longleftrightarrow> LogBlock e < 4294967296 \<and> PhysBlock e < 4294967296 \<and> 1 \<le> Count e \<and> Count e \<le> 65535"

text \<open>What one step of the walk does: it appends the pairs \<open>new\<close> and charges at least that many blocks.\<close>

definition bm_adds :: "u64 \<Rightarrow> 'v bm \<Rightarrow> 'v bm \<Rightarrow> (u64 \<times> u64) list \<Rightarrow> bool" where
  "bm_adds budget st st' new \<longleftrightarrow>
     (\<forall>e\<in>set (bm_out st). bm_leaf_ok e) \<longrightarrow> bm_used st \<le> budget \<longrightarrow>
       (\<forall>e\<in>set (bm_out st'). bm_leaf_ok e)
     \<and> ext_map (bm_out st') = ext_map (bm_out st) @ new
     \<and> bm_used st + length new \<le> bm_used st' \<and> bm_used st' \<le> budget"

lemma bm_adds_refl [simp]: "bm_adds budget st st []"
  by (simp add: bm_adds_def)

lemma bm_adds_trans:
  assumes "bm_adds budget st st1 a" "bm_adds budget st1 st2 b"
  shows "bm_adds budget st st2 (a @ b)"
  unfolding bm_adds_def
proof (intro impI)
  assume "\<forall>e\<in>set (bm_out st). bm_leaf_ok e" "bm_used st \<le> budget"
  with assms(1) have 1: "\<forall>e\<in>set (bm_out st1). bm_leaf_ok e" "ext_map (bm_out st1) = ext_map (bm_out st) @ a"
    "bm_used st + length a \<le> bm_used st1" "bm_used st1 \<le> budget"
    unfolding bm_adds_def by blast+
  with assms(2) have 2: "\<forall>e\<in>set (bm_out st2). bm_leaf_ok e" "ext_map (bm_out st2) = ext_map (bm_out st1) @ b"
    "bm_used st1 + length b \<le> bm_used st2" "bm_used st2 \<le> budget"
    unfolding bm_adds_def by blast+
  from 1 2 show "(\<forall>e\<in>set (bm_out st2). bm_leaf_ok e) \<and> ext_map (bm_out st2) = ext_map (bm_out st) @ a @ b
      \<and> bm_used st + length (a @ b) \<le> bm_used st2 \<and> bm_used st2 \<le> budget"
    by simp
qed

lemma ext_map_append [simp]: "ext_map (xs @ ys) = ext_map xs @ ext_map ys"
  by (induction xs) auto

lemma charge_adds:
  "charge budget st = Inr st' \<Longrightarrow> budget < 18446744073709551615 \<Longrightarrow> bm_adds budget st (st'\<lparr>bm_visited := v\<rparr>) []"
proof -
  assume c: "charge budget st = Inr st'" and b: "budget < 18446744073709551615"
  from c have s: "bm_out st' = bm_out st" "bm_used st' = w64 (bm_used st + 1)" "bm_used st' \<le> budget"
    by (auto simp: charge_def Let_def split: if_splits)
  have "bm_used st \<le> budget \<Longrightarrow> w64 (bm_used st + 1) = bm_used st + 1"
    using b by (intro w64_id) linarith
  with s show ?thesis
    unfolding bm_adds_def by fastforce
qed

lemma leaf_map_single: "leaf_map \<lparr>LogBlock = l, PhysBlock = p, Count = Suc 0\<rparr> = [(l, p)]"
  by (simp add: leaf_map_def)

lemma extend_out_map:
  assumes "\<forall>e\<in>set out. bm_leaf_ok e" "phys < 4294967296" "lbn \<le> 4294967295"
  shows "ext_map (extend_out lbn phys out) = ext_map out @ [(lbn, phys)]
       \<and> (\<forall>e\<in>set (extend_out lbn phys out). bm_leaf_ok e)"
proof (cases "out \<noteq> [] \<and> Count (last out) < 0xFFFF \<and> w64 (PhysBlock (last out) + Count (last out)) = phys
        \<and> LogBlock (last out) + Count (last out) = lbn")
  case True
  define e where "e = last out"
  have out: "out = butlast out @ [e]"
    using True by (simp add: e_def)
  have ok: "bm_leaf_ok e"
    using assms(1) True by (simp add: e_def)
  then have w: "PhysBlock e + Count e = phys" "LogBlock e + Count e = lbn" "Count e < 65535"
    using True by (auto simp: e_def [symmetric] bm_leaf_ok_def)
  have "leaf_map (e\<lparr>Count := Count e + 1\<rparr>) = leaf_map e @ [(lbn, phys)]"
    using leaf_map_join [of e "\<lparr>LogBlock = lbn, PhysBlock = phys, Count = 1\<rparr>"] w by (simp add: leaf_map_single)
  moreover have "ext_map out = ext_map (butlast out) @ leaf_map e"
    by (subst out) simp
  moreover have "extend_out lbn phys out = butlast out @ [e\<lparr>Count := Count e + 1\<rparr>]"
    using True by (simp add: extend_out_def e_def)
  moreover have "\<forall>x\<in>set (butlast out). bm_leaf_ok x"
    using assms(1) in_set_butlastD by fastforce
  ultimately show ?thesis
    using ok w by (auto simp: bm_leaf_ok_def)
next
  case False
  then have "extend_out lbn phys out = out @ [\<lparr>LogBlock = lbn, PhysBlock = phys, Count = 1\<rparr>]"
    using assms(3) unfolding extend_out_def by (subst if_not_P) auto
  with assms show ?thesis
    by (simp add: leaf_map_single bm_leaf_ok_def)
qed

lemma emit_adds:
  assumes "emit budget phys lbn st = Inr st'" "phys < 4294967296" "budget < 18446744073709551615"
  shows "bm_adds budget st st' [(lbn, phys)]"
proof -
  obtain st1 where st1: "charge budget st = Inr st1" "lbn \<le> 4294967295"
    "st' = st1\<lparr>bm_out := extend_out lbn phys (bm_out st1)\<rparr>"
    using assms(1) by (auto simp: emit_def res_bind_Inr_iff split: if_splits)
  then have s: "bm_out st1 = bm_out st" "bm_used st1 = w64 (bm_used st + 1)" "bm_used st1 \<le> budget"
    by (auto simp: charge_def Let_def split: if_splits)
  show ?thesis
    unfolding bm_adds_def
  proof (intro impI)
    assume ok: "\<forall>e\<in>set (bm_out st). bm_leaf_ok e" and u: "bm_used st \<le> budget"
    from u s(2) assms(3) have "bm_used st1 = bm_used st + 1"
      by simp
    with extend_out_map [OF ok assms(2) st1(2)] s st1(3)
    show "(\<forall>e\<in>set (bm_out st'). bm_leaf_ok e) \<and> ext_map (bm_out st') = ext_map (bm_out st) @ [(lbn, phys)]
      \<and> bm_used st + length [(lbn, phys)] \<le> bm_used st' \<and> bm_used st' \<le> budget"
      by simp
  qed
qed

lemma walk_ptrs_adds:
  assumes child: "\<And>p b st st'. p \<noteq> 0 \<Longrightarrow> p < 4294967296 \<Longrightarrow> b < nblocks \<Longrightarrow> b + span < 18446744073709551616
      \<Longrightarrow> child p b st = Inr st' \<Longrightarrow> bm_adds budget st st' (mapped (\<lambda>x. lk p (x - b)) b (min nblocks (b + span)))"
    and lk0: "\<And>r. lk 0 r = 0" and span: "0 < span"
  shows "walk_ptrs child nblocks span lbn ps st = Inr st' \<Longrightarrow> \<forall>p\<in>set ps. p < 4294967296
    \<Longrightarrow> lbn + span * length ps < 18446744073709551616
    \<Longrightarrow> bm_adds budget st st' (mapped (\<lambda>x. lk (ps ! ((x - lbn) div span)) ((x - lbn) mod span)) lbn
          (min nblocks (lbn + span * length ps)))"
proof (induction ps arbitrary: lbn st)
  case (Cons p ps)
  define m where "m = (\<lambda>x. lk ((p # ps) ! ((x - lbn) div span)) ((x - lbn) mod span))"
  show ?case
  proof (cases "lbn \<ge> nblocks")
    case False
    then obtain st1 where st1: "(if p = 0 then Inr st else child p lbn st) = Inr st1"
      "walk_ptrs child nblocks span (w64 (lbn + span)) ps st1 = Inr st'"
      using Cons.prems(1) by (auto simp: res_bind_Inr_iff)
    have w: "w64 (lbn + span) = lbn + span"
      using Cons.prems(3) by simp
    have first: "bm_adds budget st st1 (mapped m lbn (min nblocks (lbn + span)))"
    proof -
      have eq: "mapped m lbn (min nblocks (lbn + span)) = mapped (\<lambda>x. lk p (x - lbn)) lbn (min nblocks (lbn + span))"
        by (rule mapped_cong) (auto simp: m_def)
      show ?thesis
      proof (cases "p = 0")
        case True
        then show ?thesis
          using st1(1) lk0 by (simp add: eq mapped_hole)
      next
        case False
        then show ?thesis
          using st1(1) child [of p lbn st st1] \<open>\<not> lbn \<ge> nblocks\<close> Cons.prems by (simp add: eq)
      qed
    qed
    have "mapped (\<lambda>x. lk (ps ! ((x - (lbn + span)) div span)) ((x - (lbn + span)) mod span)) (lbn + span)
          (min nblocks (lbn + span + span * length ps))
        = mapped m (lbn + span) (min nblocks (lbn + span + span * length ps))"
    proof (rule mapped_cong)
      fix x assume "lbn + span \<le> x"
      then obtain y where "x = lbn + span + y"
        using le_Suc_ex by blast
      then show "lk (ps ! ((x - (lbn + span)) div span)) ((x - (lbn + span)) mod span) = m x"
        using span by (simp add: m_def add.assoc div_add_self1)
    qed
    moreover have "bm_adds budget st1 st' (mapped (\<lambda>x. lk (ps ! ((x - (lbn + span)) div span)) ((x - (lbn + span)) mod span))
        (lbn + span) (min nblocks (lbn + span + span * length ps)))"
    proof (rule Cons.IH)
      show "walk_ptrs child nblocks span (lbn + span) ps st1 = Inr st'"
        using st1(2) unfolding w .
      show "\<forall>p\<in>set ps. p < 4294967296" "lbn + span + span * length ps < 18446744073709551616"
        using Cons.prems(2,3) by simp_all
    qed
    ultimately have "bm_adds budget st1 st' (mapped m (lbn + span) (min nblocks (lbn + span + span * length ps)))"
      by (simp only:)
    note bm_adds_trans [OF first this]
    moreover have "mapped m lbn (min nblocks (lbn + span)) @ mapped m (lbn + span) (min nblocks (lbn + span + span * length ps))
      = mapped m lbn (min nblocks (lbn + span * length (p # ps)))"
      by (subst mapped_append) (simp_all add: add.assoc)
    ultimately have "bm_adds budget st st' (mapped m lbn (min nblocks (lbn + span * length (p # ps))))"
      by (simp only:)
    then show ?thesis
      unfolding m_def .
  next
    case True
    then have "st' = st"
      using Cons.prems(1) by simp
    with True show ?thesis
      by (simp only: mapped_empty min.absorb1 min.coboundedI1 bm_adds_refl)
  qed
qed simp

lemma block_ptrs_bound: "\<forall>p\<in>set (block_ptrs buf n). p < 4294967296"
  by (simp add: block_ptrs_def)

lemma walk_map_adds:
  assumes n: "n = BlockSize sb div 4" "1 \<le> n" and bud: "budget < 18446744073709551615"
  shows "blk \<noteq> 0 \<Longrightarrow> blk < 4294967296 \<Longrightarrow> base < nblocks \<Longrightarrow> base + n ^ l < 18446744073709551616
    \<Longrightarrow> walk_map l S f fsOffset sb budget nblocks blk base st = Inr st'
    \<Longrightarrow> bm_adds budget st st' (mapped (\<lambda>x. ptr_lookup l f fsOffset sb blk (x - base)) base (min nblocks (base + n ^ l)))"
proof (induction l arbitrary: blk base st st')
  case 0
  then have "mapped (\<lambda>x. ptr_lookup 0 f fsOffset sb blk (x - base)) base (min nblocks (base + n ^ 0)) = [(base, blk)]"
    using mapped_one [of "\<lambda>x. blk" base] by (simp add: min_absorb2)
  with emit_adds [OF _ 0(2) bud] 0(5) show ?case
    by (simp only: walk_map.simps(1))
next
  case (Suc l)
  have span: "w64 (n ^ l) = n ^ l"
  proof -
    have "n ^ l \<le> n ^ Suc l"
      using n(2) by (intro power_increasing) simp_all
    with Suc.prems(4) have "n ^ l < 18446744073709551616"
      by linarith
    then show ?thesis
      by (rule w64_id)
  qed
  obtain st1 v buf where
    c: "charge budget st = Inr st1" and v: "Check S (bm_visited st1) blk = Inr v"
    and buf: "readRawBlock f fsOffset sb blk = Inr buf"
    and w: "walk_ptrs (walk_map l S f fsOffset sb budget nblocks) nblocks (n ^ l) base
        (block_ptrs buf n) (st1\<lparr>bm_visited := v\<rparr>) = Inr st'"
    using Suc.prems(5) span by (auto simp: res_bind_Inr_iff n(1))
  have lk: "ptr_lookup l f fsOffset sb 0 r = 0" for r
    by (cases l) simp_all
  have "bm_adds budget (st1\<lparr>bm_visited := v\<rparr>) st'
      (mapped (\<lambda>x. ptr_lookup l f fsOffset sb (block_ptrs buf n ! ((x - base) div n ^ l)) ((x - base) mod n ^ l)) base
        (min nblocks (base + n ^ l * length (block_ptrs buf n))))"
    by (rule walk_ptrs_adds [where lk = "ptr_lookup l f fsOffset sb", OF _ lk _ w block_ptrs_bound])
      (use Suc.IH Suc.prems(4) n(2) in \<open>simp_all add: block_ptrs_def mult.commute\<close>)
  moreover have "length (block_ptrs buf n) = n"
    by (simp add: block_ptrs_def)
  moreover have "mapped (\<lambda>x. ptr_lookup l f fsOffset sb (block_ptrs buf n ! ((x - base) div n ^ l)) ((x - base) mod n ^ l)) base
        (min nblocks (base + n ^ l * n))
    = mapped (\<lambda>x. ptr_lookup (Suc l) f fsOffset sb blk (x - base)) base (min nblocks (base + n ^ Suc l))"
  proof (simp only: power_Suc mult.commute [of n], rule mapped_cong)
    fix x assume "base \<le> x" "x < min nblocks (base + n ^ l * n)"
    then have "x - base < n * n ^ l"
      by (auto simp: mult.commute)
    then have "(x - base) div n ^ l < n"
      by (rule less_mult_imp_div_less)
    then show "ptr_lookup l f fsOffset sb (block_ptrs buf n ! ((x - base) div n ^ l)) ((x - base) mod n ^ l)
      = ptr_lookup (Suc l) f fsOffset sb blk (x - base)"
      using buf Suc.prems(1) by (simp add: block_ptrs_def n(1) Let_def)
  qed
  ultimately have "bm_adds budget (st1\<lparr>bm_visited := v\<rparr>) st'
      (mapped (\<lambda>x. ptr_lookup (Suc l) f fsOffset sb blk (x - base)) base (min nblocks (base + n ^ Suc l)))"
    by (simp only:)
  from bm_adds_trans [OF charge_adds [OF c bud] this] show ?case
    by (simp only: append_Nil)
qed

lemma walk_root_adds:
  assumes n: "n = BlockSize sb div 4" "1 \<le> n" and bud: "budget < 18446744073709551615"
    and base: "base + n ^ l < 18446744073709551616" "0 < l"
    and run: "(if p \<noteq> 0 then walk_map l S f fsOffset sb budget nblocks p base st else Inr st) = Inr st'"
    and p: "p < 4294967296" and nb: "base < nblocks"
  shows "bm_adds budget st st' (mapped (\<lambda>x. ptr_lookup l f fsOffset sb p (x - base)) base (min nblocks (base + n ^ l)))"
proof (cases "p = 0")
  case True
  then have "mapped (\<lambda>x. ptr_lookup l f fsOffset sb p (x - base)) base (min nblocks (base + n ^ l)) = []"
    using base(2) by (intro mapped_hole) (cases l, simp_all)
  with True run show ?thesis
    by simp
qed (use walk_map_adds [OF n bud] base run p nb in simp)

text \<open>The bound that keeps every sum of the walk below \<open>2 ^ 64\<close>: blocks of at most 64 KiB.\<close>

lemma span_bounds:
  assumes "n = BlockSize sb div 4" "BlockSize sb \<le> 65536"
  shows "n \<le> 16384" "n ^ 2 \<le> 268435456" "n ^ 3 \<le> 4398046511104"
proof -
  show n: "n \<le> 16384"
    using assms by simp
  from power_mono [OF this, of 2] power_mono [OF this, of 3]
  show "n ^ 2 \<le> 268435456" "n ^ 3 \<le> 4398046511104"
    by simp_all
qed

lemma walk_roots_adds:
  assumes n: "n = BlockSize sb div 4" "1 \<le> n" "BlockSize sb \<le> 65536" and bud: "budget < 18446744073709551615"
    and run: "walk_roots [1, 2, 3] S f fsOffset sb budget nblocks iblk 12 st = Inr st'"
  shows "bm_adds budget st st' (mapped (bmap f fsOffset sb iblk) 12 (min nblocks (12 + n + n ^ 2 + n ^ 3)))"
proof -
  note sp = span_bounds [OF n(1,3)]
  define b2 where "b2 = 12 + n"
  define b3 where "b3 = b2 + n ^ 2"
  define b4 where "b4 = b3 + n ^ 3"
  have w: "w64 (12 + w64 (n ^ 1)) = b2" "w64 (b2 + w64 (n ^ 2)) = b3" "w64 (b3 + w64 (n ^ 3)) = b4"
    using sp by (simp_all add: b2_def b3_def b4_def)
  have ord: "12 \<le> b2" "b2 \<le> b3" "b3 \<le> b4"
    by (simp_all add: b2_def b3_def b4_def)
  define m where "m = bmap f fsOffset sb iblk"
  have m: "\<And>x. 12 \<le> x \<Longrightarrow> x < b2 \<Longrightarrow> ptr_lookup 1 f fsOffset sb (u32_at iblk 48) (x - 12) = m x"
    "\<And>x. b2 \<le> x \<Longrightarrow> x < b3 \<Longrightarrow> ptr_lookup 2 f fsOffset sb (u32_at iblk 52) (x - b2) = m x"
    "\<And>x. b3 \<le> x \<Longrightarrow> x < b4 \<Longrightarrow> ptr_lookup 3 f fsOffset sb (u32_at iblk 56) (x - b3) = m x"
    unfolding m_def bmap_def Let_def n(1) [symmetric] b2_def [symmetric] b3_def [symmetric] b4_def [symmetric]
    using ord by simp_all
  have step: "bm_adds budget s s' (mapped m a (min nblocks b))"
    if "(if base \<ge> nblocks then Inr s
         else if p \<noteq> 0 then walk_map l S f fsOffset sb budget nblocks p base s else Inr s) = Inr s'"
      "base = a" "b = base + n ^ l" "0 < l" "p < 4294967296" "b < 18446744073709551616"
      "\<And>x. a \<le> x \<Longrightarrow> x < b \<Longrightarrow> ptr_lookup l f fsOffset sb p (x - a) = m x" for s s' a b base p l
  proof (cases "base \<ge> nblocks")
    case False
    then have "bm_adds budget s s' (mapped (\<lambda>x. ptr_lookup l f fsOffset sb p (x - base)) base (min nblocks (base + n ^ l)))"
      using that by (intro walk_root_adds [OF n(1,2) bud]) (simp_all split: if_splits)
    moreover have "mapped (\<lambda>x. ptr_lookup l f fsOffset sb p (x - base)) base (min nblocks (base + n ^ l)) = mapped m a (min nblocks b)"
      unfolding that(2,3) by (rule mapped_cong) (use that(2,3,7) in simp)
    ultimately show ?thesis
      by simp
  qed (use that in \<open>simp add: min_absorb1\<close>)
  have big: "b2 < 18446744073709551616" "b3 < 18446744073709551616" "b4 < 18446744073709551616"
    using sp by (simp_all add: b2_def b3_def b4_def)
  have whole: "mapped m 12 (min nblocks b2) @ mapped m b2 (min nblocks b3) @ mapped m b3 (min nblocks b4)
      = mapped m 12 (min nblocks b4)"
    using ord by (simp add: mapped_append)
  obtain s1 s2 where s:
    "(if 12 \<ge> nblocks then Inr st else if u32_at iblk 48 \<noteq> 0
      then walk_map 1 S f fsOffset sb budget nblocks (u32_at iblk 48) 12 st else Inr st) = Inr s1"
    "(if b2 \<ge> nblocks then Inr s1 else if u32_at iblk 52 \<noteq> 0
      then walk_map 2 S f fsOffset sb budget nblocks (u32_at iblk 52) b2 s1 else Inr s1) = Inr s2"
    "(if b3 \<ge> nblocks then Inr s2 else if u32_at iblk 56 \<noteq> 0
      then walk_map 3 S f fsOffset sb budget nblocks (u32_at iblk 56) b3 s2 else Inr s2) = Inr st'"
    using run ord
    unfolding walk_roots.simps Let_def n(1) [symmetric] w
    by (auto simp: res_bind_Inr_iff split: if_splits)
  have ne: "b2 = 12 + n ^ 1" "b3 = b2 + n ^ 2" "b4 = b3 + n ^ 3"
    by (simp_all only: b2_def b3_def b4_def power_one_right)
  have pos: "0 < (1::nat)" "0 < (2::nat)" "0 < (3::nat)"
    by simp_all
  have "bm_adds budget st s1 (mapped m 12 (min nblocks b2))"
    by (rule step [OF s(1) refl ne(1) pos(1) u32_at_less big(1)]) (rule m(1))
  moreover have "bm_adds budget s1 s2 (mapped m b2 (min nblocks b3))"
    by (rule step [OF s(2) refl ne(2) pos(2) u32_at_less big(2)]) (rule m(2))
  moreover have "bm_adds budget s2 st' (mapped m b3 (min nblocks b4))"
    by (rule step [OF s(3) refl ne(3) pos(3) u32_at_less big(3)]) (rule m(3))
  ultimately have "bm_adds budget st st' (mapped m 12 (min nblocks b4))"
    unfolding whole [symmetric] by (intro bm_adds_trans)
  then show ?thesis
    unfolding m_def b4_def b3_def b2_def .
qed

lemma blockMapExtents_adds:
  assumes "blockMapExtents S f fsOffset sb i = Inr leaves"
    and "BlockSize sb \<le> 65536" "blockBudget sb < 18446744073709551615" "0 < in_size i"
  shows "ext_map leaves = mapped (bmap f fsOffset sb (iblock i)) 0 (nblocks_of sb (in_size i))
       \<and> (\<forall>e\<in>set leaves. bm_leaf_ok e) \<and> length (ext_map leaves) \<le> blockBudget sb"
proof -
  define n where "n = BlockSize sb div 4"
  define nb where "nb = nblocks_of sb (in_size i)"
  define m where "m = bmap f fsOffset sb (iblock i)"
  define b4 where "b4 = 12 + n + n ^ 2 + n ^ 3"
  define st0 where "st0 = \<lparr>bm_used = 0, bm_visited = VisitSet0 S, bm_out = []\<rparr>"
  have n1: "1 \<le> n"
    using assms(1) by (simp add: blockMapExtents_def n_def split: if_splits)
  obtain st1 st2 where st1: "walk_ptrs (emit (blockBudget sb)) nb 1 0 (block_ptrs (iblock i) 12) st0 = Inr st1"
    and st2: "walk_roots [1, 2, 3] S f fsOffset sb (blockBudget sb) nb (iblock i) 12 st1 = Inr st2"
    and leaves: "leaves = bm_out st2"
    using assms(1,4) by (auto simp: blockMapExtents_def Let_def res_bind_Inr_iff nb_def st0_def
        simp del: walk_roots.simps walk_ptrs.simps split: if_splits)
  have "bm_adds (blockBudget sb) st0 st1 (mapped (\<lambda>x. block_ptrs (iblock i) 12 ! ((x - 0) div 1)) 0
      (min nb (0 + 1 * length (block_ptrs (iblock i) 12))))"
  proof (rule walk_ptrs_adds [where lk = "\<lambda>p r. p", OF _ _ _ st1 block_ptrs_bound])
    fix p b st st'
    assume "p \<noteq> 0" "p < 4294967296" "b < nb" "emit (blockBudget sb) p b st = Inr st'"
    moreover from this have "mapped (\<lambda>x. p) b (min nb (b + 1)) = [(b, p)]"
      using mapped_one [of "\<lambda>x. p" b] by (simp add: min_absorb2)
    ultimately show "bm_adds (blockBudget sb) st st' (mapped (\<lambda>x. p) b (min nb (b + 1)))"
      using emit_adds assms(3) by simp
  qed (simp_all add: block_ptrs_def)
  moreover have "mapped (\<lambda>x. block_ptrs (iblock i) 12 ! ((x - 0) div 1)) 0
      (min nb (0 + 1 * length (block_ptrs (iblock i) 12))) = mapped m 0 (min nb 12)"
  proof -
    have "length (block_ptrs (iblock i) 12) = 12"
      by (simp add: block_ptrs_def)
    then show ?thesis
      by (simp only: mult_1 add_0) (rule mapped_cong, simp add: m_def bmap_def block_ptrs_def)
  qed
  ultimately have "bm_adds (blockBudget sb) st0 st1 (mapped m 0 (min nb 12))"
    by (simp only:)
  moreover have "bm_adds (blockBudget sb) st1 st2 (mapped m 12 (min nb b4))"
    using walk_roots_adds [OF n_def n1 assms(2,3) st2] by (simp only: m_def b4_def)
  ultimately have "bm_adds (blockBudget sb) st0 st2 (mapped m 0 (min nb 12) @ mapped m 12 (min nb b4))"
    by (rule bm_adds_trans)
  moreover have "mapped m 0 (min nb 12) @ mapped m 12 (min nb b4) = mapped m 0 (min nb b4)"
    by (rule mapped_append) (simp_all add: b4_def)
  moreover have "mapped m 0 (min nb b4) = mapped m 0 nb"
  proof (cases "nb \<le> b4")
    case False
    have "mapped m b4 (min nb nb) = []"
      by (rule mapped_hole) (simp add: m_def bmap_def Let_def n_def [symmetric] b4_def)
    with mapped_append [of 0 b4 nb m nb] False show ?thesis
      by simp
  qed (simp add: min_absorb1)
  ultimately have "bm_adds (blockBudget sb) st0 st2 (mapped m 0 nb)"
    by (simp only:)
  then show ?thesis
    unfolding leaves bm_adds_def m_def nb_def by (simp add: st0_def)
qed

section \<open>Properties\<close>

text \<open>C14: for a block-mapped inode, the leaf list of \<open>blockMapExtents\<close> covers exactly the logical
  blocks of the file whose pointer chain ends in a block, in ascending order, each with the
  block the textbook lookup \<open>bmap\<close> gives; holes at any level are skipped, nothing beyond the
  end of the file is named, and no more blocks are named than the budget of \<open>limits.go\<close>.\<close>

theorem blockMapExtents_correct:
  assumes "blockMapExtents S f fsOffset sb i = Inr leaves"
    and "BlockSize sb \<le> 65536" "blockBudget sb < 18446744073709551615" "0 < in_size i"
  shows "ext_map leaves = mapped (bmap f fsOffset sb (iblock i)) 0 (nblocks_of sb (in_size i))
       \<and> length (ext_map leaves) \<le> blockBudget sb"
  using blockMapExtents_adds [OF assms] by blast

definition bm_dev :: device where
  "bm_dev = \<lparr>dev_size = 4096, dev_byte = (\<lambda>i. if i = 2180 then 50 else 0), dev_side = OsFile\<rparr>"

definition bm_inode :: inode where
  "bm_inode = decode_inode 3 (put_u32 (put_u32 (put_u32 (put_u32 (zeros 128) 4 896) 40 32) 44 33) 88 34)"

definition bm_leaves :: "extentLeaf list" where
  "bm_leaves = [\<lparr>LogBlock = 0, PhysBlock = 32, Count = 2\<rparr>, \<lparr>LogBlock = 13, PhysBlock = 50, Count = 1\<rparr>]"

theorem blockMapExtents_correct_witness:
  "blockMapExtents safeio_ref bm_dev 0 tiny_sb bm_inode = Inr bm_leaves
   \<and> ext_map bm_leaves = mapped (bmap bm_dev 0 tiny_sb (iblock bm_inode)) 0 (nblocks_of tiny_sb (in_size bm_inode))"
proof -
  have run: "blockMapExtents safeio_ref bm_dev 0 tiny_sb bm_inode = Inr bm_leaves"
    by code_simp
  have "BlockSize tiny_sb \<le> 65536" "blockBudget tiny_sb < 18446744073709551615" "0 < in_size bm_inode"
    by code_simp+
  with blockMapExtents_correct [OF run] run show ?thesis
    by blast
qed

end
