(* ===== verification/Inline.thy ===== *)
theory Inline
  imports Extents
begin

text \<open>
  Inline data of \<open>inline.go\<close>: up to 60 bytes of content in the \<open>i_block\<close> area, the rest in the
  extended attribute \<open>system.data\<close>, searched first in the inode and then in the external
  attribute block.
\<close>

section \<open>Searching an attribute table\<close>

abbreviation (input) xattrInodeMagic :: u32 where "xattrInodeMagic \<equiv> 0xEA020000"
abbreviation (input) xattrIndexSystem :: u8 where "xattrIndexSystem \<equiv> 7"
abbreviation (input) inlineIBlockMax :: nat where "inlineIBlockMax \<equiv> 60"
abbreviation (input) xattrEntrySize :: nat where "xattrEntrySize \<equiv> 16"

definition round4 :: "nat \<Rightarrow> nat" where
  "round4 n = (n + 3) div 4 * 4"

text \<open>The bytes of the Go string \<open>"data"\<close>.\<close>

definition data_name :: "byte list" where
  "data_name = [0x64, 0x61, 0x74, 0x61]"

function findSystemDataXattr :: "byte list \<Rightarrow> nat \<Rightarrow> nat \<Rightarrow> byte list option result" where
  "findSystemDataXattr buf off valueBase =
    (if off + 4 > length buf then Inr None
     else
       let nameLen = u8_at buf off;
           nameIndex = u8_at buf (off + 1)
       in if nameLen = 0 \<and> nameIndex = 0 then Inr None
          else if off + xattrEntrySize > length buf then Inr None
          else
            let valueOffs = u16_at buf (off + 2);
                valueInum = u32_at buf (off + 4);
                valueSize = u32_at buf (off + 8);
                nameOff = off + xattrEntrySize
            in if nameOff + nameLen > length buf then Inr None
               else if nameIndex = xattrIndexSystem \<and> bytes_at buf nameOff nameLen = data_name then
                 (if valueInum \<noteq> 0 then Inl ErrEAInode
                  else if valueBase + valueOffs + valueSize > length buf then Inl ErrXattrRange
                  else Inr (Some (bytes_at buf (valueBase + valueOffs) valueSize)))
               else findSystemDataXattr buf (nameOff + round4 nameLen) valueBase)"
  by pat_completeness auto
termination
  by (relation "measure (\<lambda>(buf, off, _). length buf - off)") (auto simp: round4_def)

declare findSystemDataXattr.simps [simp del]

section \<open>Inline content\<close>

definition inodeExtraIsize :: "inode \<Rightarrow> nat" where
  "inodeExtraIsize i =
    (if length (in_raw i) \<le> inodeOffExtraIsize + 1 then 0
     else
       let extra = u16_at (in_raw i) inodeOffExtraIsize
       in if 128 + extra > length (in_raw i) then length (in_raw i) - 128 else extra)"

definition isInline :: "inode \<Rightarrow> bool" where
  "isInline i \<longleftrightarrow> has_flag (inode_flags i) InodeFlagInlineData"

definition external_xattr :: "device \<Rightarrow> int \<Rightarrow> superblock \<Rightarrow> inode \<Rightarrow> byte list option result" where
  "external_xattr f fsOffset sb i =
    (if length (in_raw i) \<ge> inodeOffFilACLLo + 4 then
       let aclBlock = u32_at (in_raw i) inodeOffFilACLLo
       in if aclBlock \<noteq> 0 then
            res_bind (readRawBlock f fsOffset sb aclBlock) (\<lambda>buf.
              if length buf \<ge> 4 \<and> u32_at buf 0 = xattrInodeMagic then findSystemDataXattr buf 32 0
              else Inr None)
          else Inr None
     else Inr None)"

definition systemDataValue :: "device \<Rightarrow> int \<Rightarrow> superblock \<Rightarrow> inode \<Rightarrow> byte list option result" where
  "systemDataValue f fsOffset sb i =
    (let hdr = 128 + inodeExtraIsize i;
         inside = (if hdr + 4 \<le> length (in_raw i) \<and> u32_at (in_raw i) hdr = xattrInodeMagic
                   then findSystemDataXattr (in_raw i) (hdr + 4) (hdr + 4)
                   else Inr None)
     in res_bind inside (\<lambda>v. case v of
          Some val \<Rightarrow> Inr (Some val)
        | None \<Rightarrow> external_xattr f fsOffset sb i))"

definition inlineData :: "device \<Rightarrow> int \<Rightarrow> superblock \<Rightarrow> inode \<Rightarrow> byte list result" where
  "inlineData f fsOffset sb i =
    (let sz = i64 (int (in_size i)) in
     if sz < 0 then Inl ErrNegSize
     else if sz \<le> int inlineIBlockMax then Inr (take (nat sz) (iblock i))
     else res_bind (systemDataValue f fsOffset sb i) (\<lambda>v. case v of
            None \<Rightarrow> Inl ErrNoSystemData
          | Some val \<Rightarrow>
              let overflow = nat sz - inlineIBlockMax
              in if overflow > length val then Inl ErrInlineOverflow
                 else Inr (iblock i @ take overflow val)))"

section \<open>The search against a table of entries\<close>

text \<open>An attribute entry and the table the format lays out: entries padded to four bytes, then a
  zero header.\<close>

record xent =
  xe_index :: u8
  xe_name :: "byte list"
  xe_offs :: u16
  xe_inum :: u32
  xe_size :: u32
  xe_hash :: u32

definition xent_ok :: "xent \<Rightarrow> bool" where
  "xent_ok e \<longleftrightarrow> xe_index e < 256 \<and> length (xe_name e) < 256 \<and> xe_offs e < 65536
    \<and> xe_inum e < 4294967296 \<and> xe_size e < 4294967296 \<and> (xe_name e \<noteq> [] \<or> xe_index e \<noteq> 0)"

definition enc_xent :: "xent \<Rightarrow> byte list" where
  "enc_xent e =
    le_bytes 1 (length (xe_name e)) @ le_bytes 1 (xe_index e) @ le_bytes 2 (xe_offs e) @ le_bytes 4 (xe_inum e)
      @ le_bytes 4 (xe_size e) @ le_bytes 4 (xe_hash e) @ xe_name e
      @ zeros (round4 (length (xe_name e)) - length (xe_name e))"

definition is_system_data :: "xent \<Rightarrow> bool" where
  "is_system_data e \<longleftrightarrow> xe_index e = xattrIndexSystem \<and> xe_name e = data_name"

text \<open>What the first \<open>system.data\<close> entry of the table stands for.\<close>

definition xattr_value :: "byte list \<Rightarrow> nat \<Rightarrow> xent list \<Rightarrow> byte list option result" where
  "xattr_value buf valueBase es =
    (case find is_system_data es of
       None \<Rightarrow> Inr None
     | Some e \<Rightarrow>
         if xe_inum e \<noteq> 0 then Inl ErrEAInode
         else if valueBase + xe_offs e + xe_size e > length buf then Inl ErrXattrRange
         else Inr (Some (bytes_at buf (valueBase + xe_offs e) (xe_size e))))"

lemma round4_ge: "n \<le> round4 n"
  unfolding round4_def by presburger

lemma length_enc_xent: "length (enc_xent e) = 16 + round4 (length (xe_name e))"
  using round4_ge [of "length (xe_name e)"] by (simp add: enc_xent_def)

lemma bytes_at_drop: "bytes_at (drop off buf) k n = bytes_at buf (off + k) n"
  by (simp add: bytes_at_def add.commute)

lemma field_of_drop:
  "u8_at buf (off + k) = u8_at (drop off buf) k"
  "u16_at buf (off + k) = u16_at (drop off buf) k"
  "u32_at buf (off + k) = u32_at (drop off buf) k"
  by (simp_all add: u8_at_def u16_at_def u32_at_def bytes_at_drop)

lemma bytes_at_append:
  "k = length a \<Longrightarrow> bytes_at (a @ b) k n = take n b"
  "k + n \<le> length a \<Longrightarrow> bytes_at (a @ b) k n = bytes_at a k n"
  by (simp_all add: bytes_at_def)

lemma le_nat_of_le_bytes: "v < 256 ^ n \<Longrightarrow> le_nat (take n (le_bytes n v @ r)) = v"
  by simp

lemma enc_fields:
  assumes "xent_ok e" "drop off buf = enc_xent e @ rest"
  shows "u8_at buf off = length (xe_name e)" "u8_at buf (off + 1) = xe_index e"
    "u16_at buf (off + 2) = xe_offs e" "u32_at buf (off + 4) = xe_inum e" "u32_at buf (off + 8) = xe_size e"
    "bytes_at buf (off + 16) (length (xe_name e)) = xe_name e"
proof -
  define n o' m s h r where "n = le_bytes 1 (length (xe_name e))" and "o' = le_bytes 1 (xe_index e) "
    and "m = le_bytes 2 (xe_offs e)" and "s = le_bytes 4 (xe_inum e)" and "h = le_bytes 4 (xe_size e)"
    and "r = le_bytes 4 (xe_hash e) @ xe_name e @ zeros (round4 (length (xe_name e)) - length (xe_name e)) @ rest"
  have d: "drop off buf = n @ o' @ m @ s @ h @ r"
    by (simp add: assms(2) enc_xent_def n_def o'_def m_def s_def h_def r_def)
  note ok = assms(1) [unfolded xent_ok_def]
  have "bytes_at (drop off buf) 0 1 = n" "bytes_at (drop off buf) 1 1 = o'" "bytes_at (drop off buf) 2 2 = m"
    "bytes_at (drop off buf) 4 4 = s" "bytes_at (drop off buf) 8 4 = h"
    by (simp_all add: d bytes_at_def n_def o'_def m_def s_def h_def)
  then have b: "bytes_at buf off 1 = n" "bytes_at buf (off + 1) 1 = o'" "bytes_at buf (off + 2) 2 = m"
    "bytes_at buf (off + 4) 4 = s" "bytes_at buf (off + 8) 4 = h"
    by (simp_all add: bytes_at_drop)
  with ok show "u8_at buf off = length (xe_name e)" "u8_at buf (off + 1) = xe_index e"
    "u16_at buf (off + 2) = xe_offs e" "u32_at buf (off + 4) = xe_inum e" "u32_at buf (off + 8) = xe_size e"
    by (simp_all add: u8_at_def u16_at_def u32_at_def n_def o'_def m_def s_def h_def unat_of_nat)
  have "bytes_at (drop off buf) 16 (length (xe_name e)) = xe_name e"
    by (simp add: d bytes_at_def n_def o'_def m_def s_def h_def r_def)
  then show "bytes_at buf (off + 16) (length (xe_name e)) = xe_name e"
    by (simp add: bytes_at_drop)
qed

lemma findSystemDataXattr_table:
  assumes "drop off buf = concat (map enc_xent es) @ zeros 4 @ rest" "\<forall>e\<in>set es. xent_ok e"
  shows "findSystemDataXattr buf off valueBase = xattr_value buf valueBase es"
  using assms
proof (induction es arbitrary: off)
  case Nil
  have "off + 4 \<le> length buf"
    using arg_cong [OF Nil(1), of length] by simp
  moreover have "bytes_at buf off 1 = [0]" "bytes_at buf (off + 1) 1 = [0]"
    using bytes_at_drop [of off buf 0 1] bytes_at_drop [of off buf 1 1] Nil(1)
    by (simp_all add: bytes_at_def zeros_def numeral_eq_Suc)
  ultimately show ?case
    by (subst findSystemDataXattr.simps) (simp add: xattr_value_def u8_at_def)
next
  case (Cons e es)
  have d: "drop off buf = enc_xent e @ (concat (map enc_xent es) @ zeros 4 @ rest)" and ok: "xent_ok e"
    using Cons.prems by simp_all
  note fld = enc_fields [OF ok d]
  have len: "off + 16 + round4 (length (xe_name e)) + 4 \<le> length buf"
    using arg_cong [OF d, of length] by (simp add: length_enc_xent)
  have nm: "length (xe_name e) \<le> round4 (length (xe_name e))"
    by (rule round4_ge)
  have nz: "\<not> (length (xe_name e) = 0 \<and> xe_index e = 0)"
    using ok by (auto simp: xent_ok_def)
  have "drop (off + 16 + round4 (length (xe_name e))) buf = drop (length (enc_xent e)) (drop off buf)"
    by (simp add: length_enc_xent ac_simps)
  then have next_ok: "drop (off + 16 + round4 (length (xe_name e))) buf = concat (map enc_xent es) @ zeros 4 @ rest"
    by (simp add: d)
  have step: "findSystemDataXattr buf off valueBase =
    (if is_system_data e then
       (if xe_inum e \<noteq> 0 then Inl ErrEAInode
        else if valueBase + xe_offs e + xe_size e > length buf then Inl ErrXattrRange
        else Inr (Some (bytes_at buf (valueBase + xe_offs e) (xe_size e))))
     else findSystemDataXattr buf (off + 16 + round4 (length (xe_name e))) valueBase)"
  proof -
    have c: "(off + 4 > length buf) = False" "(off + 16 > length buf) = False"
      "(off + 16 + length (xe_name e) > length buf) = False"
      "(length (xe_name e) = 0 \<and> xe_index e = 0) = False"
      using len nm nz by simp_all
    show ?thesis
      by (subst findSystemDataXattr.simps) (simp only: Let_def fld c if_False is_system_data_def)
  qed
  show ?case
    using step Cons.IH [OF next_ok] Cons.prems(2) by (simp add: xattr_value_def)
qed

section \<open>Where the attributes of an inode are\<close>

text \<open>
  The attribute area in the inode, behind the extra fields, holds the table \<open>es\<close>, which is empty
  when the area is missing or has no magic number; likewise the external attribute block \<open>blk\<close>.
\<close>

definition attr_area :: "inode \<Rightarrow> xent list \<Rightarrow> bool" where
  "attr_area i es \<longleftrightarrow> list_all xent_ok es \<and>
    (let hdr = 128 + inodeExtraIsize i
     in if hdr + 4 \<le> length (in_raw i) \<and> u32_at (in_raw i) hdr = xattrInodeMagic
        then \<exists>rest. drop (hdr + 4) (in_raw i) = concat (map enc_xent es) @ zeros 4 @ rest
        else es = [])"

definition attr_block :: "device \<Rightarrow> int \<Rightarrow> superblock \<Rightarrow> inode \<Rightarrow> byte list \<Rightarrow> xent list \<Rightarrow> bool" where
  "attr_block f fsOffset sb i blk es \<longleftrightarrow> list_all xent_ok es \<and>
    (if u32_at (in_raw i) inodeOffFilACLLo = 0 then es = []
     else readRawBlock f fsOffset sb (u32_at (in_raw i) inodeOffFilACLLo) = Inr blk \<and>
       (if 4 \<le> length blk \<and> u32_at blk 0 = xattrInodeMagic
        then \<exists>rest. drop 32 blk = concat (map enc_xent es) @ zeros 4 @ rest
        else es = []))"

text \<open>The value of \<open>system.data\<close>: the attribute in the inode has precedence.\<close>

definition stored_value :: "inode \<Rightarrow> xent list \<Rightarrow> byte list \<Rightarrow> xent list \<Rightarrow> byte list option result" where
  "stored_value i es blk es' =
    (if list_ex is_system_data es then xattr_value (in_raw i) (128 + inodeExtraIsize i + 4) es
     else xattr_value blk 0 es')"

lemma xattr_value_None: "\<not> list_ex is_system_data es \<Longrightarrow> xattr_value buf base es = Inr None"
  by (simp add: xattr_value_def list_ex_iff find_None_iff [THEN iffD2] split: option.split)

lemma xattr_value_Some: "list_ex is_system_data es \<Longrightarrow> xattr_value buf base es \<noteq> Inr None"
  by (auto simp: xattr_value_def list_ex_iff find_None_iff split: option.split)

lemma systemDataValue_stored:
  assumes "attr_area i es" "attr_block f fsOffset sb i blk es'" "108 \<le> length (in_raw i)"
  shows "systemDataValue f fsOffset sb i = stored_value i es blk es'"
proof -
  define hdr where "hdr = 128 + inodeExtraIsize i"
  define inside where "inside = (if hdr + 4 \<le> length (in_raw i) \<and> u32_at (in_raw i) hdr = xattrInodeMagic
    then findSystemDataXattr (in_raw i) (hdr + 4) (hdr + 4) else Inr None)"
  have ok: "\<forall>e\<in>set es. xent_ok e" "\<forall>e\<in>set es'. xent_ok e"
    using assms(1,2) by (simp_all add: attr_area_def attr_block_def list_all_iff)
  have ins: "inside = xattr_value (in_raw i) (hdr + 4) es"
  proof (cases "hdr + 4 \<le> length (in_raw i) \<and> u32_at (in_raw i) hdr = xattrInodeMagic")
    case True
    then obtain rest where "drop (hdr + 4) (in_raw i) = concat (map enc_xent es) @ zeros 4 @ rest"
      using assms(1) by (auto simp: attr_area_def Let_def hdr_def)
    from findSystemDataXattr_table [OF this ok(1)] show ?thesis
      using True by (simp add: inside_def)
  next
    case False
    then have "es = []"
      using assms(1) by (auto simp: attr_area_def Let_def hdr_def split: if_splits)
    then show ?thesis
      using False unfolding inside_def by (subst if_not_P) (simp_all add: xattr_value_def)
  qed
  have ext: "external_xattr f fsOffset sb i = xattr_value blk 0 es'"
  proof (cases "u32_at (in_raw i) inodeOffFilACLLo = 0")
    case True
    then show ?thesis
      using assms(2,3) by (simp add: external_xattr_def attr_block_def xattr_value_def Let_def)
  next
    case False
    then have rd: "readRawBlock f fsOffset sb (u32_at (in_raw i) inodeOffFilACLLo) = Inr blk"
      using assms(2) by (simp add: attr_block_def)
    show ?thesis
    proof (cases "4 \<le> length blk \<and> u32_at blk 0 = xattrInodeMagic")
      case m: True
      then obtain rest where "drop 32 blk = concat (map enc_xent es') @ zeros 4 @ rest"
        using assms(2) False by (auto simp: attr_block_def)
      from findSystemDataXattr_table [OF this ok(2)] show ?thesis
        using m False rd assms(3) by (simp add: external_xattr_def)
    next
      case m: False
      then have "es' = []"
        using assms(2) False by (auto simp: attr_block_def split: if_splits)
      then show ?thesis
        using m False rd assms(3) by (auto simp: external_xattr_def xattr_value_def)
    qed
  qed
  have run: "systemDataValue f fsOffset sb i = res_bind inside (\<lambda>v. case v of Some val \<Rightarrow> Inr (Some val) | None \<Rightarrow> external_xattr f fsOffset sb i)"
    unfolding systemDataValue_def Let_def hdr_def [symmetric] inside_def ..
  show ?thesis
  proof (cases "list_ex is_system_data es")
    case True
    then have "inside \<noteq> Inr None"
      using xattr_value_Some ins by simp
    then have "systemDataValue f fsOffset sb i = inside"
      unfolding run by (cases inside) (auto simp: res_bind_def split: option.split)
    then show ?thesis
      using True by (simp add: stored_value_def ins hdr_def)
  next
    case False
    then show ?thesis
      using xattr_value_None [OF False] by (simp add: run ins ext res_bind_def stored_value_def)
  qed
qed

section \<open>Properties\<close>

text \<open>C15: on any well-formed attribute table \<open>findSystemDataXattr\<close> returns what the table says: the
  value of its first \<open>system.data\<close> entry, the error for a value kept in another inode or
  outside the buffer, and nothing when no entry has the name.\<close>

theorem findSystemDataXattr_correct:
  assumes "drop off buf = concat (map enc_xent es) @ zeros 4 @ rest" "\<forall>e\<in>set es. xent_ok e"
  shows "findSystemDataXattr buf off valueBase = xattr_value buf valueBase es"
  using assms by (rule findSystemDataXattr_table)

definition sample_xents :: "xent list" where
  "sample_xents =
    [\<lparr>xe_index = 1, xe_name = [0x61], xe_offs = 0, xe_inum = 0, xe_size = 0, xe_hash = 0\<rparr>,
     \<lparr>xe_index = 7, xe_name = data_name, xe_offs = 2, xe_inum = 0, xe_size = 3, xe_hash = 0\<rparr>]"

theorem findSystemDataXattr_correct_witness:
  "findSystemDataXattr (concat (map enc_xent sample_xents) @ zeros 4 @ [1, 2, 9, 8, 7]) 0 44
     = Inr (Some [9, 8, 7])"
proof -
  have "\<forall>e\<in>set sample_xents. xent_ok e"
    by (simp add: sample_xents_def xent_ok_def data_name_def)
  from findSystemDataXattr_correct [OF _ this, of 0 _ "[1, 2, 9, 8, 7]" 44] show ?thesis
    by (simp only: drop_0) code_simp
qed

text \<open>C16: what \<open>inlineData\<close> returns, for every size and every pair of well-formed attribute tables, in the
  inode and in the external block.  Up to 60 bytes the content is the beginning of \<open>i_block\<close>.
  A longer content is the first \<open>size\<close> bytes of \<open>i_block\<close> followed by the value of the first
  \<open>system.data\<close> entry, the one in the inode before the one in the external block; an entry whose
  value is in another inode or out of range, a missing entry, and a value that is too short are
  refused with their errors, and so is a size that is negative as a signed number.\<close>

theorem inlineData_exact:
  assumes "attr_area i es" "attr_block f fsOffset sb i blk es'" "108 \<le> length (in_raw i)" "in_size i < 18446744073709551616"
  shows "inlineData f fsOffset sb i =
    (if in_size i \<ge> 9223372036854775808 then Inl ErrNegSize
     else if in_size i \<le> 60 then Inr (take (in_size i) (iblock i))
     else case stored_value i es blk es' of
       Inl err \<Rightarrow> Inl err
     | Inr None \<Rightarrow> Inl ErrNoSystemData
     | Inr (Some val) \<Rightarrow>
         if in_size i \<le> 60 + length val then Inr (take (in_size i) (iblock i @ val)) else Inl ErrInlineOverflow)"
proof -
  define sz where "sz = i64 (int (in_size i))"
  have l: "length (iblock i) = 60"
    using assms(3) by (simp add: iblock_def)
  note st = systemDataValue_stored [OF assms(1-3)]
  show ?thesis
  proof (cases "in_size i \<ge> 9223372036854775808")
    case True
    then have "sz < 0"
      using i64_nonneg [OF _ assms(4)] i64_less [of "int (in_size i)"] unfolding sz_def by linarith
    then show ?thesis
      using True by (simp add: inlineData_def Let_def sz_def)
  next
    case False
    then have sz: "sz = int (in_size i)"
      unfolding sz_def by (intro i64_nat) simp
    show ?thesis
    proof (cases "in_size i \<le> 60")
      case True
      then show ?thesis
        using sz by (simp add: inlineData_def Let_def sz_def)
    next
      case big: False
      have "inlineData f fsOffset sb i = res_bind (stored_value i es blk es') (\<lambda>v. case v of
            None \<Rightarrow> Inl ErrNoSystemData
          | Some val \<Rightarrow> if in_size i - 60 > length val then Inl ErrInlineOverflow else Inr (iblock i @ take (in_size i - 60) val))"
        using big sz st by (simp add: inlineData_def Let_def sz_def)
      then show ?thesis
        using False big l by (auto simp: res_bind_def split: sum.split option.split)
    qed
  qed
qed

text \<open>An inode with 63 bytes of content, three of them in an attribute.\<close>

definition inline_xent :: xent where
  "inline_xent = \<lparr>xe_index = 7, xe_name = data_name, xe_offs = 24, xe_inum = 0, xe_size = 3, xe_hash = 0\<rparr>"

definition inline_inode :: inode where
  "inline_inode = decode_inode 3 (zeros 4 @ [63] @ zeros 35 @ [65] @ zeros 87 @ [4, 0, 0, 0] @ [0, 0, 2, 0xEA]
     @ enc_xent inline_xent @ zeros 4 @ [9, 8, 7] @ zeros 93)"

lemma inline_attrs: "attr_area inline_inode [inline_xent]" "attr_block mini_dev 0 tiny_sb inline_inode [] []"
proof -
  have "128 + inodeExtraIsize inline_inode = 132" "length (in_raw inline_inode) = 256" "u32_at (in_raw inline_inode) 132 = xattrInodeMagic"
    "drop 136 (in_raw inline_inode) = enc_xent inline_xent @ zeros 4 @ drop 160 (in_raw inline_inode)" "xent_ok inline_xent"
    by code_simp+
  then show "attr_area inline_inode [inline_xent]"
    by (auto simp: attr_area_def Let_def)
  have "u32_at (in_raw inline_inode) inodeOffFilACLLo = 0"
    by code_simp
  then show "attr_block mini_dev 0 tiny_sb inline_inode [] []"
    by (simp add: attr_block_def)
qed

theorem inlineData_exact_witness:
  "inlineData mini_dev 0 tiny_sb inline_inode = Inr (65 # zeros 59 @ [9, 8, 7])"
proof -
  have "108 \<le> length (in_raw inline_inode)" "in_size inline_inode = 63"
    "stored_value inline_inode [inline_xent] [] [] = Inr (Some [9, 8, 7])" "take 63 (iblock inline_inode @ [9, 8, 7]) = 65 # zeros 59 @ [9, 8, 7]"
    by code_simp+
  then show ?thesis
    using inlineData_exact [OF inline_attrs] by simp
qed

end
