(* ===== verification/FileData.thy ===== *)
theory FileData
  imports Blockmap Inline
begin

text \<open>
  Reading a whole file: \<open>readExtents\<close> and \<open>readFileData\<close> of \<open>inode.go\<close>, \<open>blockMapData\<close> and
  \<open>copyLeaves\<close> of \<open>blockmap.go\<close>.  The three layouts (inline, block map, extents) are read
  by three pieces of code; \<open>content\<close> is the one specification they are proved against: byte
  \<open>k\<close> of the file is the byte of the mapped block, or zero in a hole.
\<close>

section \<open>Definitions\<close>

definition readExtents :: "'v safeio \<Rightarrow> device \<Rightarrow> int \<Rightarrow> superblock \<Rightarrow> inode \<Rightarrow> extentLeaf list result" where
  "readExtents S f fsOffset sb i =
    (if has_flag (inode_flags i) InodeFlagInlineData then Inl ErrInlineUnsupported
     else if \<not> has_flag (inode_flags i) InodeFlagExtents then blockMapExtents S f fsOffset sb i
     else parseExtentRoot S f fsOffset sb (iblock i))"

fun copyLeaves :: "device \<Rightarrow> int \<Rightarrow> superblock \<Rightarrow> extentLeaf list \<Rightarrow> byte list \<Rightarrow> byte list result" where
  "copyLeaves f fsOffset sb [] out = Inr out"
| "copyLeaves f fsOffset sb (e # es) out =
    (let bs = BlockSize sb;
         sz = length out;
         logOff = w64 (LogBlock e * bs)
     in if logOff \<ge> sz then copyLeaves f fsOffset sb es out
        else
          let n = (if w64 (logOff + w64 (Count e * bs)) > sz then sz - logOff else w64 (Count e * bs))
          in res_bind (ReadAt f (i64 (fsOffset + i64 (int (w64 (PhysBlock e * bs))))) n)
               (\<lambda>d. copyLeaves f fsOffset sb es (put_bytes out logOff d)))"

definition blockMapData :: "'v safeio \<Rightarrow> device \<Rightarrow> int \<Rightarrow> superblock \<Rightarrow> inode \<Rightarrow> byte list result" where
  "blockMapData S f fsOffset sb i =
    res_bind (MakeBytes S (clampInt64 (in_size i)) (fileSizeCeiling sb 0)) (\<lambda>out.
      if out = [] then Inr out
      else res_bind (blockMapExtents S f fsOffset sb i) (\<lambda>leaves.
             copyLeaves f fsOffset sb leaves out))"

text \<open>
  The re-read of the inode that \<open>readFileData\<close> does first, with the same descriptor check as
  \<open>readInode\<close>; every failure keeps the inode it was given.
\<close>

fun refresh_loop :: "nat \<Rightarrow> nat \<Rightarrow> (nat \<Rightarrow> device) \<Rightarrow> int \<Rightarrow> superblock \<Rightarrow> inode \<Rightarrow> inode" where
  "refresh_loop 0 k obs fsOffset sb i = i"
| "refresh_loop (Suc n) k obs fsOffset sb i =
    (let g = sub32 (in_num i) 1 div InodesPerGroup sb;
         localIdx = sub32 (in_num i) 1 mod InodesPerGroup sb
     in case readBGD (obs (2 * k)) fsOffset sb g of
          Inl _ \<Rightarrow> i
        | Inr d1 \<Rightarrow>
            (case readBGD (obs (2 * k + 1)) fsOffset sb g of
               Inl _ \<Rightarrow> i
             | Inr d2 \<Rightarrow>
                 if bg_InodeTableBlock d1 \<noteq> bg_InodeTableBlock d2
                 then refresh_loop n (k + 1) obs fsOffset sb i
                 else
                   let off = i64 (i64 (i64 (int (bg_InodeTableBlock d1)) * int (BlockSize sb))
                                  + i64 (int localIdx * int (InodeSize sb)))
                   in case ReadAt (obs (2 * k + 1)) (i64 (fsOffset + off)) (InodeSize sb) of
                        Inl _ \<Rightarrow> i
                      | Inr raw \<Rightarrow> decode_inode (in_num i) raw))"

definition refresh :: "device \<Rightarrow> int \<Rightarrow> superblock \<Rightarrow> inode \<Rightarrow> inode" where
  "refresh f fsOffset sb i =
    (if InodesPerGroup sb \<noteq> 0 \<and> BlockSize sb \<noteq> 0 \<and> InodeSize sb \<noteq> 0
     then refresh_loop maxAttempts 0 (\<lambda>_. f) fsOffset sb i else i)"

text \<open>The highest byte a leaf list can address, from \<open>mx\<close> on.\<close>

definition ext_end_max :: "superblock \<Rightarrow> extentLeaf list \<Rightarrow> int \<Rightarrow> int" where
  "ext_end_max sb = fold (\<lambda>e mx.
     let en = i64 ((int (LogBlock e) + int (Count e)) * int (BlockSize sb)) in if en > mx then en else mx)"

text \<open>The pairs of logical and physical block the two nested loops visit.\<close>

definition ext_blocks :: "extentLeaf list \<Rightarrow> (u64 \<times> u64) list" where
  "ext_blocks exts = concat (map (\<lambda>e. map (\<lambda>k. (LogBlock e + k, w64 (PhysBlock e + k))) [0..<Count e]) exts)"

fun copy_blocks :: "device \<Rightarrow> int \<Rightarrow> superblock \<Rightarrow> int \<Rightarrow> (u64 \<times> u64) list \<Rightarrow> byte list \<Rightarrow> byte list result" where
  "copy_blocks f fsOffset sb sz [] out = Inr out"
| "copy_blocks f fsOffset sb sz ((l, p) # ps) out =
    (if BlocksCount sb \<noteq> 0 \<and> p \<ge> BlocksCount sb then Inl ErrDataBlockRange
     else
       let bs = int (BlockSize sb);
           logOff = i64 (int l * bs)
       in if logOff \<ge> sz then copy_blocks f fsOffset sb sz ps out
          else
            let n = (if i64 (logOff + bs) > sz then i64 (sz - logOff) else bs)
            in res_bind (ReadAt f (i64 (fsOffset + i64 (i64 (int p) * bs))) (nat n))
                 (\<lambda>d. copy_blocks f fsOffset sb sz ps (put_bytes out (nat logOff) d)))"

definition readFileData :: "'v safeio \<Rightarrow> device \<Rightarrow> int \<Rightarrow> superblock \<Rightarrow> inode \<Rightarrow> byte list result" where
  "readFileData S f fsOffset sb i0 =
    (let i = refresh f fsOffset sb i0 in
     if isInline i then inlineData f fsOffset sb i
     else if \<not> has_flag (inode_flags i) InodeFlagExtents \<and> \<not> has_flag (inode_flags i) InodeFlagInlineData
     then blockMapData S f fsOffset sb i
     else res_bind (extents S f fsOffset sb i) (\<lambda>ext.
       let fallback = (if snd (declaredBytes sb) then 0 else ext_end_max sb ext 0)
       in res_bind (MakeBytes S (clampInt64 (in_size i)) (fileSizeCeiling sb fallback)) (\<lambda>out.
            if i64 (int (in_size i)) > 0 \<and> ext = [] then Inl ErrNoExtents
            else copy_blocks f fsOffset sb (i64 (int (in_size i))) (ext_blocks ext) out)))"

section \<open>The content of a file\<close>

definition geom_ok :: "int \<Rightarrow> superblock \<Rightarrow> bool" where
  "geom_ok fsOffset sb \<longleftrightarrow>
     0 < BlockSize sb \<and> BlockSize sb \<le> 65536 \<and> 0 \<le> fsOffset \<and> 0 < BlocksCount sb
   \<and> fsOffset + int (BlocksCount sb * BlockSize sb) < 9223372036854775807
   \<and> fsOffset < 4611686018427387904"

lemma geom_off:
  assumes "geom_ok fsOffset sb" "p < BlocksCount sb"
  shows "i64 (i64 (int p) * int (BlockSize sb)) = int (p * BlockSize sb)"
    "i64 (fsOffset + i64 (i64 (int p) * int (BlockSize sb))) = fsOffset + int (p * BlockSize sb)"
    "fsOffset + int (p * BlockSize sb + BlockSize sb) < 9223372036854775808"
proof -
  note g = assms(1) [unfolded geom_ok_def]
  have "Suc p * BlockSize sb \<le> BlocksCount sb * BlockSize sb"
    using assms(2) by (intro mult_le_mono1) simp
  then have up: "p * BlockSize sb + BlockSize sb \<le> BlocksCount sb * BlockSize sb"
    by simp
  with g show 3: "fsOffset + int (p * BlockSize sb + BlockSize sb) < 9223372036854775808"
    by linarith
  have "p * 1 \<le> p * BlockSize sb"
    using g by (intro mult_le_mono2) simp
  with 3 g have "i64 (int p) = int p" "i64 (int (p * BlockSize sb)) = int (p * BlockSize sb)"
    by (intro i64_id; linarith)+
  then show 1: "i64 (i64 (int p) * int (BlockSize sb)) = int (p * BlockSize sb)"
    by simp
  have "i64 (fsOffset + int (p * BlockSize sb)) = fsOffset + int (p * BlockSize sb)"
    using 3 g by (intro i64_id; linarith)
  with 1 show "i64 (fsOffset + i64 (i64 (int p) * int (BlockSize sb))) = fsOffset + int (p * BlockSize sb)"
    by simp
qed

definition content :: "device \<Rightarrow> int \<Rightarrow> superblock \<Rightarrow> (u64 \<rightharpoonup> u64) \<Rightarrow> nat \<Rightarrow> byte list" where
  "content f fsOffset sb m sz =
    map (\<lambda>k. case m (k div BlockSize sb) of
               None \<Rightarrow> 0
             | Some p \<Rightarrow> dev_byte f (nat fsOffset + p * BlockSize sb + k mod BlockSize sb)) [0..<sz]"

lemma length_content [simp]: "length (content f fsOffset sb m sz) = sz"
  by (simp add: content_def)

lemma nth_content:
  "k < sz \<Longrightarrow> content f fsOffset sb m sz ! k =
    (case m (k div BlockSize sb) of
       None \<Rightarrow> 0
     | Some p \<Rightarrow> dev_byte f (nat fsOffset + p * BlockSize sb + k mod BlockSize sb))"
  by (simp add: content_def cong: option.case_cong)

lemma content_empty: "content f fsOffset sb Map.empty sz = zeros sz"
  by (simp add: content_def zeros_def map_replicate_const)

lemma content_cong:
  assumes "\<And>b. b * BlockSize sb < sz \<Longrightarrow> m b = m' b"
  shows "content f fsOffset sb m sz = content f fsOffset sb m' sz"
proof -
  have "m (k div BlockSize sb) = m' (k div BlockSize sb)" if "k < sz" for k
    using that by (intro assms) (meson div_times_less_eq_dividend le_less_trans)
  then show ?thesis
    by (simp add: content_def)
qed

text \<open>Copying \<open>C\<close> consecutive blocks, clipped to the size, updates the map by that run.\<close>

lemma put_run:
  assumes bs: "0 < BlockSize sb" and n: "L * BlockSize sb + n = min sz ((L + C) * BlockSize sb)"
    and d: "d = map (dev_byte f) [nat fsOffset + P * BlockSize sb..<nat fsOffset + P * BlockSize sb + n]"
  shows "put_bytes (content f fsOffset sb m sz) (L * BlockSize sb) d
    = content f fsOffset sb (\<lambda>b. if L \<le> b \<and> b < L + C then Some (P + (b - L)) else m b) sz"
proof (rule nth_equalityI)
  define bs where "bs = BlockSize sb"
  have fit: "L * bs + length d \<le> sz" and len: "length d = n"
    using n d by (simp_all add: bs_def)
  then show "length (put_bytes (content f fsOffset sb m sz) (L * BlockSize sb) d)
    = length (content f fsOffset sb (\<lambda>b. if L \<le> b \<and> b < L + C then Some (P + (b - L)) else m b) sz)"
    by (simp add: bs_def)
  fix k assume "k < length (put_bytes (content f fsOffset sb m sz) (L * BlockSize sb) d)"
  then have k: "k < sz"
    using fit by (simp add: bs_def)
  define q r where "q = k div bs" and "r = k mod bs"
  have kqr: "k = q * bs + r" "r < bs"
    using bs by (simp_all add: q_def r_def bs_def)
  have inside: "L * bs \<le> k \<longleftrightarrow> L \<le> q"
    using kqr bs by (metis bs_def div_le_mono div_mult_self_is_m less_or_eq_imp_le mult_le_mono1 nat_less_le q_def
        add_leE div_times_less_eq_dividend le_trans)
  have "q < L + C \<longleftrightarrow> k < (L + C) * bs"
    using bs by (simp add: q_def bs_def less_mult_imp_div_less div_less_iff_less_mult)
  then have upper: "k < L * bs + n \<longleftrightarrow> q < L + C"
    using n k by (auto simp: bs_def)
  show "put_bytes (content f fsOffset sb m sz) (L * BlockSize sb) d ! k
    = content f fsOffset sb (\<lambda>b. if L \<le> b \<and> b < L + C then Some (P + (b - L)) else m b) sz ! k"
  proof (cases "L * bs \<le> k \<and> k < L * bs + n")
    case True
    then have q: "L \<le> q" "q < L + C"
      using inside upper by auto
    have "k - L * bs = (q - L) * bs + r"
      using kqr q(1) by (simp add: diff_mult_distrib)
    then have "nat fsOffset + P * bs + (k - L * bs) = nat fsOffset + (P + (q - L)) * bs + r"
      by (simp add: add_mult_distrib)
    moreover have "k - L * bs < n"
      using True by linarith
    then have "d ! (k - L * bs) = dev_byte f (nat fsOffset + P * bs + (k - L * bs))"
      by (simp only: d bs_def [symmetric] nth_map_upt length_upt add_diff_cancel_left')
    ultimately have "d ! (k - L * bs) = dev_byte f (nat fsOffset + (P + (q - L)) * bs + r)"
      by (simp only:)
    with True q k fit len show ?thesis
      by (simp add: nth_put_bytes bs_def [symmetric] content_def q_def [symmetric] r_def [symmetric])
  next
    case False
    then have "\<not> (L \<le> q \<and> q < L + C)"
      using inside upper by auto
    moreover have "put_bytes (content f fsOffset sb m sz) (L * bs) d ! k = content f fsOffset sb m sz ! k"
      using False k fit len by (subst nth_put_bytes) auto
    ultimately show ?thesis
      using k by (simp only: nth_content bs_def [symmetric] q_def [symmetric] r_def [symmetric] if_False)
  qed
qed

lemma run_upd:
  fixes L P :: nat
  shows "(\<lambda>b. if L \<le> b \<and> b < L + 1 then Some (P + (b - L)) else m b) = m(L \<mapsto> P)"
  by (auto simp: fun_eq_iff)

lemma map_of_rev_leaf:
  "map_of (rev (leaf_map e)) = (\<lambda>b. if LogBlock e \<le> b \<and> b < LogBlock e + Count e
     then Some (PhysBlock e + (b - LogBlock e)) else None)"
proof -
  have "map_of (rev (map (\<lambda>k. (l + k, p + k)) [0..<c]))
      = (\<lambda>b. if l \<le> b \<and> b < l + c then Some (p + (b - l)) else None)" for l p c :: nat
    by (induction c) (auto simp: fun_eq_iff)
  then show ?thesis
    by (simp add: leaf_map_def)
qed

lemma copy_blocks_content:
  assumes geom: "geom_ok fsOffset sb" and sz: "int sz < 9223372036854775808"
  shows "copy_blocks f fsOffset sb (int sz) ps (content f fsOffset sb m sz) = Inr out
    \<Longrightarrow> \<forall>(l, p)\<in>set ps. l < 8589934592
    \<Longrightarrow> out = content f fsOffset sb (m ++ map_of (rev ps)) sz"
proof (induction ps arbitrary: m)
  case (Cons lp ps)
  obtain l p where lp: "lp = (l, p)"
    by (rule prod.exhaust)
  note g = geom [unfolded geom_ok_def]
  define bs where "bs = BlockSize sb"
  have l: "l < 8589934592" and rest: "\<forall>(l, p)\<in>set ps. l < 8589934592"
    using Cons.prems(2) lp by auto
  have "l * bs \<le> 8589934592 * 65536"
    using l g unfolding bs_def by (intro mult_le_mono) simp_all
  then have lo: "i64 (int l * int bs) = int (l * bs)" "int (l * bs) + int bs < 9223372036854775808"
    using g by (simp_all add: bs_def flip: of_nat_mult)
  have pb: "p < BlocksCount sb"
    using Cons.prems(1) g by (auto simp: lp split: if_splits)
  show ?case
  proof (cases "l * bs \<ge> sz")
    case True
    then have "copy_blocks f fsOffset sb (int sz) ps (content f fsOffset sb m sz) = Inr out"
      using Cons.prems(1) pb lo by (simp add: lp Let_def bs_def [symmetric] flip: of_nat_mult)
    with Cons.IH rest have "out = content f fsOffset sb (m ++ map_of (rev ps)) sz"
      by blast
    also have "\<dots> = content f fsOffset sb (m ++ map_of (rev (lp # ps))) sz"
      by (rule content_cong) (use True in \<open>auto simp: lp bs_def map_add_def split: option.splits\<close>)
    finally show ?thesis .
  next
    case False
    define n where "n = min bs (sz - l * bs)"
    have nn: "nat (if i64 (int (l * bs) + int bs) > int sz then i64 (int sz - int (l * bs)) else int bs) = n"
    proof -
      have "i64 (int (l * bs) + int bs) = int (l * bs) + int bs" "i64 (int sz - int (l * bs)) = int sz - int (l * bs)"
        using False sz lo(2) by (intro i64_id; linarith)+
      then show ?thesis
        using False by (auto simp: n_def min_def simp del: of_nat_mult)
    qed
    note off = geom_off(2) [OF geom pb, folded bs_def]
    have "copy_blocks f fsOffset sb (int sz) (lp # ps) (content f fsOffset sb m sz)
        = res_bind (ReadAt f (fsOffset + int (p * bs)) n)
            (\<lambda>d. copy_blocks f fsOffset sb (int sz) ps (put_bytes (content f fsOffset sb m sz) (l * bs) d))"
      using False pb unfolding lp copy_blocks.simps Let_def bs_def [symmetric] lo(1) off nn by (simp del: of_nat_mult)
    with Cons.prems(1) obtain d where d: "ReadAt f (fsOffset + int (p * bs)) n = Inr d"
      and run: "copy_blocks f fsOffset sb (int sz) ps (put_bytes (content f fsOffset sb m sz) (l * bs) d) = Inr out"
      by (auto simp: res_bind_Inr_iff)
    have "d = map (dev_byte f) [nat fsOffset + p * bs..<nat fsOffset + p * bs + n]"
      using d g by (simp add: ReadAt_Inr_iff nat_add_distrib del: of_nat_mult)
    moreover have "l * bs + n = min sz ((l + 1) * bs)"
      using False by (auto simp: n_def)
    ultimately have "put_bytes (content f fsOffset sb m sz) (l * bs) d = content f fsOffset sb (m(l \<mapsto> p)) sz"
      using put_run [of sb l n sz 1 d f fsOffset p m] g unfolding bs_def run_upd by simp
    with run Cons.IH rest have "out = content f fsOffset sb (m(l \<mapsto> p) ++ map_of (rev ps)) sz"
      by simp
    then show ?thesis
      by (simp add: lp)
  qed
qed simp

lemma run_add: "(\<lambda>b. if LogBlock e \<le> b \<and> b < LogBlock e + Count e then Some (PhysBlock e + (b - LogBlock e)) else m b)
    = m ++ map_of (rev (leaf_map e))"
  unfolding map_of_rev_leaf by (auto simp: fun_eq_iff map_add_def)

lemma copyLeaves_content:
  assumes geom: "geom_ok fsOffset sb" and sz: "int sz < 9223372036854775808"
  shows "copyLeaves f fsOffset sb es (content f fsOffset sb m sz) = Inr out \<Longrightarrow> \<forall>e\<in>set es. bm_leaf_ok e
    \<Longrightarrow> out = content f fsOffset sb (m ++ map_of (rev (ext_map es))) sz"
proof (induction es arbitrary: m)
  case (Cons e es)
  note g = geom [unfolded geom_ok_def]
  define bs L P C where "bs = BlockSize sb" and "L = LogBlock e" and "P = PhysBlock e" and "C = Count e"
  have ok: "L < 4294967296" "P < 4294967296" "C \<le> 65535"
    using Cons.prems(2) by (simp_all add: bm_leaf_ok_def L_def P_def C_def)
  then have "L * bs \<le> 4294967296 * 65536" "P * bs \<le> 4294967296 * 65536" "C * bs \<le> 65535 * 65536"
    using g unfolding bs_def by (intro mult_le_mono; simp)+
  then have w: "w64 (L * bs) = L * bs" "w64 (C * bs) = C * bs" "w64 (P * bs) = P * bs"
    "w64 (L * bs + C * bs) = L * bs + C * bs" and off: "i64 (fsOffset + i64 (int (P * bs))) = fsOffset + int (P * bs)"
    using g by (simp_all del: of_nat_mult)
  show ?case
  proof (cases "L * bs \<ge> sz")
    case True
    then have "copyLeaves f fsOffset sb es (content f fsOffset sb m sz) = Inr out"
      using Cons.prems(1) unfolding copyLeaves.simps Let_def bs_def [symmetric] L_def [symmetric] w by simp
    with Cons have "out = content f fsOffset sb (m ++ map_of (rev (ext_map es))) sz"
      by simp
    also have "\<dots> = content f fsOffset sb (m ++ map_of (rev (ext_map (e # es)))) sz"
    proof (rule content_cong)
      fix b assume "b * BlockSize sb < sz"
      then have "\<not> L * bs \<le> b * bs"
        using True unfolding bs_def by linarith
      then have "\<not> L \<le> b"
        by auto
      then show "(m ++ map_of (rev (ext_map es))) b = (m ++ map_of (rev (ext_map (e # es)))) b"
        by (simp add: map_add_def map_of_rev_leaf L_def split: option.split)
    qed
    finally show ?thesis .
  next
    case False
    define n where "n = (if L * bs + C * bs > sz then sz - L * bs else C * bs)"
    have "copyLeaves f fsOffset sb (e # es) (content f fsOffset sb m sz)
        = res_bind (ReadAt f (fsOffset + int (P * bs)) n)
            (\<lambda>d. copyLeaves f fsOffset sb es (put_bytes (content f fsOffset sb m sz) (L * bs) d))"
      using False unfolding copyLeaves.simps Let_def length_content
        bs_def [symmetric] L_def [symmetric] P_def [symmetric] C_def [symmetric] w off n_def by simp
    with Cons.prems(1) obtain d where d: "ReadAt f (fsOffset + int (P * bs)) n = Inr d"
      and run: "copyLeaves f fsOffset sb es (put_bytes (content f fsOffset sb m sz) (L * bs) d) = Inr out"
      by (simp only: res_bind_Inr_iff) blast
    have "d = map (dev_byte f) [nat fsOffset + P * bs..<nat fsOffset + P * bs + n]"
      using d g by (simp add: ReadAt_Inr_iff nat_add_distrib del: of_nat_mult)
    moreover have "L * bs + n = min sz ((L + C) * bs)"
      using False by (auto simp: n_def add_mult_distrib)
    ultimately have "put_bytes (content f fsOffset sb m sz) (L * bs) d
        = content f fsOffset sb (m ++ map_of (rev (leaf_map e))) sz"
      using put_run [of sb L n sz C d f fsOffset P m] g run_add [of e m]
      unfolding bs_def L_def P_def C_def by simp
    with run Cons have "out = content f fsOffset sb ((m ++ map_of (rev (leaf_map e))) ++ map_of (rev (ext_map es))) sz"
      by simp
    then show ?thesis
      by simp
  qed
qed simp

section \<open>Whole files\<close>

lemma get_leaf_ok: "leaf_ok (get_leaf buf off)"
proof -
  have "u16_at buf (off + 4) AND 32767 \<le> 32767"
    using take_bit_nat_less_exp [of 15 "u16_at buf (off + 4)"]
    by (simp add: take_bit_eq_mask mask_eq_exp_minus_1)
  moreover have "join32 (u16_at buf (off + 6)) (u32_at buf (off + 8)) < 281474976710656"
    using u16_at_less [of buf "off + 6"] u32_at_less [of buf "off + 8"]
    unfolding join32_eq [OF u32_at_less] by linarith
  ultimately show ?thesis
    by (simp add: leaf_ok_def get_leaf_def Let_def)
qed

lemma walk_children_all:
  assumes "\<And>b v ls v'. node b v = Inr (ls, v') \<Longrightarrow> \<forall>e\<in>set ls. leaf_ok e"
  shows "walk_children node S f fsOffset sb cs v = Inr (ls, v') \<Longrightarrow> \<forall>e\<in>set ls. leaf_ok e"
proof (induction cs arbitrary: v ls v')
  case (Cons c cs)
  then show ?case
    using assms by (fastforce simp: res_bind_Inr_iff split: if_splits prod.splits)
qed simp

lemma parseExtentNode_all: "parseExtentNode d S f fsOffset sb buf v = Inr (ls, v') \<Longrightarrow> \<forall>e\<in>set ls. leaf_ok e"
proof (induction d arbitrary: buf v ls v')
  case 0
  then show ?case
    by (auto simp: res_bind_Inr_iff get_leaf_ok)
next
  case (Suc d)
  from Suc.prems obtain cs where
    "walk_children (\<lambda>b w. parseExtentNode d S f fsOffset sb b w) S f fsOffset sb cs v = Inr (ls, v')"
    by (auto simp: res_bind_Inr_iff simp del: walk_children.simps)
  with walk_children_all [of "\<lambda>b w. parseExtentNode d S f fsOffset sb b w"] Suc.IH show ?case
    by blast
qed

lemma parseExtentRoot_ok:
  "parseExtentRoot S f fsOffset sb buf = Inr ls \<Longrightarrow> (\<forall>e\<in>set ls. leaf_ok e) \<and> validateExtents ls = Inr ()"
  by (auto simp: parseExtentRoot_def res_bind_Inr_iff dest: parseExtentNode_all split: if_splits)

lemma ext_blocks_eq: "\<forall>e\<in>set ls. leaf_ok e \<Longrightarrow> ext_blocks ls = ext_map ls"
  by (induction ls) (auto simp: ext_blocks_def ext_map_def leaf_map_def leaf_ok_def)

lemma declared_geom:
  assumes "geom_ok fsOffset sb"
  shows "declaredBytes sb = (int (BlocksCount sb * BlockSize sb), True)"
proof -
  note g = assms [unfolded geom_ok_def]
  define total where "total = BlocksCount sb * BlockSize sb"
  have "total \<le> 9223372036854775807"
    using g unfolding total_def [symmetric] by linarith
  moreover have "0 < BlockSize sb"
    using g by blast
  ultimately have "BlocksCount sb \<le> 9223372036854775807 div BlockSize sb"
    unfolding total_def by (simp only: less_eq_div_iff_mult_less_eq)
  moreover have "BlocksCount sb * 1 \<le> BlocksCount sb * BlockSize sb"
    using g by (intro mult_le_mono2) simp
  then have "i64 (int (BlocksCount sb)) = int (BlocksCount sb)"
    "i64 (int (BlocksCount sb * BlockSize sb)) = int (BlocksCount sb * BlockSize sb)"
    using g by (intro i64_nat; linarith)+
  ultimately show ?thesis
    using g by (simp add: declaredBytes_def)
qed

lemma ceiling_geom: "geom_ok fsOffset sb \<Longrightarrow> fileSizeCeiling sb fb \<le> int (BlocksCount sb * BlockSize sb)"
  using declared_geom [of fsOffset sb] by (auto simp: fileSizeCeiling_def geom_ok_def Let_def simp del: of_nat_mult)

lemma MakeBytes_geom:
  assumes "geom_ok fsOffset sb" "makeBytes_ok S"
    and "MakeBytes S (clampInt64 sz) (fileSizeCeiling sb fb) = Inr out"
  shows "out = zeros sz" "int sz < 9223372036854775807"
proof -
  note g = assms(1) [unfolded geom_ok_def]
  have "clampInt64 sz \<le> fileSizeCeiling sb fb"
  proof (rule ccontr)
    assume "\<not> clampInt64 sz \<le> fileSizeCeiling sb fb"
    then have "MakeBytes S (clampInt64 sz) (fileSizeCeiling sb fb) = Inl ErrTooLarge"
      using assms(2) by (simp add: makeBytes_ok_def)
    with assms(3) show False
      by simp
  qed
  also have "\<dots> < 9223372036854775807"
    using ceiling_geom [OF assms(1), of fb] g by linarith
  finally have "clampInt64 sz < 9223372036854775807" .
  then show sz: "int sz < 9223372036854775807"
    by (simp add: clampInt64_def split: if_splits)
  then have c: "clampInt64 sz = int sz"
    by (simp add: clampInt64_def)
  show "out = zeros sz"
    using assms(2,3) \<open>clampInt64 sz \<le> fileSizeCeiling sb fb\<close> unfolding c makeBytes_ok_def by auto
qed

lemma budget_geom: "geom_ok fsOffset sb \<Longrightarrow> blockBudget sb \<le> BlocksCount sb"
  by (auto simp: blockBudget_def geom_ok_def Let_def split: if_splits prod.splits)

lemma blocks_bound: "geom_ok fsOffset sb \<Longrightarrow> BlocksCount sb < 9223372036854775807"
proof -
  assume "geom_ok fsOffset sb"
  note g = this [unfolded geom_ok_def]
  have "BlocksCount sb * 1 \<le> BlocksCount sb * BlockSize sb"
    using g by (intro mult_le_mono2) simp
  with g show ?thesis
    by linarith
qed

lemma readFileData_is_content:
  assumes geom: "geom_ok fsOffset sb" and S: "makeBytes_ok S" and i: "i = refresh f fsOffset sb i0"
    and run: "readFileData S f fsOffset sb i0 = Inr out" and inl: "\<not> isInline i"
    and ls: "readExtents S f fsOffset sb i = Inr ls"
  shows "out = content f fsOffset sb (map_of (rev (ext_map ls))) (in_size i) \<and> int (in_size i) < 9223372036854775807"
proof (cases "has_flag (inode_flags i) InodeFlagExtents")
  case True
  have root: "parseExtentRoot S f fsOffset sb (iblock i) = Inr ls"
    using ls inl True by (simp add: readExtents_def isInline_def)
  note ok = parseExtentRoot_ok [OF root]
  have "extents S f fsOffset sb i = Inr ls"
    using root inl True by (simp add: extents_def isInline_def)
  with run True inl obtain out0 where
    mk: "MakeBytes S (clampInt64 (in_size i)) (fileSizeCeiling sb (if snd (declaredBytes sb) then 0 else ext_end_max sb ls 0)) = Inr out0"
    and cp: "copy_blocks f fsOffset sb (i64 (int (in_size i))) (ext_blocks ls) out0 = Inr out"
    by (auto simp: readFileData_def Let_def i [symmetric] res_bind_Inr_iff split: if_splits)
  note out0 = MakeBytes_geom [OF geom S mk]
  have "i64 (int (in_size i)) = int (in_size i)"
    using out0(2) by simp
  with cp out0(1) have cp: "copy_blocks f fsOffset sb (int (in_size i)) (ext_map ls) (content f fsOffset sb Map.empty (in_size i)) = Inr out"
    using ok by (simp add: ext_blocks_eq content_empty)
  have "\<forall>(l, p)\<in>set (ext_map ls). l < 8589934592"
    using ok by (fastforce simp: ext_map_def leaf_map_def leaf_ok_def)
  with copy_blocks_content [OF geom _ cp] out0(2) show ?thesis
    by simp
next
  case False
  have bm: "blockMapExtents S f fsOffset sb i = Inr ls"
    using ls inl False by (simp add: readExtents_def isInline_def)
  have "blockMapData S f fsOffset sb i = Inr out"
    using run False inl by (simp add: readFileData_def Let_def i [symmetric] isInline_def)
  then obtain out0 where
    mk: "MakeBytes S (clampInt64 (in_size i)) (fileSizeCeiling sb 0) = Inr out0"
    and cp: "(if out0 = [] then Inr out0 else copyLeaves f fsOffset sb ls out0) = Inr out"
    unfolding blockMapData_def bm res_bind_simps by (simp only: res_bind_Inr_iff) blast
  note out0 = MakeBytes_geom [OF geom S mk]
  show ?thesis
  proof (cases "in_size i = 0")
    case True
    then show ?thesis
      using out0 cp by (simp add: zeros_def content_def)
  next
    case False
    have "BlockSize sb \<le> 65536" "blockBudget sb < 18446744073709551615"
      using geom budget_geom [OF geom] blocks_bound [OF geom] by (simp_all add: geom_ok_def)
    with blockMapExtents_adds [OF bm] False have ok: "\<forall>e\<in>set ls. bm_leaf_ok e"
      by simp
    have "copyLeaves f fsOffset sb ls (content f fsOffset sb Map.empty (in_size i)) = Inr out"
      using cp False out0(1) by (simp add: content_empty zeros_def)
    with copyLeaves_content [OF geom _ _ ok, of "in_size i" f Map.empty out] out0(2) show ?thesis
      by simp
  qed
qed

end
