(* ===== verification/JournalWrite.thy ===== *)
theory JournalWrite
  imports JournalReplay FileData
begin

text \<open>
  Writes through the journal: staging the blocks of a byte range and committing them leaves the
  device exactly as the direct write would.
\<close>

section \<open>Staging\<close>

lemma table_of_block_bgd: "table_of_block f fsOffset sb b = Some (g, it) \<Longrightarrow> \<exists>d. readBGD f fsOffset sb g = Inr d \<and> bg_InodeTableBlock d = it"
  by (auto simp: table_of_block_def Let_def split: if_splits sum.splits)

lemma set_map_filter: "set (List.map_filter F xs) = {y. \<exists>x\<in>set xs. F x = Some y}"
  by (induction xs) (auto simp: map_filter_simps split: option.splits)

lemma groupsMap_stable: "find_stable addRangeMaxAttempts 0 (\<lambda>_. f) fsOffset sb b n (groupsMap f fsOffset sb b n)"
proof -
  have "list_all (\<lambda>(g, it). case readBGD f fsOffset sb g of Inl _ \<Rightarrow> False | Inr d2 \<Rightarrow> bg_InodeTableBlock d2 = it) (groupsMap f fsOffset sb b n)"
    by (auto simp: list_all_iff groupsMap_def set_map_filter dest!: table_of_block_bgd)
  moreover have "addRangeMaxAttempts = Suc 7"
    by (simp add: addRangeMaxAttempts_def)
  ultimately show ?thesis
    using find_stable.simps(2) [of 7 0 "\<lambda>_. f"] by simp
qed

lemma addRangeToTx_merge:
  assumes "BlockSize sb \<noteq> 0" "0 \<le> i64 (startAbs - fsOffset)"
  shows "addRangeToTx f fsOffset sb startAbs data tx =
    merge_pieces f fsOffset sb (nat (i64 (startAbs - fsOffset)) div BlockSize sb)
      (pieces (BlockSize sb) (nat (i64 (startAbs - fsOffset)) mod BlockSize sb) (length data)) data tx"
  using assms by (simp add: addRangeToTx_def addRangeToTx_obs_def Let_def groupsMap_stable del: find_stable.simps)

lemma pieces_block: "0 < bs \<Longrightarrow> pieces bs 0 bs = [(0, bs)]"
  by (simp add: pieces.simps [of bs 0 bs] pieces.simps [of bs 0 0])

lemma upsert_new: "find (\<lambda>e. je_Block e = b) es = None \<Longrightarrow> upsert b d es = es @ [\<lparr>je_Block = b, je_Data = d\<rparr>]"
  by (induction es) (auto split: if_splits)

lemma block_off_rel:
  assumes "geom_ok fsOffset sb" "b < BlocksCount sb"
  shows "block_off fsOffset sb b = fsOffset + int (b * BlockSize sb)" "i64 (block_off fsOffset sb b - fsOffset) = int (b * BlockSize sb)"
proof -
  have "i64 (int (b * BlockSize sb)) = int (b * BlockSize sb)"
    using geom_off(3) [OF assms] assms(1) [unfolded geom_ok_def] by (intro i64_nat) linarith
  then show "block_off fsOffset sb b = fsOffset + int (b * BlockSize sb)" "i64 (block_off fsOffset sb b - fsOffset) = int (b * BlockSize sb)"
    using geom_off(2) [OF assms] by (simp_all add: block_off_def)
qed

lemma addRange_block:
  assumes g: "geom_ok fsOffset sb" "b < BlocksCount sb" and buf: "length buf = BlockSize sb"
    and r: "readRawBlock f fsOffset sb b = Inr old" and tx: "\<not> tx_committed tx" "GetBlock tx b = None"
  shows "addRangeToTx f fsOffset sb (block_off fsOffset sb b) buf tx = (Inr (), tx\<lparr>tx_entries := tx_entries tx @ [\<lparr>je_Block = b, je_Data = buf\<rparr>]\<rparr>)"
proof -
  have bs: "0 < BlockSize sb"
    using g(1) by (simp add: geom_ok_def)
  have old: "length old = BlockSize sb" "ReadAt f (block_off fsOffset sb b) (BlockSize sb) = Inr old"
    using r ReadAt_length by (auto simp: readRawBlock_def)
  have e: "find (\<lambda>e. je_Block e = b) (tx_entries tx) = None"
    using tx(2) by (simp add: GetBlock_def)
  have "put_bytes old 0 buf = buf"
    using old(1) buf by (simp add: put_bytes_def)
  moreover have "addRangeToTx f fsOffset sb (block_off fsOffset sb b) buf tx = merge_pieces f fsOffset sb b [(0, BlockSize sb)] buf tx"
    using bs by (simp add: addRangeToTx_merge block_off_rel(2) [OF g] pieces_block buf nat_mult_distrib)
  ultimately show ?thesis
    using old(2) tx upsert_new [OF e] buf by (simp add: io_bind_def AddBlock_def)
qed

text \<open>The entries the loop of \<open>applyOrJournalWrite\<close> stages.\<close>

fun staged :: "device \<Rightarrow> nat \<Rightarrow> nat \<Rightarrow> u64 \<Rightarrow> (nat \<times> nat) list \<Rightarrow> byte list \<Rightarrow> journalEntry list" where
  "staged f base bs b [] data = []"
| "staged f base bs b ((off, n) # ps) data =
    \<lparr>je_Block = b, je_Data = put_bytes (map (dev_byte f) [base + b * bs..<base + b * bs + bs]) off (take n data)\<rparr>
      # staged f base bs (b + 1) ps (drop n data)"

lemma stage_blocks_staged:
  assumes g: "geom_ok fsOffset sb" and dev: "nat fsOffset + BlocksCount sb * BlockSize sb \<le> dev_size f"
  shows "b + length ps \<le> BlocksCount sb \<Longrightarrow> \<forall>(off, n)\<in>set ps. off + n \<le> BlockSize sb \<Longrightarrow> \<not> tx_committed tx \<Longrightarrow>
    \<forall>e\<in>set (tx_entries tx). je_Block e < b \<Longrightarrow>
    stage_blocks f fsOffset sb b ps data tx = (Inr (), tx\<lparr>tx_entries := tx_entries tx @ staged f (nat fsOffset) (BlockSize sb) b ps data\<rparr>)"
proof (induction ps arbitrary: b data tx)
  case (Cons p ps)
  obtain off n where p: "p = (off, n)"
    by (rule prod.exhaust)
  have b: "b < BlocksCount sb"
    using Cons.prems(1) by simp
  have fo: "0 \<le> fsOffset"
    using g by (simp add: geom_ok_def)
  define blk where "blk = map (dev_byte f) [nat fsOffset + b * BlockSize sb..<nat fsOffset + b * BlockSize sb + BlockSize sb]"
  have "Suc b * BlockSize sb \<le> BlocksCount sb * BlockSize sb"
    using b by (intro mult_le_mono1) simp
  then have r: "readRawBlock f fsOffset sb b = Inr blk"
    using dev fo by (simp add: readRawBlock_def block_off_rel(1) [OF g b] ReadAt_Inr_iff blk_def nat_add_distrib nat_mult_distrib)
  define buf where "buf = put_bytes blk off (take n data)"
  have "length buf = BlockSize sb"
    using Cons.prems(2) by (auto simp: p buf_def blk_def)
  moreover have "GetBlock tx b = None"
    using Cons.prems(4) by (auto simp: GetBlock_def find_None_iff)
  ultimately have a: "addRangeToTx f fsOffset sb (block_off fsOffset sb b) buf tx
      = (Inr (), tx\<lparr>tx_entries := tx_entries tx @ [\<lparr>je_Block = b, je_Data = buf\<rparr>]\<rparr>)"
    by (rule addRange_block [OF g b _ r Cons.prems(3)])
  have "stage_blocks f fsOffset sb (b + 1) ps (drop n data) (tx\<lparr>tx_entries := tx_entries tx @ [\<lparr>je_Block = b, je_Data = buf\<rparr>]\<rparr>)
    = (Inr (), tx\<lparr>tx_entries := (tx_entries tx @ [\<lparr>je_Block = b, je_Data = buf\<rparr>]) @ staged f (nat fsOffset) (BlockSize sb) (b + 1) ps (drop n data)\<rparr>)"
    using Cons.IH [of "b + 1" "tx\<lparr>tx_entries := tx_entries tx @ [\<lparr>je_Block = b, je_Data = buf\<rparr>]\<rparr>" "drop n data"] Cons.prems
    by (auto simp: less_Suc_eq)
  then show ?case
    using r a by (simp add: p io_bind_def buf_def blk_def)
qed simp

text \<open>Writing a block back with some of its bytes replaced is writing those bytes.\<close>

lemma store_overlay:
  assumes "P + bs \<le> dev_size f" "off + length d \<le> bs" "d \<noteq> []"
  shows "dev_store f P (put_bytes (map (dev_byte f) [P..<P + bs]) off d) = dev_store f (P + off) d"
proof -
  define blk where "blk = put_bytes (map (dev_byte f) [P..<P + bs]) off d"
  have l: "length blk = bs"
    using assms by (simp add: blk_def)
  have "(if P \<le> i \<and> i < P + bs then blk ! (i - P) else if i < dev_size f then dev_byte f i else 0)
      = (if P + off \<le> i \<and> i < P + off + length d then d ! (i - (P + off)) else if i < dev_size f then dev_byte f i else 0)" for i
    using assms by (auto simp: blk_def nth_put_bytes)
  then show ?thesis
    using assms l by (auto simp: dev_store_def blk_def [symmetric])
qed

lemma store_append:
  assumes "xs \<noteq> []" "ys \<noteq> []"
  shows "dev_store (dev_store f p xs) (p + length xs) ys = dev_store f p (xs @ ys)"
  using assms by (intro device.equality) (auto simp: dev_store_def nth_append fun_eq_iff)

lemma pieces_count:
  "off < bs \<Longrightarrow> b * bs + off + len \<le> N * bs \<Longrightarrow> b + length (pieces bs off len) \<le> N"
proof (induction bs off len arbitrary: b rule: pieces.induct)
  case (1 bs off len)
  show ?case
  proof (cases "len = 0")
    case True
    have "b * bs \<le> N * bs"
      using 1(3) by linarith
    then show ?thesis
      using True 1(2) by (simp add: pieces.simps [of bs off 0])
  next
    case False
    define n where "n = min (bs - off) len"
    have r: "Suc b * bs + 0 + (len - n) \<le> N * bs" if "n \<noteq> len"
      using that 1(2,3) by (auto simp: n_def min_def split: if_splits)
    have "b * bs < N * bs"
      using 1(3) False by linarith
    then have "Suc b + length (pieces bs 0 (len - n)) \<le> N"
      using 1(1) [of "Suc b"] r 1(2) False by (cases "n = len") (auto simp: n_def [symmetric] pieces.simps [of bs 0 0])
    then show ?thesis
      using False 1(2) by (simp add: pieces.simps [of bs off len] n_def)
  qed
qed

lemma staged_upto:
  assumes "\<And>i. base + b * bs \<le> i \<Longrightarrow> i < base + (b + length ps) * bs \<Longrightarrow> dev_byte f i = dev_byte f' i"
  shows "staged f base bs b ps data = staged f' base bs b ps data"
  using assms
proof (induction f base bs b ps data rule: staged.induct)
  case (2 f base bs b off n ps data)
  have "map (dev_byte f) [base + b * bs..<base + b * bs + bs] = map (dev_byte f') [base + b * bs..<base + b * bs + bs]"
    using 2(2) by (auto intro!: map_cong simp: algebra_simps)
  moreover have "staged f base bs (b + 1) ps (drop n data) = staged f' base bs (b + 1) ps (drop n data)"
    by (rule 2(1)) (use 2(2) in simp)
  ultimately show ?case
    by (simp only: staged.simps)
qed simp

lemma stores_staged:
  assumes g: "geom_ok fsOffset sb"
  shows "data \<noteq> [] \<Longrightarrow> off < BlockSize sb \<Longrightarrow> b * BlockSize sb + off + length data \<le> BlocksCount sb * BlockSize sb
    \<Longrightarrow> nat fsOffset + BlocksCount sb * BlockSize sb \<le> dev_size f
    \<Longrightarrow> stores (entry_writes fsOffset (BlockSize sb) (staged f (nat fsOffset) (BlockSize sb) b (pieces (BlockSize sb) off (length data)) data)) f
      = dev_store f (nat fsOffset + b * BlockSize sb + off) data"
proof (induction "length data" arbitrary: data off b f rule: less_induct)
  case less
  define bs where "bs = BlockSize sb"
  define n where "n = min (bs - off) (length data)"
  define P where "P = nat fsOffset + b * bs"
  define d where "d = take n data"
  note prems = less.prems [folded bs_def]
  have n: "0 < n" "n \<le> length data" "off + n \<le> bs" "d \<noteq> []" "length d = n"
    using prems by (auto simp: n_def d_def)
  have b: "b < BlocksCount sb"
    using prems(1,3) by (metis add_gr_0 add_leD1 length_greater_0_conv linorder_not_less mult_le_mono1 nless_le trans_less_add1 add.commute less_add_same_cancel1 order.strict_trans2)
  have off: "nat (entry_off fsOffset bs b) = P"
    using geom_off(2) [OF g b] g by (simp add: entry_off_def P_def bs_def geom_ok_def nat_add_distrib nat_mult_distrib)
  have "b * bs + bs \<le> BlocksCount sb * bs"
    using b by (metis Suc_leI add.commute mult_Suc mult_le_mono1)
  then have "P + bs \<le> dev_size f"
    using prems(4) by (simp add: P_def)
  then have first: "dev_store f P (put_bytes (map (dev_byte f) [P..<P + bs]) off d) = dev_store f (P + off) d"
    using n by (intro store_overlay) auto
  have ps: "pieces bs off (length data) = (off, n) # pieces bs 0 (length data - n)"
    using prems by (simp add: pieces.simps [of bs off] n_def)
  show ?case
  proof (cases "n = length data")
    case True
    then show ?thesis
      using first ps off by (simp add: bs_def [symmetric] P_def [symmetric] entry_writes_def d_def pieces.simps [of bs 0 0])
  next
    case False
    define f1 where "f1 = dev_store f (P + off) d"
    define rest where "rest = drop n data"
    have full: "off + n = bs"
      using False n(2) prems(2) by (simp add: n_def min_def split: if_splits)
    have len: "length rest < length data" "rest \<noteq> []" "length rest = length data - n"
      using False n(1,2) by (auto simp: rest_def)
    have room: "(b + 1) * bs + 0 + length rest \<le> BlocksCount sb * bs"
      using prems(3) full len(3) n(2) by (simp add: algebra_simps)
    have size: "dev_size f1 = dev_size f"
      using prems(4) \<open>P + bs \<le> dev_size f\<close> n by (simp add: f1_def dev_store_def)
    have same: "staged f (nat fsOffset) bs (b + 1) (pieces bs 0 (length rest)) rest = staged f1 (nat fsOffset) bs (b + 1) (pieces bs 0 (length rest)) rest"
    proof (rule staged_upto)
      fix i
      assume i: "nat fsOffset + (b + 1) * bs \<le> i" "i < nat fsOffset + (b + 1 + length (pieces bs 0 (length rest))) * bs"
      have "b + 1 + length (pieces bs 0 (length rest)) \<le> BlocksCount sb"
        using prems(2) room by (intro pieces_count) auto
      then have "(b + 1 + length (pieces bs 0 (length rest))) * bs \<le> BlocksCount sb * bs"
        by (rule mult_le_mono1)
      then have "i < dev_size f"
        using i(2) prems(4) by linarith
      then show "dev_byte f i = dev_byte f1 i"
        using i(1) full n(5) by (simp add: f1_def dev_store_def P_def)
    qed
    have "stores (entry_writes fsOffset bs (staged f1 (nat fsOffset) bs (b + 1) (pieces bs 0 (length rest)) rest)) f1
        = dev_store f1 (nat fsOffset + (b + 1) * bs + 0) rest"
      by (rule less.hyps [of rest 0 "b + 1" f1, folded bs_def]) (use len prems size room in auto)
    moreover have "nat fsOffset + (b + 1) * bs + 0 = P + off + length d"
      using full n by (simp add: P_def)
    ultimately have "stores (entry_writes fsOffset bs (staged f1 (nat fsOffset) bs (b + 1) (pieces bs 0 (length rest)) rest)) f1 = dev_store f (P + off) (d @ rest)"
      using store_append [OF n(4) len(2), of f "P + off"] by (simp add: f1_def)
    then show ?thesis
      using ps off first same len(3) by (simp add: bs_def [symmetric] P_def [symmetric] entry_writes_def f1_def d_def rest_def)
  qed
qed

lemma pieces_bound: "off < bs \<Longrightarrow> \<forall>(o', n)\<in>set (pieces bs off len). o' + n \<le> bs"
  by (induction bs off len rule: pieces.induct) (subst pieces.simps, auto split: if_splits)

lemma staged_in:
  assumes g: "geom_ok fsOffset sb"
  shows "b + length ps \<le> BlocksCount sb \<Longrightarrow> entries_in fsOffset (BlockSize sb) sb (staged f base (BlockSize sb) b ps data)"
proof (induction f base "BlockSize sb" b ps data rule: staged.induct)
  case (2 f base b off n ps data)
  then have "b < BlocksCount sb" "entries_in fsOffset (BlockSize sb) sb (staged f base (BlockSize sb) (b + 1) ps (drop n data))"
    by simp_all
  moreover have "0 \<le> fsOffset"
    using g by (simp add: geom_ok_def)
  ultimately show ?case
    using geom_off(2) [OF g] by (simp add: entries_in_def entry_off_def)
qed (simp add: entries_in_def)

text \<open>C35: a write through the journal is the write.  When a journal with nothing pending is enabled,
  \<open>applyOrJournalWrite\<close> of a range inside the filesystem cuts it into blocks, merges each piece into
  the block it belongs to, stages and commits them; it returns, it succeeds, the device it leaves is
  exactly the one the direct write of the range leaves, the journal has grown by one complete
  record and is again ready for the next one.\<close>

theorem journal_write_is_write:
  assumes g: "geom_ok fsOffset sb" and dev: "nat fsOffset + BlocksCount sb * BlockSize sb \<le> dev_size (js_dev s)" "dev_writable (js_dev s)"
    and j: "journal_ready s" "j_fsOffset (js_journal s) = fsOffset" "j_blockSize (js_journal s) = BlockSize sb" "j_sb (js_journal s) = sb"
    and range: "fsOffset \<le> startAbs" "startAbs - fsOffset + int (length data) \<le> int (BlocksCount sb * BlockSize sb)" "data \<noteq> []"
  shows "\<exists>s' es. applyOrJournalWrite fsOffset sb startAbs data s = Some (Inr (), s')
    \<and> writeAtWithTrace fsOffset sb startAbs data (js_dev s) = (Inr (length data), js_dev s')
    \<and> j_js (js_journal s') = j_js (js_journal s) @ tx_record (j_nextSeq (js_journal s)) es
    \<and> journal_ready s'"
proof -
  define bs where "bs = BlockSize sb"
  define r where "r = nat (startAbs - fsOffset)"
  define ps where "ps = pieces bs (r mod bs) (length data)"
  define es where "es = staged (js_dev s) (nat fsOffset) bs (r div bs) ps data"
  have bs: "0 < bs" "0 \<le> fsOffset" "fsOffset + int (BlocksCount sb * BlockSize sb) < 9223372036854775807"
    using g by (simp_all add: geom_ok_def bs_def)
  have rel: "i64 (startAbs - fsOffset) = int r"
    using range bs(2,3) by (simp add: r_def)
  have fit: "r div bs * bs + r mod bs + length data \<le> BlocksCount sb * bs"
    using range(1,2) unfolding div_mult_mod_eq r_def bs_def by linarith
  have n: "r div bs + length ps \<le> BlocksCount sb"
    unfolding ps_def by (rule pieces_count [OF _ fit]) (use bs in simp)
  have "stage_blocks (js_dev s) fsOffset sb (r div bs) ps data StartTx = (Inr (), StartTx\<lparr>tx_entries := tx_entries StartTx @ es\<rparr>)"
    unfolding es_def bs_def
    by (rule stage_blocks_staged [OF g dev(1)]) (use n pieces_bound [of "r mod bs" bs] bs in \<open>simp_all add: StartTx_def ps_def bs_def\<close>)
  then have st: "stage_blocks (js_dev s) fsOffset sb (r div bs) ps data StartTx = (Inr (), \<lparr>tx_entries = es, tx_committed = False\<rparr>)"
    by (simp add: StartTx_def)
  have "entries_in fsOffset bs sb es"
    unfolding es_def bs_def by (rule staged_in [OF g]) (use n in \<open>simp add: bs_def\<close>)
  then have ein: "entries_in (j_fsOffset (js_journal s)) (j_blockSize (js_journal s)) (j_sb (js_journal s)) es"
    by (simp add: j bs_def)
  obtain tx' s' where c: "Commit \<lparr>tx_entries = es, tx_committed = False\<rparr> s = Some (Inr (), tx', s')" "journal_ready s'"
    "j_js (js_journal s') = j_js (js_journal s) @ tx_record (j_nextSeq (js_journal s)) es"
    "js_dev s' = stores (entry_writes fsOffset bs es) (js_dev s)"
    by (rule Commit_ready [OF j(1) ein dev(2)]) (rule that, simp_all add: j(2-4) bs_def)
  have "stores (entry_writes fsOffset bs es) (js_dev s) = dev_store (js_dev s) (nat fsOffset + r div bs * bs + r mod bs) data"
    unfolding es_def ps_def bs_def by (rule stores_staged [OF g]) (use range(3) bs fit dev(1) in \<open>simp_all add: bs_def\<close>)
  moreover have "nat fsOffset + r div bs * bs + r mod bs = nat startAbs"
    using range(1) bs(2) by (simp add: r_def nat_diff_distrib)
  ultimately have "writeAtWithTrace fsOffset sb startAbs data (js_dev s) = (Inr (length data), js_dev s')"
    using c(4) range(1) bs(2) dev(2) by (simp add: writeAtWithTrace_eq WriteAt_Inr_unless)
  moreover have "applyOrJournalWrite fsOffset sb startAbs data s = Some (Inr (), s')"
    using st c(1) j(1) bs(1) rel by (simp add: applyOrJournalWrite_def journal_ready_def Let_def bs_def ps_def)
  ultimately show ?thesis
    using c(2,3) by blast
qed

text \<open>An eight-byte write across the boundary of two blocks of the sample image.\<close>

theorem journal_write_is_write_witness:
  "\<exists>s'. applyOrJournalWrite 0 mini_sb 60 (replicate 8 7) \<lparr>js_journal = OpenJournal [] 0 64 mini_sb, js_dev = mini_dev\<rparr> = Some (Inr (), s')
    \<and> writeAtWithTrace 0 mini_sb 60 (replicate 8 7) mini_dev = (Inr 8, js_dev s') \<and> journal_ready s'"
proof -
  have "geom_ok 0 mini_sb"
    by (simp add: geom_ok_def)
  moreover have "OpenJournal [] 0 64 mini_sb = \<lparr>j_js = [], j_fsOffset = 0, j_blockSize = 64, j_sb = mini_sb, j_enabled = True,
      j_nextSeq = 1, j_applySeq = 1, j_appendOff = 0\<rparr>"
    using init_records [of "[]" 0] by (simp add: OpenJournal_def initNextSeq_def records_def w64_def)
  ultimately show ?thesis
    using journal_write_is_write [of 0 mini_sb "\<lparr>js_journal = OpenJournal [] 0 64 mini_sb, js_dev = mini_dev\<rparr>" 60 "replicate 8 7"]
    by (auto simp: journal_ready_def)
qed

end
