(* ===== verification/DirBlock.thy ===== *)
theory DirBlock
  imports Inline
begin

text \<open>
  Directory blocks: \<open>parseDirBlock\<close>, \<open>tryInsertDirEntry\<close>, \<open>writeDirEntry\<close> and \<open>updateDirBlockCsum\<close>
  of \<open>dir.go\<close>, \<open>zeroEntryInBlock\<close> of \<open>delete.go\<close>, the block loop of \<open>updateDotDot\<close> of
  \<open>rename.go\<close>.  A block is a chain of records \<open>(inode, rec_len, name_len, file_type, name)\<close>;
  the loops walk it by \<open>rec_len\<close>.  Go strings are byte lists.
\<close>

section \<open>Definitions\<close>

type_synonym gostring = "byte list"

record DirEntry =
  de_Inode :: u32
  de_Name :: gostring
  de_FileType :: u8

definition minDirentSize :: "nat \<Rightarrow> nat" where
  "minDirentSize nameLen = (8 + nameLen + 3) div 4 * 4"

abbreviation (input) rec_ino :: "byte list \<Rightarrow> nat \<Rightarrow> u32" where "rec_ino buf off \<equiv> u32_at buf off"
abbreviation (input) rec_len :: "byte list \<Rightarrow> nat \<Rightarrow> u16" where "rec_len buf off \<equiv> u16_at buf (off + 4)"
abbreviation (input) rec_nameLen :: "byte list \<Rightarrow> nat \<Rightarrow> u8" where "rec_nameLen buf off \<equiv> u8_at buf (off + 6)"
abbreviation (input) rec_type :: "byte list \<Rightarrow> nat \<Rightarrow> u8" where "rec_type buf off \<equiv> u8_at buf (off + 7)"
abbreviation (input) rec_name :: "byte list \<Rightarrow> nat \<Rightarrow> gostring" where
  "rec_name buf off \<equiv> bytes_at buf (off + 8) (u8_at buf (off + 6))"

definition rec_live :: "'v safeio \<Rightarrow> byte list \<Rightarrow> nat \<Rightarrow> bool" where
  "rec_live S buf off \<longleftrightarrow>
     rec_ino buf off \<noteq> 0 \<and> rec_type buf off \<noteq> FtDirTail \<and> rec_nameLen buf off > 0
   \<and> rec_nameLen buf off \<le> rec_len buf off - 8
   \<and> CheckBounds S (int (off + 8)) (int (rec_nameLen buf off)) (int (length buf))"

definition rec_entry :: "byte list \<Rightarrow> nat \<Rightarrow> DirEntry" where
  "rec_entry buf off =
    \<lparr>de_Inode = rec_ino buf off, de_Name = rec_name buf off, de_FileType = rec_type buf off\<rparr>"

function parse_from :: "'v safeio \<Rightarrow> byte list \<Rightarrow> nat \<Rightarrow> DirEntry list" where
  "parse_from S buf off =
    (if off + 8 > length buf then []
     else if rec_len buf off < 8 \<or> off + rec_len buf off > length buf then []
     else (if rec_live S buf off then [rec_entry buf off] else [])
            @ parse_from S buf (off + rec_len buf off))"
  by pat_completeness auto
termination
  by (relation "measure (\<lambda>(S, buf, off). length buf - off)") auto

definition parseDirBlock :: "'v safeio \<Rightarrow> byte list \<Rightarrow> DirEntry list" where
  "parseDirBlock S buf = parse_from S buf 0"

definition writeDirEntry :: "byte list \<Rightarrow> nat \<Rightarrow> u32 \<Rightarrow> u16 \<Rightarrow> gostring \<Rightarrow> u8 \<Rightarrow> byte list" where
  "writeDirEntry buf off ino recLen name fileType =
    put_bytes (put_u8 (put_u8 (put_u16 (put_u32 buf off ino) (off + 4) recLen) (off + 6) (length name mod 256))
      (off + 7) fileType) (off + 8) (take (length buf - (off + 8)) name)"

function insert_from :: "byte list \<Rightarrow> nat \<Rightarrow> u32 \<Rightarrow> gostring \<Rightarrow> u8 \<Rightarrow> nat \<Rightarrow> byte list option" where
  "insert_from buf off childIno name fileType needed =
    (if off + 8 > length buf then None
     else if rec_len buf off < 8 \<or> off + rec_len buf off > length buf then None
     else if rec_type buf off = FtDirTail then None
     else if rec_ino buf off = 0 then
       (if rec_len buf off \<ge> needed
        then Some (writeDirEntry buf off childIno (rec_len buf off) name fileType)
        else insert_from buf (off + rec_len buf off) childIno name fileType needed)
     else
       let minLen = minDirentSize (rec_nameLen buf off)
       in if minLen > rec_len buf off then None
          else
            let slack = rec_len buf off - minLen;
                newOff = off + minLen
            in if slack \<ge> needed then
                 (if newOff + 8 > length buf \<or> newOff + slack > length buf \<or> newOff + 8 + length name > length buf
                  then None
                  else Some (writeDirEntry (put_u16 buf (off + 4) (w16 minLen)) newOff childIno (w16 slack) name fileType))
               else insert_from buf (off + rec_len buf off) childIno name fileType needed)"
  by pat_completeness auto
termination
  by (relation "measure (\<lambda>(buf, off, _). length buf - off)") auto

definition tryInsertDirEntry :: "byte list \<Rightarrow> u32 \<Rightarrow> gostring \<Rightarrow> u8 \<Rightarrow> nat \<Rightarrow> byte list option" where
  "tryInsertDirEntry buf = insert_from buf 0"

text \<open>
  \<open>zeroEntryInBlock\<close>: the changed block, \<open>None\<close> when no record has the name.  The slice of the
  name is taken without looking at the end of the block, which panics when it lies beyond.
\<close>

function zero_from :: "byte list \<Rightarrow> nat \<Rightarrow> gostring \<Rightarrow> byte list option result" where
  "zero_from buf off name =
    (if off + 8 > length buf then Inr None
     else if rec_len buf off < 8 then Inr None
     else if rec_type buf off = FtDirTail then Inr None
     else if rec_nameLen buf off > 0 \<and> off + 8 + rec_nameLen buf off > length buf then Inl Panic
     else if rec_nameLen buf off > 0 \<and> rec_name buf off = name then Inr (Some (put_u32 buf off 0))
     else zero_from buf (off + rec_len buf off) name)"
  by pat_completeness auto
termination
  by (relation "measure (\<lambda>(buf, off, _). length buf - off)") auto

definition zeroEntryInBlock :: "byte list \<Rightarrow> gostring \<Rightarrow> byte list option result" where
  "zeroEntryInBlock buf = zero_from buf 0"

text \<open>The loop of \<open>updateDotDot\<close> over one block: the block with the new parent, if it has a \<open>..\<close> record.\<close>

function dotdot_from :: "byte list \<Rightarrow> nat \<Rightarrow> u32 \<Rightarrow> byte list option" where
  "dotdot_from buf off newParentIno =
    (if off + 8 > length buf then None
     else if rec_len buf off < 8 then None
     else if rec_type buf off = FtDirTail then None
     else if rec_nameLen buf off = 2 \<and> off + 10 \<le> length buf \<and> u8_at buf (off + 8) = 46 \<and> u8_at buf (off + 9) = 46
     then Some (put_u32 buf off newParentIno)
     else dotdot_from buf (off + rec_len buf off) newParentIno)"
  by pat_completeness auto
termination
  by (relation "measure (\<lambda>(buf, off, _). length buf - off)") auto

declare parse_from.simps [simp del] insert_from.simps [simp del] zero_from.simps [simp del] dotdot_from.simps [simp del]

definition updateDirBlockCsum :: "byte list \<Rightarrow> superblock \<Rightarrow> inode \<Rightarrow> byte list" where
  "updateDirBlockCsum buf sb dirIno =
    (if \<not> has_flag (FeatureROCompat sb) FeatROCompatMetadataCsum then buf
     else
       let t = length buf - 12;
           b1 = put_u32 buf t 0;
           b2 = put_u16 b1 (t + 4) 12;
           b3 = put_u8 b2 (t + 6) 0;
           b4 = put_u8 b3 (t + 7) FtDirTail;
           b5 = put_u32 b4 (t + 8) 0;
           csum0 = crc32c (csumSeed sb) (le_bytes 4 (in_num dirIno));
           csum1 = crc32c csum0 (le_bytes 4 (generation dirIno));
           csum = crc32c csum1 (take (t + 8) b5)
       in put_u32 b5 (t + 8) csum)"

section \<open>What a well-formed block is\<close>

text \<open>
  The records tile the block exactly, or up to the room of the tail in a block that has no tail
  yet; every name fits in its record, and only the last record may be the checksum tail.
\<close>

function block_ok :: "byte list \<Rightarrow> nat \<Rightarrow> bool" where
  "block_ok buf off =
    (if off + 8 > length buf then off = length buf
     else if rec_len buf off < 8 then off + 12 = length buf
     else if off + rec_len buf off > length buf then False
     else (if rec_type buf off = FtDirTail then off + rec_len buf off = length buf
           else 8 + rec_nameLen buf off \<le> rec_len buf off)
       \<and> block_ok buf (off + rec_len buf off))"
  by pat_completeness auto
termination
  by (relation "measure (\<lambda>(buf, off). length buf - off)") auto

text \<open>The inode number of the first record that carries the name, which is 0 when the record is free.\<close>

function first_record :: "byte list \<Rightarrow> nat \<Rightarrow> gostring \<Rightarrow> u32 option" where
  "first_record buf off name =
    (if off + 8 > length buf then None
     else if rec_len buf off < 8 \<or> off + rec_len buf off > length buf \<or> rec_type buf off = FtDirTail then None
     else if rec_nameLen buf off > 0 \<and> rec_name buf off = name then Some (rec_ino buf off)
     else first_record buf (off + rec_len buf off) name)"
  by pat_completeness auto
termination
  by (relation "measure (\<lambda>(buf, off, _). length buf - off)") auto

declare block_ok.simps [simp del] first_record.simps [simp del]

section \<open>Records\<close>

lemma drop_fields:
  assumes "drop off buf = drop off buf'"
  shows "u8_at buf (off + k) = u8_at buf' (off + k)" "u16_at buf (off + k) = u16_at buf' (off + k)"
    "u32_at buf (off + k) = u32_at buf' (off + k)" "bytes_at buf (off + k) n = bytes_at buf' (off + k) n"
  using assms by (simp_all add: field_of_drop flip: bytes_at_drop)

lemma drop_more: "drop off buf = drop off buf' \<Longrightarrow> off \<le> off' \<Longrightarrow> drop off' buf = drop off' buf'"
  by (metis drop_drop le_add_diff_inverse2)

text \<open>What a record says depends on the bytes from its offset on, and so does the rest of the chain.\<close>

lemma parse_from_cong:
  assumes "length buf = length buf'" "drop off buf = drop off buf'"
  shows "parse_from S buf off = parse_from S buf' off"
  using assms
proof (induction S buf off arbitrary: buf' rule: parse_from.induct)
  case (1 S buf off)
  have f: "u32_at buf off = u32_at buf' off" "u16_at buf (off + 4) = u16_at buf' (off + 4)"
    "u8_at buf (off + 6) = u8_at buf' (off + 6)" "u8_at buf (off + 7) = u8_at buf' (off + 7)"
    "bytes_at buf (off + 8) n = bytes_at buf' (off + 8) n" for n
    using drop_fields [OF 1(3), of 0] drop_fields [OF 1(3)] by simp_all
  have "rec_live S buf off = rec_live S buf' off" "rec_entry buf off = rec_entry buf' off"
    by (simp_all add: rec_live_def rec_entry_def f 1(2))
  moreover have "parse_from S buf (off + rec_len buf off) = parse_from S buf' (off + rec_len buf off)"
    if "\<not> off + 8 > length buf" "\<not> (rec_len buf off < 8 \<or> off + rec_len buf off > length buf)"
    using 1(1) [OF that 1(2)] drop_more [OF 1(3)] by simp
  ultimately show ?case
    by (subst (1 2) parse_from.simps) (auto simp: 1(2) f)
qed

lemma parse_from_step:
  assumes "off + 8 \<le> length buf" "8 \<le> rec_len buf off" "off + rec_len buf off \<le> length buf"
  shows "parse_from S buf off
    = (if rec_live S buf off then [rec_entry buf off] else []) @ parse_from S buf (off + rec_len buf off)"
  using assms by (subst parse_from.simps) simp

lemma minDirentSize_bounds: "8 + n \<le> minDirentSize n" "minDirentSize n \<le> n + 11"
  unfolding minDirentSize_def by presburger+

lemma writeDirEntry_fields:
  assumes fit: "off + 8 + length name \<le> length buf"
    and rng: "ino < 4294967296" "recLen < 65536" "fileType < 256" "length name < 256"
  defines "w \<equiv> writeDirEntry buf off ino recLen name fileType"
  shows "length w = length buf" "u32_at w off = ino" "u16_at w (off + 4) = recLen"
    "u8_at w (off + 6) = length name" "u8_at w (off + 7) = fileType" "bytes_at w (off + 8) (length name) = name"
    "o' + n \<le> off \<or> off + 8 + length name \<le> o' \<Longrightarrow> bytes_at w o' n = bytes_at buf o' n"
proof -
  define b where "b = put_u8 (put_u8 (put_u16 (put_u32 buf off ino) (off + 4) recLen) (off + 6) (length name mod 256))
      (off + 7) fileType"
  have w: "w = put_bytes b (off + 8) name"
    using fit by (simp add: w_def writeDirEntry_def b_def)
  have lb: "length b = length buf"
    using fit by (simp add: b_def)
  have bf: "u32_at b off = ino" "u16_at b (off + 4) = recLen" "u8_at b (off + 6) = length name" "u8_at b (off + 7) = fileType"
    using fit rng by (simp_all add: b_def codec_simps)
  have keep: "bytes_at w o' n = bytes_at b o' n" if "o' + n \<le> off + 8 \<or> off + 8 + length name \<le> o'" for o' n
    unfolding w using that fit lb by (intro bytes_at_put_bytes_other) simp_all
  show "length w = length buf"
    using fit lb by (simp add: w)
  show "u32_at w off = ino" "u16_at w (off + 4) = recLen" "u8_at w (off + 6) = length name" "u8_at w (off + 7) = fileType"
    using bf by (simp_all add: u32_at_def u16_at_def u8_at_def keep)
  show "bytes_at w (off + 8) (length name) = name"
    unfolding w using fit lb by (intro bytes_at_put_bytes_same) simp
  show "bytes_at w o' n = bytes_at buf o' n" if "o' + n \<le> off \<or> off + 8 + length name \<le> o'"
  proof -
    have "bytes_at b o' n = bytes_at buf o' n"
      unfolding b_def using that fit by (auto simp: bytes_at_put_other)
    with that show ?thesis
      using keep [of o' n] by auto
  qed
qed

lemma drop_eq_bytes: "drop x buf = bytes_at buf x (length buf - x)"
  by (simp add: bytes_at_def)

text \<open>A freshly written record is the entry that was asked for, and the chain goes on after it.\<close>

lemma parse_written:
  assumes S: "checkBounds_ok S" and name: "0 < length name" "length name < 256"
    and ino: "ino \<noteq> 0" "ino < 4294967296" and ft: "fileType < 256" "fileType \<noteq> FtDirTail"
    and rl: "8 + length name \<le> recLen" "recLen < 65536" "off + recLen \<le> length buf"
  shows "parse_from S (writeDirEntry buf off ino recLen name fileType) off
    = \<lparr>de_Inode = ino, de_Name = name, de_FileType = fileType\<rparr> # parse_from S buf (off + recLen)"
proof -
  have fit: "off + 8 + length name \<le> length buf"
    using rl by linarith
  define w where "w = writeDirEntry buf off ino recLen name fileType"
  note f = writeDirEntry_fields [OF fit ino(2) rl(2) ft(1) name(2), folded w_def]
  have "rec_live S w off"
    using S fit name ino(1) ft(2) rl(1) by (simp add: rec_live_def f checkBounds_ok_def)
  moreover have "rec_entry w off = \<lparr>de_Inode = ino, de_Name = name, de_FileType = fileType\<rparr>"
    by (simp add: rec_entry_def f)
  moreover have "parse_from S w (off + recLen) = parse_from S buf (off + recLen)"
    using rl(1) by (intro parse_from_cong) (simp_all add: f drop_eq_bytes)
  ultimately show ?thesis
    using rl parse_from_step [of off w S] by (simp add: f w_def [symmetric])
qed

text \<open>
  The ways in which \<open>tryInsertDirEntry\<close> finds room: a free record, the slack of a live one, or
  room in a later record.
\<close>

lemma insert_from_cases:
  fixes buf off
  assumes "insert_from buf off ino name fileType needed = Some buf'"
  defines "rl \<equiv> rec_len buf off"
  defines "ml \<equiv> minDirentSize (rec_nameLen buf off)"
  defines "W \<equiv> writeDirEntry (put_u16 buf (off + 4) (w16 ml)) (off + ml) ino (w16 (rl - ml)) name fileType"
  shows "off + 8 \<le> length buf" "8 \<le> rl" "off + rl \<le> length buf" "rec_type buf off \<noteq> FtDirTail"
    and "rec_ino buf off = 0 \<and> needed \<le> rl \<and> buf' = writeDirEntry buf off ino rl name fileType
      \<or> insert_from buf (off + rl) ino name fileType needed = Some buf'
      \<or> rec_ino buf off \<noteq> 0 \<and> ml \<le> rl \<and> needed \<le> rl - ml \<and> buf' = W"
proof -
  note unf = assms(1) [unfolded insert_from.simps [of buf off] Let_def, folded rl_def ml_def, folded W_def]
  show c: "off + 8 \<le> length buf" "8 \<le> rl" "off + rl \<le> length buf" "rec_type buf off \<noteq> FtDirTail"
    using unf by (simp_all split: if_splits)
  show "rec_ino buf off = 0 \<and> needed \<le> rl \<and> buf' = writeDirEntry buf off ino rl name fileType
      \<or> insert_from buf (off + rl) ino name fileType needed = Some buf'
      \<or> rec_ino buf off \<noteq> 0 \<and> ml \<le> rl \<and> needed \<le> rl - ml \<and> buf' = W"
  proof (cases "rec_ino buf off = 0")
    case True
    then show ?thesis
      using unf c by (cases "needed \<le> rl") simp_all
  next
    case False
    then have "ml \<le> rl"
      using unf c by (cases "ml \<le> rl") simp_all
    with False unf c have u: "(if needed \<le> rl - ml
      then if length buf < off + ml + 8 \<or> length buf < off + ml + (rl - ml) \<or> length buf < off + ml + 8 + length name
           then None else Some W
      else insert_from buf (off + rl) ino name fileType needed) = Some buf'"
      by (simp only: not_less [symmetric] if_False simp_thms)
    show ?thesis
    proof (cases "needed \<le> rl - ml")
      case True
      with u have "buf' = W"
        by (simp only: if_True option.inject option.distinct split: if_splits)
      with True False \<open>ml \<le> rl\<close> show ?thesis
        by blast
    next
      case F: False
      with u show ?thesis
        by (simp only: if_False simp_thms)
    qed
  qed
qed

section \<open>Well-formed blocks\<close>

lemma block_ok_cong:
  assumes "length buf = length buf'" "drop off buf = drop off buf'"
  shows "block_ok buf off = block_ok buf' off"
  using assms
proof (induction buf off arbitrary: buf' rule: block_ok.induct)
  case (1 buf off)
  note f = drop_fields(1,2) [OF 1(3)]
  have "block_ok buf (off + rec_len buf off) = block_ok buf' (off + rec_len buf off)"
    if "\<not> off + 8 > length buf" "\<not> rec_len buf off < 8" "\<not> off + rec_len buf off > length buf"
    using 1(1) [OF that 1(2)] drop_more [OF 1(3)] by simp
  then show ?case
    by (subst (1 2) block_ok.simps) (auto simp: 1(2) f)
qed

lemma block_ok_step:
  assumes "off + 8 \<le> length buf" "8 \<le> rec_len buf off"
  shows "block_ok buf off \<longleftrightarrow> 8 \<le> rec_len buf off \<and> off + rec_len buf off \<le> length buf
    \<and> (if rec_type buf off = FtDirTail then off + rec_len buf off = length buf
       else 8 + rec_nameLen buf off \<le> rec_len buf off)
    \<and> block_ok buf (off + rec_len buf off)"
  using assms by (subst block_ok.simps) auto

lemma block_ok_end: "block_ok buf (length buf)"
  by (simp add: block_ok.simps)

lemma block_ok_kept:
  assumes len: "length buf' = length buf"
    and keep: "\<And>o' n. o' + n \<le> off + rec_len buf off \<Longrightarrow> bytes_at buf' o' n = bytes_at buf o' n"
    and ok: "block_ok buf off" "off + 8 \<le> length buf" "8 \<le> rec_len buf off" and rest: "block_ok buf' (off + rec_len buf off)"
  shows "block_ok buf' off"
proof -
  note c = ok(1) [unfolded block_ok_step [OF ok(2,3)]]
  have fld: "rec_len buf' off = rec_len buf off"
    "u8_at buf' (off + 6) = u8_at buf (off + 6)" "u8_at buf' (off + 7) = u8_at buf (off + 7)"
    using c keep by (simp_all add: u16_at_def u8_at_def)
  show ?thesis
    using ok(2,3) c rest by (subst block_ok_step) (simp_all add: fld len)
qed

lemma block_ok_written:
  assumes fit: "8 + length name \<le> recLen" "off + recLen \<le> length buf"
    and rng: "ino < 4294967296" "recLen < 65536" "fileType < 256" "length name < 256" "fileType \<noteq> FtDirTail"
    and rest: "block_ok buf (off + recLen)"
  shows "block_ok (writeDirEntry buf off ino recLen name fileType) off"
proof -
  have fit': "off + 8 + length name \<le> length buf"
    using fit by linarith
  note f = writeDirEntry_fields [OF fit' rng(1-4)]
  have "block_ok (writeDirEntry buf off ino recLen name fileType) (off + recLen) = block_ok buf (off + recLen)"
    using fit by (intro block_ok_cong) (simp_all add: f drop_eq_bytes)
  then show ?thesis
    using fit fit' rng(5) rest by (subst block_ok_step) (simp_all add: f)
qed

section \<open>Inserting a record\<close>

text \<open>Splitting the slack off a live record keeps its entry and adds the new one after it.\<close>

lemma parse_split:
  fixes buf off
  assumes S: "checkBounds_ok S" and name: "0 < length name" "length name < 256"
    and ino: "ino \<noteq> 0" "ino < 4294967296" and ft: "fileType < 256" "fileType \<noteq> FtDirTail"
  defines "rl \<equiv> rec_len buf off"
  defines "ml \<equiv> minDirentSize (rec_nameLen buf off)"
  defines "buf' \<equiv> writeDirEntry (put_u16 buf (off + 4) (w16 ml)) (off + ml) ino (w16 (rl - ml)) name fileType"
  assumes c: "off + 8 \<le> length buf" "8 \<le> rl" "off + rl \<le> length buf"
    and room: "ml \<le> rl" "8 + length name \<le> rl - ml"
  shows "length buf' = length buf" "o' + n \<le> off \<Longrightarrow> bytes_at buf' o' n = bytes_at buf o' n"
    "rec_len buf' off = ml" "rec_nameLen buf' off = rec_nameLen buf off" "rec_type buf' off = rec_type buf off"
    "parse_from S buf' off = (if rec_live S buf off then [rec_entry buf off] else [])
       @ \<lparr>de_Inode = ino, de_Name = name, de_FileType = fileType\<rparr> # parse_from S buf (off + rl)"
    "block_ok buf (off + rl) \<Longrightarrow> block_ok buf' (off + ml)"
proof -
  define b1 where "b1 = put_u16 buf (off + 4) ml"
  define nl where "nl = rec_nameLen buf off"
  have rl16: "rl < 65536"
    by (simp add: rl_def)
  have ml: "8 + nl \<le> ml" "w16 ml = ml" "w16 (rl - ml) = rl - ml" "rl - ml < 65536"
    using minDirentSize_bounds(1) [of nl] room(1) rl16 by (simp_all add: ml_def nl_def)
  have b1: "length b1 = length buf"
    using c by (simp add: b1_def)
  have buf': "buf' = writeDirEntry b1 (off + ml) ino (rl - ml) name fileType"
    by (simp only: ml b1_def buf'_def)
  have fit: "off + ml + 8 + length name \<le> length b1"
    using room c b1 by linarith
  note f = writeDirEntry_fields [OF fit ino(2) ml(4) ft(1) name(2), folded buf']
  have b1k: "bytes_at b1 o' n = bytes_at buf o' n" if "o' + n \<le> off + 4 \<or> off + 6 \<le> o'" for o' n
    unfolding b1_def using that c by (auto simp: bytes_at_put_other)
  have keep: "bytes_at buf' o' n = bytes_at buf o' n" if "o' + n \<le> off + 4 \<or> off + 6 \<le> o'" "o' + n \<le> off + ml" for o' n
    using f(7) [of o' n] b1k [of o' n] that by auto
  have "u16_at b1 (off + 4) = ml"
    using c room(1) rl16 by (simp add: b1_def)
  moreover have "bytes_at buf' (off + 4) 2 = bytes_at b1 (off + 4) 2"
    using ml(1) by (intro f(7)) simp
  ultimately have fld: "u32_at buf' off = u32_at buf off" "rec_len buf' off = ml" "u8_at buf' (off + 6) = nl"
    "u8_at buf' (off + 7) = u8_at buf (off + 7)" "bytes_at buf' (off + 8) nl = bytes_at buf (off + 8) nl"
    using keep ml(1) by (simp_all add: u32_at_def u16_at_def u8_at_def nl_def)
  show len': "length buf' = length buf"
    using f(1) b1 by simp
  have "nl \<le> ml - 8" "nl \<le> rl - 8"
    using ml(1) room(1) by linarith+
  then have live: "rec_live S buf' off = rec_live S buf off"
    by (simp add: rec_live_def fld len' rl_def [symmetric] nl_def [symmetric])
  have ent: "rec_entry buf' off = rec_entry buf off"
    by (simp add: rec_entry_def fld nl_def [symmetric])
  have "off + ml + (rl - ml) \<le> length b1"
    using c b1 room(1) by simp
  then have "parse_from S buf' (off + ml) = \<lparr>de_Inode = ino, de_Name = name, de_FileType = fileType\<rparr> # parse_from S b1 (off + ml + (rl - ml))"
    unfolding buf' by (intro parse_written [OF S name ino ft]) (use room(2) ml(4) in linarith)+
  moreover have "parse_from S b1 (off + rl) = parse_from S buf (off + rl)"
    using c by (intro parse_from_cong) (simp_all add: b1 drop_eq_bytes b1k)
  ultimately have "parse_from S buf' (off + ml) = \<lparr>de_Inode = ino, de_Name = name, de_FileType = fileType\<rparr> # parse_from S buf (off + rl)"
    using room(1) by simp
  moreover have "parse_from S buf' off = (if rec_live S buf' off then [rec_entry buf' off] else []) @ parse_from S buf' (off + ml)"
    using parse_from_step [of off buf' S] c len' fld(2) ml(1) room(1) by simp
  ultimately show "parse_from S buf' off = (if rec_live S buf off then [rec_entry buf off] else [])
       @ \<lparr>de_Inode = ino, de_Name = name, de_FileType = fileType\<rparr> # parse_from S buf (off + rl)"
    unfolding live ent by simp
  show "o' + n \<le> off \<Longrightarrow> bytes_at buf' o' n = bytes_at buf o' n"
    using keep by simp
  show "rec_len buf' off = ml" "rec_nameLen buf' off = rec_nameLen buf off" "rec_type buf' off = rec_type buf off"
    using fld by (simp_all add: nl_def)
  show "block_ok buf' (off + ml)" if "block_ok buf (off + rl)"
  proof -
    have "block_ok b1 (off + rl)"
      using that c block_ok_cong [of b1 buf "off + rl"] by (simp add: b1 drop_eq_bytes b1k)
    then show ?thesis
      unfolding buf' using room c b1 ino ft name ml(4) by (intro block_ok_written) simp_all
  qed
qed

text \<open>A record whose bytes are kept reads the same, whatever follows it.\<close>

lemma parse_from_kept:
  assumes len: "length buf' = length buf"
    and keep: "\<And>o' n. o' + n \<le> off + rec_len buf off \<Longrightarrow> bytes_at buf' o' n = bytes_at buf o' n"
    and c: "off + 8 \<le> length buf" "8 \<le> rec_len buf off" "off + rec_len buf off \<le> length buf"
  shows "parse_from S buf' off = (if rec_live S buf off then [rec_entry buf off] else [])
    @ parse_from S buf' (off + rec_len buf off)"
proof -
  have fld: "u32_at buf' off = u32_at buf off" "rec_len buf' off = rec_len buf off"
    "u8_at buf' (off + 6) = u8_at buf (off + 6)" "u8_at buf' (off + 7) = u8_at buf (off + 7)"
    using c keep by (simp_all add: u32_at_def u16_at_def u8_at_def)
  have live: "rec_live S buf' off = rec_live S buf off"
    by (simp add: rec_live_def fld len)
  have ent: "rec_entry buf' off = rec_entry buf off" if "rec_live S buf off"
  proof -
    have "off + 8 + rec_nameLen buf off \<le> off + rec_len buf off"
      using that c(2) unfolding rec_live_def by linarith
    then show ?thesis
      using keep by (simp add: rec_entry_def fld)
  qed
  show ?thesis
    using parse_from_step [of off buf' S] c len fld(2) ent by (simp add: live)
qed

lemma insert_from_parse:
  assumes S: "checkBounds_ok S" and name: "0 < length name" "length name < 256"
    and ino: "ino \<noteq> 0" "ino < 4294967296" and ft: "fileType < 256" "fileType \<noteq> FtDirTail"
    and needed: "needed = minDirentSize (length name)"
  shows "insert_from buf off ino name fileType needed = Some buf' \<Longrightarrow>
    length buf' = length buf \<and> (\<forall>o' n. o' + n \<le> off \<longrightarrow> bytes_at buf' o' n = bytes_at buf o' n)
    \<and> (\<exists>pre post. parse_from S buf off = pre @ post
        \<and> parse_from S buf' off = pre @ \<lparr>de_Inode = ino, de_Name = name, de_FileType = fileType\<rparr> # post)
    \<and> (block_ok buf off \<longrightarrow> block_ok buf' off)"
proof (induction "length buf - off" arbitrary: off rule: less_induct)
  case less
  define E where "E = \<lparr>de_Inode = ino, de_Name = name, de_FileType = fileType\<rparr>"
  define rl where "rl = rec_len buf off"
  note c = insert_from_cases(1-3) [OF less.prems, folded rl_def]
  note pb = parse_from_step [of off buf S, folded rl_def, OF c]
  have rl16: "rl < 65536"
    by (simp add: rl_def)
  have nd: "8 + length name \<le> needed"
    unfolding needed by (rule minDirentSize_bounds)
  from insert_from_cases(5) [OF less.prems, folded rl_def]
  consider (reuse) "rec_ino buf off = 0" "needed \<le> rl" "buf' = writeDirEntry buf off ino rl name fileType"
    | (next_rec) "insert_from buf (off + rl) ino name fileType needed = Some buf'"
    | (split) "minDirentSize (rec_nameLen buf off) \<le> rl" "needed \<le> rl - minDirentSize (rec_nameLen buf off)"
        "buf' = writeDirEntry (put_u16 buf (off + 4) (w16 (minDirentSize (rec_nameLen buf off))))
          (off + minDirentSize (rec_nameLen buf off)) ino (w16 (rl - minDirentSize (rec_nameLen buf off))) name fileType"
    by iprover
  then show ?case
  proof cases
    case reuse
    have fit: "off + 8 + length name \<le> length buf"
      using reuse(2) nd c by linarith
    note f = writeDirEntry_fields [OF fit ino(2) rl16 ft(1) name(2)]
    have "parse_from S buf off = [] @ parse_from S buf (off + rl)"
      using pb reuse(1) by (simp add: rec_live_def)
    moreover have "parse_from S buf' off = [] @ E # parse_from S buf (off + rl)"
      unfolding reuse(3) E_def append_Nil by (rule parse_written) (use S name ino ft reuse(2) nd c rl16 in simp_all)
    moreover have "length buf' = length buf" "\<forall>o' n. o' + n \<le> off \<longrightarrow> bytes_at buf' o' n = bytes_at buf o' n"
      using f by (simp_all add: reuse(3))
    moreover have "block_ok buf off \<longrightarrow> block_ok buf' off"
      unfolding reuse(3) block_ok_step [OF c(1,2) [unfolded rl_def]] rl_def [symmetric]
      using block_ok_written [of name rl off buf ino fileType] reuse(2) nd c ino ft name rl16 by simp
    ultimately show ?thesis
      unfolding E_def by blast
  next
    case next_rec
    have "length buf - (off + rl) < length buf - off"
      using c by linarith
    note h = less.hyps [OF this next_rec, folded E_def]
    note ih = h [THEN conjunct1] h [THEN conjunct2, THEN conjunct1, rule_format]
      h [THEN conjunct2, THEN conjunct2, THEN conjunct2]
    from h [THEN conjunct2, THEN conjunct2, THEN conjunct1] obtain pre post where
      p: "parse_from S buf (off + rl) = pre @ post" "parse_from S buf' (off + rl) = pre @ E # post"
      by iprover
    have "parse_from S buf off = ((if rec_live S buf off then [rec_entry buf off] else []) @ pre) @ post"
      "parse_from S buf' off = ((if rec_live S buf off then [rec_entry buf off] else []) @ pre) @ E # post"
      using pb parse_from_kept [where S = S, OF ih(1,2) [unfolded rl_def] c [unfolded rl_def], folded rl_def] p by simp_all
    moreover have "\<forall>o' n. o' + n \<le> off \<longrightarrow> bytes_at buf' o' n = bytes_at buf o' n"
      using ih(2) by simp
    moreover have "block_ok buf off \<longrightarrow> block_ok buf' off"
      using block_ok_kept [OF ih(1,2) [unfolded rl_def] _ c(1,2) [unfolded rl_def]] ih(3)
        block_ok_step [OF c(1,2) [unfolded rl_def]] unfolding rl_def by blast
    ultimately show ?thesis
      using ih(1) unfolding E_def by blast
  next
    case split
    have room: "8 + length name \<le> rl - minDirentSize (rec_nameLen buf off)"
      using split(2) nd by linarith
    note s = parse_split [OF S name ino ft c [unfolded rl_def] split(1) [unfolded rl_def] room [unfolded rl_def],
        folded rl_def, folded split(3)]
    have c': "off + 8 \<le> length buf'" "8 \<le> rec_len buf' off"
      using s(1,3) c(1) minDirentSize_bounds(1) [of "rec_nameLen buf off"] by simp_all
    have "block_ok buf off \<longrightarrow> block_ok buf' off"
      unfolding block_ok_step [OF c(1,2) [unfolded rl_def]] block_ok_step [OF c'] rl_def [symmetric]
      using s(1,3-5,7) c minDirentSize_bounds(1) [of "rec_nameLen buf off"] split(1) insert_from_cases(4) [OF less.prems]
      by simp
    with s show ?thesis
      unfolding E_def pb by blast
  qed
qed

section \<open>Freeing a record\<close>

lemma rec_live_ok:
  assumes "checkBounds_ok S" "off + 8 \<le> length buf" "off + rec_len buf off \<le> length buf"
    "8 + rec_nameLen buf off \<le> rec_len buf off"
  shows "rec_live S buf off \<longleftrightarrow> rec_ino buf off \<noteq> 0 \<and> rec_type buf off \<noteq> FtDirTail \<and> rec_nameLen buf off > 0"
  using assms by (auto simp: rec_live_def checkBounds_ok_def)

text \<open>Freeing the record at an offset: it is skipped, the rest of the chain stays.\<close>

lemma freed:
  assumes "block_ok buf off" "off + 8 \<le> length buf" "8 \<le> rec_len buf off"
  shows "length (put_u32 buf off 0) = length buf"
    "o' + n \<le> off \<Longrightarrow> bytes_at (put_u32 buf off 0) o' n = bytes_at buf o' n"
    "parse_from S (put_u32 buf off 0) off = parse_from S buf (off + rec_len buf off)"
    "block_ok (put_u32 buf off 0) off"
proof -
  note c = assms(1) [unfolded block_ok_step [OF assms(2,3)]]
  define b where "b = put_u32 buf off 0"
  have len: "length b = length buf"
    using assms(2) by (simp add: b_def)
  have keep: "bytes_at b o' n = bytes_at buf o' n" if "o' + n \<le> off \<or> off + 4 \<le> o'" for o' n
    unfolding b_def using that assms(2) by (auto simp: bytes_at_put_other)
  then have fld: "rec_len b off = rec_len buf off" "rec_nameLen b off = rec_nameLen buf off" "rec_type b off = rec_type buf off"
    by (simp_all add: u16_at_def u8_at_def)
  have d: "drop (off + rec_len buf off) b = drop (off + rec_len buf off) buf"
    using c by (simp add: drop_eq_bytes len keep)
  have "u32_at b off = 0"
    using assms(2) by (simp add: b_def)
  then have "\<not> rec_live S b off"
    by (simp add: rec_live_def)
  then show "parse_from S (put_u32 buf off 0) off = parse_from S buf (off + rec_len buf off)"
    using parse_from_step [of off b S] parse_from_cong [OF len d] assms(2) c unfolding b_def [symmetric]
    by (simp add: fld len)
  show "block_ok (put_u32 buf off 0) off"
    unfolding b_def [symmetric] using assms(2) c block_ok_cong [OF len d]
    by (subst block_ok_step) (simp_all add: fld len)
  show "length (put_u32 buf off 0) = length buf" "o' + n \<le> off \<Longrightarrow> bytes_at (put_u32 buf off 0) o' n = bytes_at buf o' n"
    using len keep by (simp_all add: b_def)
qed

text \<open>The first entry of the name, with the inode number \<open>i\<close>, is missing from the new listing, and
  nothing else has changed; or nothing has when the record that was found is a free one.\<close>

definition removes :: "'v safeio \<Rightarrow> byte list \<Rightarrow> byte list \<Rightarrow> nat \<Rightarrow> gostring \<Rightarrow> u32 \<Rightarrow> bool" where
  "removes S buf buf' off name i \<longleftrightarrow>
    (if i = 0 then parse_from S buf' off = parse_from S buf off
     else \<exists>pre e post. parse_from S buf off = pre @ e # post \<and> de_Name e = name \<and> de_Inode e = i \<and> name \<notin> de_Name ` set pre
       \<and> parse_from S buf' off = pre @ post)"

lemma removes_next:
  assumes keep: "length buf' = length buf"
      "\<And>o' n. o' + n \<le> off + rec_len buf off \<Longrightarrow> bytes_at buf' o' n = bytes_at buf o' n"
    and c: "off + 8 \<le> length buf" "8 \<le> rec_len buf off" "off + rec_len buf off \<le> length buf"
    and other: "rec_live S buf off \<Longrightarrow> rec_name buf off \<noteq> name"
    and rest: "removes S buf buf' (off + rec_len buf off) name i"
  shows "removes S buf buf' off name i"
proof -
  define h where "h = (if rec_live S buf off then [rec_entry buf off] else [])"
  have h: "parse_from S buf' off = h @ parse_from S buf' (off + rec_len buf off)" "parse_from S buf off = h @ parse_from S buf (off + rec_len buf off)"
    using parse_from_kept [where S = S, OF keep c] parse_from_step [OF c, of S] by (simp_all add: h_def)
  show ?thesis
  proof (cases "i = 0")
    case True
    then show ?thesis
      using rest h by (simp add: removes_def)
  next
    case False
    with rest obtain pre e post where p: "parse_from S buf (off + rec_len buf off) = pre @ e # post" "de_Name e = name" "de_Inode e = i"
      "name \<notin> de_Name ` set pre" "parse_from S buf' (off + rec_len buf off) = pre @ post"
      unfolding removes_def by auto
    have "name \<notin> de_Name ` set h"
      using other by (auto simp: h_def rec_entry_def)
    moreover have "parse_from S buf' off = (h @ pre) @ post" "parse_from S buf off = (h @ pre) @ e # post"
      using h p by simp_all
    ultimately show ?thesis
      unfolding removes_def using p(2,3,4) False by (metis UnE image_Un set_append)
  qed
qed

lemma zero_from_step:
  assumes "block_ok buf off" "off + 8 \<le> length buf" "8 \<le> rec_len buf off" "rec_type buf off \<noteq> FtDirTail"
  shows "zero_from buf off name =
    (if rec_nameLen buf off > 0 \<and> rec_name buf off = name then Inr (Some (put_u32 buf off 0))
     else zero_from buf (off + rec_len buf off) name)"
  using assms block_ok_step [of off buf] by (subst zero_from.simps) auto

lemma first_record_step:
  assumes "block_ok buf off" "off + 8 \<le> length buf" "8 \<le> rec_len buf off" "rec_type buf off \<noteq> FtDirTail"
  shows "first_record buf off name =
    (if rec_nameLen buf off > 0 \<and> rec_name buf off = name then Some (rec_ino buf off)
     else first_record buf (off + rec_len buf off) name)"
  using assms block_ok_step [of off buf] by (subst first_record.simps) auto

lemma zero_from_correct:
  assumes S: "checkBounds_ok S"
  shows "block_ok buf off \<Longrightarrow>
    (zero_from buf off name = Inr None \<and> first_record buf off name = None \<and> name \<notin> de_Name ` set (parse_from S buf off))
    \<or> (\<exists>buf' i. zero_from buf off name = Inr (Some buf') \<and> first_record buf off name = Some i \<and> length buf' = length buf
        \<and> (\<forall>o' n. o' + n \<le> off \<longrightarrow> bytes_at buf' o' n = bytes_at buf o' n)
        \<and> removes S buf buf' off name i \<and> block_ok buf' off)"
proof (induction "length buf - off" arbitrary: off rule: less_induct)
  case less
  define rl where "rl = rec_len buf off"
  show ?case
  proof (cases "off + 8 \<le> length buf \<and> 8 \<le> rec_len buf off \<and> rec_type buf off \<noteq> FtDirTail")
    case False
    then have "zero_from buf off name = Inr None" "first_record buf off name = None"
      using less.prems(1) by (subst zero_from.simps first_record.simps; auto)+
    moreover have "parse_from S buf off = []"
    proof (cases "off + 8 \<le> length buf \<and> 8 \<le> rec_len buf off")
      case c8: True
      then have True: "off + 8 \<le> length buf" "8 \<le> rec_len buf off"
        by simp_all
      with False less.prems(1) show ?thesis
        using block_ok_step [OF True] parse_from_step [OF True(1), of S] parse_from.simps [of S buf "length buf"]
        by (simp add: rec_live_def)
    qed (subst parse_from.simps, auto)
    ultimately show ?thesis
      by simp
  next
    case True
    then have c8: "off + 8 \<le> length buf" "8 \<le> rec_len buf off" and nt: "rec_type buf off \<noteq> FtDirTail"
      by simp_all
    have c: "8 \<le> rl" "off + rl \<le> length buf" "8 + rec_nameLen buf off \<le> rl" "block_ok buf (off + rl)"
      using less.prems(1) nt unfolding block_ok_step [OF c8] rl_def by simp_all
    note z = zero_from_step [OF less.prems(1) c8 nt, of name, folded rl_def] first_record_step [OF less.prems(1) c8 nt, of name, folded rl_def]
    note pb = parse_from_step [OF c8 c(2) [unfolded rl_def], of S, folded rl_def]
    note live = rec_live_ok [OF S c8(1) c(2,3) [unfolded rl_def]]
    show ?thesis
    proof (cases "rec_nameLen buf off > 0 \<and> rec_name buf off = name")
      case match: True
      note f = freed [OF less.prems(1) c8, folded rl_def]
      have "parse_from S buf off = (if rec_ino buf off = 0 then [] else [rec_entry buf off]) @ parse_from S buf (off + rl)"
        using pb live match nt by simp
      then have "removes S buf (put_u32 buf off 0) off name (rec_ino buf off)"
        unfolding removes_def f(3) using match by (auto simp: rec_entry_def intro: exI [of _ "[]"])
      then show ?thesis
        using z match f by auto
    next
      case other: False
      have "length buf - (off + rl) < length buf - off"
        using c c8 by linarith
      from less.hyps [OF this c(4)] show ?thesis
      proof (elim disjE exE conjE)
        assume "zero_from buf (off + rl) name = Inr None" "first_record buf (off + rl) name = None" "name \<notin> de_Name ` set (parse_from S buf (off + rl))"
        then show ?thesis
          using z other pb live by (auto simp: rec_entry_def)
      next
        fix buf' i assume b: "zero_from buf (off + rl) name = Inr (Some buf')" "length buf' = length buf"
          "\<forall>o' n. o' + n \<le> off + rl \<longrightarrow> bytes_at buf' o' n = bytes_at buf o' n"
          "removes S buf buf' (off + rl) name i" "block_ok buf' (off + rl)" "first_record buf (off + rl) name = Some i"
        have keep: "\<And>o' n. o' + n \<le> off + rec_len buf off \<Longrightarrow> bytes_at buf' o' n = bytes_at buf o' n"
          using b(3) by (simp add: rl_def)
        have "removes S buf buf' off name i"
          using other live b(4) by (intro removes_next [OF b(2) keep c8(1)]) (auto simp: rl_def c [unfolded rl_def])
        moreover have "block_ok buf' off"
          using block_ok_kept [OF b(2) keep less.prems(1) c8] b(5) by (simp add: rl_def)
        ultimately show ?thesis
          using z other b(1,2,3,6) by simp
      qed
    qed
  qed
qed

section \<open>Properties\<close>

definition dot_block :: "byte list" where
  "dot_block = put_bytes (zeros 48) 0 [2, 0, 0, 0, 48, 0, 1, 2, 46]"

text \<open>C18: inserting into a well-formed directory block adds exactly the new entry: the block keeps
  its length and stays well formed, and what \<open>parseDirBlock\<close> lists is what it listed before with
  the new entry somewhere in between, every other entry and their order unchanged.
\<close>

theorem tryInsertDirEntry_adds:
  assumes "checkBounds_ok S" "0 < length name" "length name < 256" "childIno \<noteq> 0" "childIno < 4294967296"
    "fileType < 256" "fileType \<noteq> FtDirTail" "block_ok buf 0"
    and ins: "tryInsertDirEntry buf childIno name fileType (minDirentSize (length name)) = Some buf'"
  shows "length buf' = length buf \<and> block_ok buf' 0
    \<and> (\<exists>pre post. parseDirBlock S buf = pre @ post
        \<and> parseDirBlock S buf' = pre @ \<lparr>de_Inode = childIno, de_Name = name, de_FileType = fileType\<rparr> # post)"
  using insert_from_parse [OF assms(1-7) refl ins [unfolded tryInsertDirEntry_def]] assms(8)
  unfolding parseDirBlock_def by blast

theorem tryInsertDirEntry_adds_witness:
  "parseDirBlock safeio_ref (the (tryInsertDirEntry dot_block 11 [97, 98] 1 12))
     = [\<lparr>de_Inode = 2, de_Name = [46], de_FileType = 2\<rparr>, \<lparr>de_Inode = 11, de_Name = [97, 98], de_FileType = 1\<rparr>]
   \<and> (\<exists>pre post. parseDirBlock safeio_ref dot_block = pre @ post
        \<and> parseDirBlock safeio_ref (the (tryInsertDirEntry dot_block 11 [97, 98] 1 12))
          = pre @ \<lparr>de_Inode = 11, de_Name = [97, 98], de_FileType = 1\<rparr> # post)"
proof -
  have c: "block_ok dot_block 0 \<and> minDirentSize 2 = 12 \<and> tryInsertDirEntry dot_block 11 [97, 98] 1 12 \<noteq> None
     \<and> parseDirBlock safeio_ref (the (tryInsertDirEntry dot_block 11 [97, 98] 1 12))
       = [\<lparr>de_Inode = 2, de_Name = [46], de_FileType = 2\<rparr>, \<lparr>de_Inode = 11, de_Name = [97, 98], de_FileType = 1\<rparr>]"
    by code_simp
  then obtain buf' where b: "tryInsertDirEntry dot_block 11 [97, 98] 1 12 = Some buf'"
    by blast
  have "\<exists>pre post. parseDirBlock safeio_ref dot_block = pre @ post
      \<and> parseDirBlock safeio_ref buf' = pre @ \<lparr>de_Inode = 11, de_Name = [97, 98], de_FileType = 1\<rparr> # post"
    using tryInsertDirEntry_adds [of safeio_ref "[97, 98]" 11 1 dot_block buf'] c b safeio_ref_ok
    by (simp add: numeral_2_eq_2)
  with c b show ?thesis
    by simp
qed

text \<open>C19: freeing an entry by name in any well-formed directory block.  \<open>zeroEntryInBlock\<close> never slices
  out of range.  When no record carries the name it reports no match, and \<open>parseDirBlock\<close> does not
  list the name either.  When the first record that carries the name is in use, for the inode \<open>i\<close>,
  the block stays well formed and exactly the first entry of that name, which is the one for \<open>i\<close>,
  disappears from what \<open>parseDirBlock\<close> lists.  When that first record is free, as one of a deleted
  entry may be, the call reports a match and the listing stays as it was, whether a later record
  holds the name or not.
\<close>

theorem zeroEntryInBlock_removes:
  assumes "checkBounds_ok S" "block_ok buf 0"
  shows "case first_record buf 0 name of
      None \<Rightarrow> zeroEntryInBlock buf name = Inr None \<and> name \<notin> de_Name ` set (parseDirBlock S buf)
    | Some i \<Rightarrow> \<exists>buf'. zeroEntryInBlock buf name = Inr (Some buf') \<and> length buf' = length buf \<and> block_ok buf' 0
        \<and> (if i = 0 then parseDirBlock S buf' = parseDirBlock S buf
           else \<exists>pre e post. parseDirBlock S buf = pre @ e # post \<and> de_Name e = name \<and> de_Inode e = i \<and> name \<notin> de_Name ` set pre
             \<and> parseDirBlock S buf' = pre @ post)"
  using zero_from_correct [OF assms, of name] unfolding zeroEntryInBlock_def parseDirBlock_def removes_def by (elim disjE exE conjE) auto

definition stale_block :: "byte list" where
  "stale_block = put_bytes (put_bytes (zeros 32) 0 [0, 0, 0, 0, 12, 0, 1, 1, 97]) 12 [5, 0, 0, 0, 20, 0, 1, 1, 97]"

text \<open>A record in use is freed; a free record with the name hides the entry behind it.\<close>

theorem zeroEntryInBlock_removes_witness:
  "(\<exists>buf' pre e post. zeroEntryInBlock dot_block [46] = Inr (Some buf') \<and> length buf' = length dot_block
      \<and> block_ok buf' 0 \<and> parseDirBlock safeio_ref dot_block = pre @ e # post \<and> de_Name e = [46]
      \<and> [46] \<notin> de_Name ` set pre \<and> parseDirBlock safeio_ref buf' = pre @ post)
   \<and> (\<exists>buf'. zeroEntryInBlock stale_block [97] = Inr (Some buf') \<and> parseDirBlock safeio_ref buf' = [\<lparr>de_Inode = 5, de_Name = [97], de_FileType = 1\<rparr>])"
proof -
  have "block_ok dot_block 0" "first_record dot_block 0 [46] = Some 2" "block_ok stale_block 0" "first_record stale_block 0 [97] = Some 0"
    "parseDirBlock safeio_ref stale_block = [\<lparr>de_Inode = 5, de_Name = [97], de_FileType = 1\<rparr>]"
    by code_simp+
  then show ?thesis
    using zeroEntryInBlock_removes [OF safeio_ref_ok(2), of dot_block "[46]"]
      zeroEntryInBlock_removes [OF safeio_ref_ok(2), of stale_block "[97]"] by auto
qed

text \<open>
  Without the well-formedness the loop of \<open>zeroEntryInBlock\<close> can leave the slice: a record whose
  name runs over the end of the block is skipped by \<open>parseDirBlock\<close> and panics here.
\<close>

definition overrun_block :: "byte list" where
  "overrun_block = put_bytes (zeros 16) 0 [5, 0, 0, 0, 16, 0, 40, 1]"

lemma zeroEntryInBlock_panics:
  "parseDirBlock safeio_ref overrun_block = [] \<and> zeroEntryInBlock overrun_block [97] = Inl Panic"
  by code_simp

text \<open>
  \<open>writeDirEntry\<close> keeps the length of the name modulo 256: an entry whose name has 256 bytes is
  written and then never listed.
\<close>

lemma long_name_lost:
  assumes "off + 8 \<le> length buf" "length name = 256"
  shows "\<not> rec_live S (writeDirEntry buf off ino recLen name fileType) off"
proof -
  define b where "b = put_u8 (put_u8 (put_u16 (put_u32 buf off ino) (off + 4) recLen) (off + 6) (length name mod 256))
      (off + 7) fileType"
  have "u8_at b (off + 6) = 0" "length b = length buf"
    using assms by (simp_all add: b_def codec_simps)
  then have "u8_at (put_bytes b (off + 8) xs) (off + 6) = 0" if "off + 8 + length xs \<le> length b" for xs
    using that assms by (simp add: u8_at_def bytes_at_put_bytes_other)
  then have "u8_at (writeDirEntry buf off ino recLen name fileType) (off + 6) = 0"
    using \<open>length b = length buf\<close> assms unfolding writeDirEntry_def b_def [symmetric] by simp
  then show ?thesis
    by (simp add: rec_live_def)
qed

end
