(* ===== verification/Directory.thy ===== *)
theory Directory
  imports FileData DirBlock
begin

text \<open>
  Directories and paths: \<open>readDir\<close>, \<open>lookupPathFrom\<close>, \<open>lookupPath\<close>, \<open>lookupParent\<close> and
  \<open>readSymlink\<close> of \<open>dir.go\<close>, \<open>inlineDirEntries\<close> of \<open>inline.go\<close>, and the updates of one
  directory block in place, \<open>zeroDirEntry\<close> of \<open>delete.go\<close> and \<open>updateDotDot\<close> of \<open>rename.go\<close>.
\<close>

section \<open>Listing a directory\<close>

definition inlineDirEntries :: "'v safeio \<Rightarrow> device \<Rightarrow> int \<Rightarrow> superblock \<Rightarrow> inode \<Rightarrow> DirEntry list result" where
  "inlineDirEntries S f fsOffset sb i =
    (let ib = bytes_at (in_raw i) inodeOffBlock inlineIBlockMax;
         entries = [\<lparr>de_Inode = in_num i, de_Name = [46], de_FileType = FtDir\<rparr>,
                    \<lparr>de_Inode = u32_at ib 0, de_Name = [46, 46], de_FileType = FtDir\<rparr>]
                   @ parseDirBlock S (drop 4 ib)
     in if i64 (int (in_size i)) > int inlineIBlockMax
        then res_bind (systemDataValue f fsOffset sb i) (\<lambda>v.
          Inr (case v of None \<Rightarrow> entries | Some val \<Rightarrow> entries @ parseDirBlock S val))
        else Inr entries)"

fun read_dir_blocks :: "'v safeio \<Rightarrow> device \<Rightarrow> int \<Rightarrow> superblock \<Rightarrow> u64 list \<Rightarrow> DirEntry list result" where
  "read_dir_blocks S f fsOffset sb [] = Inr []"
| "read_dir_blocks S f fsOffset sb (b # bs) =
    res_bind (readRawBlock f fsOffset sb b) (\<lambda>buf.
    res_bind (read_dir_blocks S f fsOffset sb bs) (\<lambda>es. Inr (parseDirBlock S buf @ es)))"

definition readDir :: "'v safeio \<Rightarrow> device \<Rightarrow> int \<Rightarrow> superblock \<Rightarrow> inode \<Rightarrow> DirEntry list result" where
  "readDir S f fsOffset sb dirInode =
    (if isInline dirInode then inlineDirEntries S f fsOffset sb dirInode
     else res_bind (readExtents S f fsOffset sb dirInode) (\<lambda>exts.
       read_dir_blocks S f fsOffset sb (map snd (ext_blocks exts))))"

section \<open>Paths\<close>

definition maxSymlinks :: nat where
  "maxSymlinks = 40"

definition readSymlink :: "'v safeio \<Rightarrow> device \<Rightarrow> int \<Rightarrow> superblock \<Rightarrow> inode \<Rightarrow> gostring result" where
  "readSymlink S f fsOffset sb i =
    (if in_size i \<le> 60
     then if inodeOffBlock + in_size i > length (in_raw i) then Inl Panic
          else Inr (bytes_at (in_raw i) inodeOffBlock (in_size i))
     else readFileData S f fsOffset sb i)"

text \<open>\<open>strings.TrimPrefix(path, "/")\<close>, \<open>strings.SplitN(path, "/", 2)\<close>, \<open>strings.Split\<close> and \<open>strings.Join\<close>.\<close>

fun TrimPrefix :: "gostring \<Rightarrow> gostring" where
  "TrimPrefix (c # cs) = (if c = 47 then cs else c # cs)"
| "TrimPrefix [] = []"

definition SplitN2 :: "gostring \<Rightarrow> gostring \<times> gostring option" where
  "SplitN2 path =
    (takeWhile (\<lambda>c. c \<noteq> 47) path,
     case dropWhile (\<lambda>c. c \<noteq> 47) path of [] \<Rightarrow> None | _ # rest \<Rightarrow> Some rest)"

fun Split :: "gostring \<Rightarrow> gostring list" where
  "Split [] = [[]]"
| "Split (c # cs) = (if c = 47 then [] # Split cs else case Split cs of p # ps \<Rightarrow> (c # p) # ps | [] \<Rightarrow> [[c]])"

fun Join :: "gostring list \<Rightarrow> gostring" where
  "Join [] = []"
| "Join [p] = p"
| "Join (p # ps) = p @ 47 # Join ps"

definition HasSlash :: "gostring \<Rightarrow> bool" where
  "HasSlash path \<longleftrightarrow> path \<noteq> [] \<and> hd path = 47"

lemma SplitN2_shorter: "SplitN2 path = (a, Some rest) \<Longrightarrow> length rest < length path"
proof -
  assume "SplitN2 path = (a, Some rest)"
  then obtain c where "dropWhile (\<lambda>c. c \<noteq> 47) path = c # rest"
    by (auto simp: SplitN2_def split: list.splits)
  then show ?thesis
    using length_dropWhile_le [of "\<lambda>c. c \<noteq> 47" path] by simp
qed

lemma TrimPrefix_length: "length (TrimPrefix path) \<le> length path"
  by (cases path) auto

function lookupPathFrom :: "'v safeio \<Rightarrow> device \<Rightarrow> int \<Rightarrow> superblock \<Rightarrow> u32 \<Rightarrow> gostring \<Rightarrow> nat \<Rightarrow> inode result" where
  "lookupPathFrom S f fsOffset sb startIno path0 symlinkHops =
    (if symlinkHops > maxSymlinks then Inl ErrSymlinkLoop
     else if TrimPrefix path0 = [] then readInode f fsOffset sb startIno
     else case readInode f fsOffset sb startIno of
       Inl err \<Rightarrow> Inl err
     | Inr cur \<Rightarrow>
       if \<not> isDir cur then Inl ErrNotDir
       else case readDir S f fsOffset sb cur of
         Inl err \<Rightarrow> Inl err
       | Inr entries \<Rightarrow>
         (case find (\<lambda>e. de_Name e = fst (SplitN2 (TrimPrefix path0))) entries of
            None \<Rightarrow> Inl ErrNotExist
          | Some e \<Rightarrow>
            (case readInode f fsOffset sb (de_Inode e) of
               Inl err \<Rightarrow> Inl err
             | Inr child \<Rightarrow>
               if isSymlink child then
                 case readSymlink S f fsOffset sb child of
                   Inl err \<Rightarrow> Inl err
                 | Inr target \<Rightarrow>
                     let nextPath = (case snd (SplitN2 (TrimPrefix path0)) of
                           None \<Rightarrow> target | Some rest \<Rightarrow> target @ 47 # rest)
                     in lookupPathFrom S f fsOffset sb (if HasSlash nextPath then RootIno else startIno)
                          nextPath (Suc symlinkHops)
               else
                 case SplitN2 (TrimPrefix path0) of
                   (_, None) \<Rightarrow> Inr child
                 | (_, Some rest) \<Rightarrow> lookupPathFrom S f fsOffset sb (de_Inode e) rest symlinkHops)))"
  by pat_completeness auto
termination
proof (relation "measures [\<lambda>(S, f, fsOffset, sb, startIno, path, h). Suc maxSymlinks - h,
    \<lambda>(S, f, fsOffset, sb, startIno, path, h). length path]", goal_cases)
  case (3 S f fsOffset sb startIno path0 h cur entries e child x y rest)
  then have "SplitN2 (TrimPrefix path0) = (x, Some rest)"
    by simp
  from less_le_trans [OF SplitN2_shorter [OF this] TrimPrefix_length] show ?case
    by simp
qed (simp_all add: Suc_diff_le not_less)

declare lookupPathFrom.simps [simp del]

definition lookupPath :: "'v safeio \<Rightarrow> device \<Rightarrow> int \<Rightarrow> superblock \<Rightarrow> gostring \<Rightarrow> inode result" where
  "lookupPath S f fsOffset sb path = lookupPathFrom S f fsOffset sb RootIno path 0"

definition lookupParent :: "'v safeio \<Rightarrow> device \<Rightarrow> int \<Rightarrow> superblock \<Rightarrow> gostring \<Rightarrow> (inode \<times> gostring) result" where
  "lookupParent S f fsOffset sb path0 =
    (let path = TrimPrefix path0;
         parts = Split path
     in if path = [] then Inl ErrInvalidPath
        else if last parts = [] then Inl ErrTrailingSlash
        else
          let dirPath = Join (butlast parts)
          in res_bind (if dirPath = [] then readInode f fsOffset sb RootIno
                       else lookupPath S f fsOffset sb (47 # dirPath)) (\<lambda>dirIno.
             if \<not> isDir dirIno then Inl ErrNotDir else Inr (dirIno, last parts)))"

section \<open>Updates of one directory block\<close>

fun zero_dir_blocks :: "int \<Rightarrow> superblock \<Rightarrow> inode \<Rightarrow> gostring \<Rightarrow> u64 list \<Rightarrow> (device, unit) io" where
  "zero_dir_blocks fsOffset sb dirIno name [] f = (Inr (), f)"
| "zero_dir_blocks fsOffset sb dirIno name (b # bs) f =
    (case readRawBlock f fsOffset sb b of
       Inl err \<Rightarrow> (Inl err, f)
     | Inr buf \<Rightarrow>
       (case zeroEntryInBlock buf name of
          Inl err \<Rightarrow> (Inl err, f)
        | Inr (Some buf') \<Rightarrow> writeRawBlock fsOffset sb b (updateDirBlockCsum buf' sb dirIno) f
        | Inr None \<Rightarrow> zero_dir_blocks fsOffset sb dirIno name bs f))"

definition zeroDirEntry :: "'v safeio \<Rightarrow> int \<Rightarrow> superblock \<Rightarrow> inode \<Rightarrow> gostring \<Rightarrow> (device, unit) io" where
  "zeroDirEntry S fsOffset sb dirIno name f =
    (case extents S f fsOffset sb dirIno of
       Inl err \<Rightarrow> (Inl err, f)
     | Inr exts \<Rightarrow> zero_dir_blocks fsOffset sb dirIno name (map snd (ext_blocks exts)) f)"

fun dotdot_blocks :: "int \<Rightarrow> superblock \<Rightarrow> inode \<Rightarrow> u32 \<Rightarrow> u64 list \<Rightarrow> (device, unit) io" where
  "dotdot_blocks fsOffset sb dirIno newParentIno [] f = (Inr (), f)"
| "dotdot_blocks fsOffset sb dirIno newParentIno (b # bs) f =
    (case readRawBlock f fsOffset sb b of
       Inl err \<Rightarrow> (Inl err, f)
     | Inr buf \<Rightarrow>
       (case dotdot_from buf 0 newParentIno of
          Some buf' \<Rightarrow> writeRawBlock fsOffset sb b (updateDirBlockCsum buf' sb dirIno) f
        | None \<Rightarrow> dotdot_blocks fsOffset sb dirIno newParentIno bs f))"

definition updateDotDot :: "'v safeio \<Rightarrow> int \<Rightarrow> superblock \<Rightarrow> inode \<Rightarrow> u32 \<Rightarrow> (device, unit) io" where
  "updateDotDot S fsOffset sb dirIno newParentIno f =
    (case extents S f fsOffset sb dirIno of
       Inl err \<Rightarrow> (Inl err, f)
     | Inr exts \<Rightarrow> dotdot_blocks fsOffset sb dirIno newParentIno (map snd (ext_blocks exts)) f)"

end
