(* ===== verification/SampleTree.thy ===== *)
theory SampleTree
  imports Directory
begin

text \<open>
  A small tree on the image of \<open>Sample\<close>, used to evaluate the model: the root directory (inode 2,
  block 33) holds the directory \<open>d\<close> (inode 3, block 34) and the symbolic link \<open>l\<close> (inode 1) whose
  target is \<open>l\<close>; \<open>d\<close> holds the file \<open>f\<close> (inode 4, block 35) with five bytes.
\<close>

definition root_block :: "byte list" where
  "root_block = [2, 0, 0, 0, 12, 0, 1, 2, 46, 0, 0, 0, 2, 0, 0, 0, 12, 0, 2, 2, 46, 46, 0, 0,
     3, 0, 0, 0, 12, 0, 1, 2, 100, 0, 0, 0, 1, 0, 0, 0, 28, 0, 1, 7, 108, 0, 0, 0,
     0, 0, 0, 0, 0, 0, 0, 0, 0, 0, 0, 0, 0, 0, 0, 0]"

definition sub_block :: "byte list" where
  "sub_block = [3, 0, 0, 0, 12, 0, 1, 2, 46, 0, 0, 0, 2, 0, 0, 0, 12, 0, 2, 2, 46, 46, 0, 0,
     4, 0, 0, 0, 40, 0, 1, 1, 102, 0, 0, 0, 0, 0, 0, 0, 0, 0, 0, 0, 0, 0, 0, 0,
     0, 0, 0, 0, 0, 0, 0, 0, 0, 0, 0, 0, 0, 0, 0, 0]"

definition tree_byte :: "nat \<Rightarrow> byte" where
  "tree_byte i =
    (if i < 320 then mini_byte i
     else if i < 448 then
       (if i = 320 then 0xFF else if i = 321 then 0xA1 else if i = 324 then 1 else if i = 346 then 1
        else if i = 360 then 108 else 0)
     else if i < 576 then
       (if i = 448 then 0xED else if i = 449 then 0x41 else if i = 452 then 64 else if i = 474 then 3
        else if i = 482 then 8 else if i = 488 then 0x0A else if i = 489 then 0xF3 else if i = 490 then 1
        else if i = 492 then 4 else if i = 504 then 1 else if i = 508 then 33 else 0)
     else if i < 704 then
       (if i = 576 then 0xED else if i = 577 then 0x41 else if i = 580 then 64 else if i = 602 then 2
        else if i = 610 then 8 else if i = 616 then 0x0A else if i = 617 then 0xF3 else if i = 618 then 1
        else if i = 620 then 4 else if i = 632 then 1 else if i = 636 then 34 else 0)
     else if i < 832 then
       (if i = 704 then 0xA4 else if i = 705 then 0x81 else if i = 708 then 5 else if i = 730 then 1
        else if i = 738 then 8 else if i = 744 then 0x0A else if i = 745 then 0xF3 else if i = 746 then 1
        else if i = 748 then 4 else if i = 760 then 1 else if i = 764 then 35 else 0)
     else if i < 2112 then mini_byte i
     else if i < 2176 then root_block ! (i - 2112)
     else if i < 2240 then sub_block ! (i - 2176)
     else if i < 2245 then [104, 101, 108, 108, 111] ! (i - 2240)
     else 0)"

definition tree_dev :: device where
  "tree_dev = \<lparr>dev_size = 4096, dev_byte = tree_byte, dev_side = OsFile\<rparr>"

definition tree_off :: "u32 \<Rightarrow> nat" where
  "tree_off n = 320 + (n - 1) * 128"

definition tree_inode :: "u32 \<Rightarrow> inode" where
  "tree_inode n = decode_inode n (map tree_byte [tree_off n..<tree_off n + 128])"

lemma tree_off: "tree_off 1 = 320" "tree_off 2 = 448" "tree_off 3 = 576" "tree_off 4 = 704"
  by (simp_all add: tree_off_def)

lemma tree_byte_low: "i < 320 \<Longrightarrow> tree_byte i = mini_byte i"
  unfolding tree_byte_def by (rule if_P)

lemma tree_desc: "readBGD tree_dev 0 mini_sb 0 = Inr mini_bgd"
proof -
  have "map tree_byte [128..<128 + 32] = map mini_byte [128..<128 + 32]"
    by (intro map_cong refl tree_byte_low) (auto simp only: set_upt atLeastLessThan_iff)
  then have "ReadAt tree_dev 128 32 = Inr (map mini_byte [128..<128 + 32])"
    unfolding ReadAt_Inr_iff by (simp add: tree_dev_def)
  then show ?thesis
    using decode_mini by (simp add: readBGD_def)
qed

lemma tree_readInode:
  assumes "n \<in> {1, 2, 3, 4}"
  shows "readInode tree_dev 0 mini_sb n = Inr (tree_inode n)"
proof -
  have "ReadAt tree_dev (int (tree_off n)) 128 = Inr (map tree_byte [tree_off n..<tree_off n + 128])"
    using assms unfolding ReadAt_Inr_iff by (auto simp: tree_dev_def tree_off_def)
  moreover have "inode_group mini_sb n = 0" "i64 (0 + inode_off_in mini_sb mini_bgd n) = int (tree_off n)"
    using assms by (auto simp: inode_group_def inode_index_def inode_off_in_def mini_bgd_def tree_off_def)
  moreover have "0 < n" "n \<le> 4"
    using assms by auto
  ultimately show ?thesis
    using tree_desc by (simp add: readInode_eq tree_inode_def)
qed

lemma tree_raw:
  "tree_inode 1 = decode_inode 1 (map tree_byte [320..<320 + 128])"
  "tree_inode 2 = decode_inode 2 (map tree_byte [448..<448 + 128])"
  "tree_inode 3 = decode_inode 3 (map tree_byte [576..<576 + 128])"
  "tree_inode 4 = decode_inode 4 (map tree_byte [704..<704 + 128])"
  by (simp_all only: tree_inode_def tree_off)

lemma tree_num [simp]: "in_num (tree_inode n) = n"
  by (simp add: tree_inode_def decode_inode_def)

lemma tree_fields:
  "isSymlink (tree_inode 1)" "in_size (tree_inode 1) = 1" "isDir (tree_inode 2)" "isDir (tree_inode 3)"
  "\<not> isSymlink (tree_inode 3)" "isRegular (tree_inode 4)" "\<not> isSymlink (tree_inode 4)"
  "inode_flags (tree_inode 2) = 0x80000" "inode_flags (tree_inode 3) = 0x80000" "inode_flags (tree_inode 4) = 0x80000"
  "iblock (tree_inode 2) = map tree_byte [488..<488 + 60]"
  "iblock (tree_inode 3) = map tree_byte [616..<616 + 60]" "in_size (tree_inode 4) = 5"
  unfolding tree_raw isSymlink_def isDir_def isRegular_def inode_flags_def decode_inode_def iblock_def
    u16_at_def u32_at_def
  by (simp_all only: inode.simps bytes_at_map_upt) (simp_all add: tree_byte_def join32_def)

lemma inline_leaf:
  assumes "u16_at b 0 = ExtentMagic" "u16_at b 2 = 1" "u16_at b 6 = 0" "length b = 60" "get_leaf b 12 = e"
  shows "parseExtentRoot safeio_ref f fsOffset sb b = Inr [e]"
proof -
  have "node_entries b = [12]"
    using node_entries_eq [OF assms(2)] assms(4) by simp
  then show ?thesis
    using assms by (simp add: parseExtentRoot_def check_header_def maxExtentDepth_def validateExtents_def)
qed

lemma tree_hdr:
  defines "hdr b p \<equiv> u16_at b 0 = ExtentMagic \<and> u16_at b 2 = 1 \<and> u16_at b 6 = 0 \<and> length b = 60
    \<and> get_leaf b 12 = \<lparr>LogBlock = 0, PhysBlock = p, Count = 1\<rparr>"
  shows "hdr (map tree_byte [488..<488 + 60]) 33" "hdr (map tree_byte [616..<616 + 60]) 34"
  unfolding hdr_def get_leaf_def u16_at_def u32_at_def
  by (simp_all only: bytes_at_map_upt length_map length_upt) (simp_all add: tree_byte_def join32_def)

lemma tree_exts:
  "extents safeio_ref tree_dev 0 mini_sb (tree_inode 2) = Inr [\<lparr>LogBlock = 0, PhysBlock = 33, Count = 1\<rparr>]"
  "extents safeio_ref tree_dev 0 mini_sb (tree_inode 3) = Inr [\<lparr>LogBlock = 0, PhysBlock = 34, Count = 1\<rparr>]"
proof -
  have "parseExtentRoot safeio_ref tree_dev 0 mini_sb (iblock (tree_inode 2)) = Inr [\<lparr>LogBlock = 0, PhysBlock = 33, Count = 1\<rparr>]"
    unfolding tree_fields by (rule inline_leaf) (use tree_hdr(1) in simp_all)
  moreover have "parseExtentRoot safeio_ref tree_dev 0 mini_sb (iblock (tree_inode 3)) = Inr [\<lparr>LogBlock = 0, PhysBlock = 34, Count = 1\<rparr>]"
    unfolding tree_fields by (rule inline_leaf) (use tree_hdr(2) in simp_all)
  ultimately show
    "extents safeio_ref tree_dev 0 mini_sb (tree_inode 2) = Inr [\<lparr>LogBlock = 0, PhysBlock = 33, Count = 1\<rparr>]"
    "extents safeio_ref tree_dev 0 mini_sb (tree_inode 3) = Inr [\<lparr>LogBlock = 0, PhysBlock = 34, Count = 1\<rparr>]"
    by (simp_all add: extents_def tree_fields(8,9) has_flag_def)
qed

lemma list_on_device: "length xs = n \<Longrightarrow> map (\<lambda>i. xs ! (i - a)) [a..<a + n] = xs"
  by (rule nth_equalityI) simp_all

lemma tree_block_len: "length root_block = 64" "length sub_block = 64"
  by (simp_all add: root_block_def sub_block_def)

lemma tree_blocks:
  "readRawBlock tree_dev 0 mini_sb 33 = Inr root_block" "readRawBlock tree_dev 0 mini_sb 34 = Inr sub_block"
proof -
  have "map tree_byte [2112..<2112 + 64] = map (\<lambda>i. root_block ! (i - 2112)) [2112..<2112 + 64]"
    "map tree_byte [2176..<2176 + 64] = map (\<lambda>i. sub_block ! (i - 2176)) [2176..<2176 + 64]"
    by (intro map_cong refl; simp only: set_upt atLeastLessThan_iff; simp add: tree_byte_def)+
  then have "map tree_byte [2112..<2112 + 64] = root_block" "map tree_byte [2176..<2176 + 64] = sub_block"
    using list_on_device [of root_block 64 2112] list_on_device [of sub_block 64 2176] tree_block_len by metis+
  moreover have "ReadAt tree_dev 2112 64 = Inr (map tree_byte [2112..<2112 + 64])"
    "ReadAt tree_dev 2176 64 = Inr (map tree_byte [2176..<2176 + 64])"
    unfolding ReadAt_Inr_iff by (simp_all add: tree_dev_def)
  ultimately show "readRawBlock tree_dev 0 mini_sb 33 = Inr root_block" "readRawBlock tree_dev 0 mini_sb 34 = Inr sub_block"
    by (simp_all add: readRawBlock_def block_off_def)
qed

definition root_entries :: "DirEntry list" where
  "root_entries = [\<lparr>de_Inode = 2, de_Name = [46], de_FileType = 2\<rparr>, \<lparr>de_Inode = 2, de_Name = [46, 46], de_FileType = 2\<rparr>,
     \<lparr>de_Inode = 3, de_Name = [100], de_FileType = 2\<rparr>, \<lparr>de_Inode = 1, de_Name = [108], de_FileType = 7\<rparr>]"

definition sub_entries :: "DirEntry list" where
  "sub_entries = [\<lparr>de_Inode = 3, de_Name = [46], de_FileType = 2\<rparr>, \<lparr>de_Inode = 2, de_Name = [46, 46], de_FileType = 2\<rparr>,
     \<lparr>de_Inode = 4, de_Name = [102], de_FileType = 1\<rparr>]"

lemma tree_parse:
  "parseDirBlock safeio_ref root_block = root_entries" "parseDirBlock safeio_ref sub_block = sub_entries"
  by code_simp+

end
