(* ===== verification/Metadata.thy ===== *)
theory Metadata
  imports AllocSample SampleTree
begin

text \<open>
  The operations that edit one inode or the superblock in place: \<open>Chmod\<close>, \<open>Chown\<close>, \<open>Chtimes\<close>
  (\<open>metadata.go\<close>), \<open>GetFlags\<close>, \<open>SetFlags\<close> (\<open>ioctl.go\<close>) and \<open>Label\<close>, \<open>SetLabel\<close> (\<open>label.go\<close>),
  on the state of an open file system without a journal.  The clock is a parameter.
\<close>

section \<open>Definitions\<close>

text \<open>Reading and writing the device with the superblock in memory.\<close>

definition op_read :: "(device \<Rightarrow> superblock \<Rightarrow> 'a result) \<Rightarrow> (fsys, 'a) io" where
  "op_read g s = (g (fs_dev s) (fs_sb s), s)"

definition op_dev :: "(superblock \<Rightarrow> (device, 'a) io) \<Rightarrow> (fsys, 'a) io" where
  "op_dev m s = on_dev (m (fs_sb s)) s"

definition op_throw :: "err \<Rightarrow> (fsys, 'a) io" where
  "op_throw e s = (Inl e, s)"

abbreviation (input) inodeOffUID :: nat where "inodeOffUID \<equiv> 2"
abbreviation (input) inodeOffATime :: nat where "inodeOffATime \<equiv> 8"
abbreviation (input) inodeOffCTime :: nat where "inodeOffCTime \<equiv> 12"
abbreviation (input) inodeOffMTime :: nat where "inodeOffMTime \<equiv> 16"
abbreviation (input) inodeOffGID :: nat where "inodeOffGID \<equiv> 24"
abbreviation (input) inodeOffUIDHigh :: nat where "inodeOffUIDHigh \<equiv> 120"
abbreviation (input) inodeOffGIDHigh :: nat where "inodeOffGIDHigh \<equiv> 122"

definition withInodeForUpdate :: "'v safeio \<Rightarrow> u32 \<Rightarrow> int \<Rightarrow> gostring \<Rightarrow> (inode \<Rightarrow> inode) \<Rightarrow> (fsys, inode) io" where
  "withInodeForUpdate S now fsOffset path edit =
    io_bind (op_read (\<lambda>f sb. lookupPath S f fsOffset sb path)) (\<lambda>i0.
    io_bind (op_read (\<lambda>f sb. readInode f fsOffset sb (in_num i0))) (\<lambda>i1.
      let i2 = edit i1
      in op_dev (\<lambda>sb. writeInode fsOffset sb (i2\<lparr>in_raw := put_u32 (in_raw i2) inodeOffCTime now\<rparr>))))"

text \<open>\<open>os.FileMode\<close>: the permission bits, and the set-uid, set-gid and sticky bits of the Go type.\<close>

abbreviation (input) ModeSetuid :: nat where "ModeSetuid \<equiv> 0x800000"
abbreviation (input) ModeSetgid :: nat where "ModeSetgid \<equiv> 0x400000"
abbreviation (input) ModeSticky :: nat where "ModeSticky \<equiv> 0x100000"

definition chmod_bits :: "u32 \<Rightarrow> u16" where
  "chmod_bits perm =
    (let b0 = w16 (perm AND 0x1FF);
         b1 = (if has_flag perm ModeSetuid then b0 OR 0x800 else b0);
         b2 = (if has_flag perm ModeSetgid then b1 OR 0x400 else b1)
     in if has_flag perm ModeSticky then b2 OR 0x200 else b2)"

definition chmod_edit :: "u32 \<Rightarrow> inode \<Rightarrow> inode" where
  "chmod_edit perm i =
    (let old = u16_at (in_raw i) inodeOffMode;
         mode = (old AND 0xF000) OR chmod_bits perm
     in i\<lparr>in_raw := put_u16 (in_raw i) inodeOffMode mode, in_mode := mode\<rparr>)"

definition Chmod :: "'v safeio \<Rightarrow> u32 \<Rightarrow> int \<Rightarrow> gostring \<Rightarrow> u32 \<Rightarrow> (fsys, inode) io" where
  "Chmod S now fsOffset path perm = withInodeForUpdate S now fsOffset path (chmod_edit perm)"

definition chown_edit :: "u32 \<Rightarrow> u32 \<Rightarrow> inode \<Rightarrow> inode" where
  "chown_edit uid gid i =
    (let r1 = put_u16 (in_raw i) inodeOffUID (w16 uid);
         r2 = put_u16 r1 inodeOffUIDHigh (w16 (drop_bit 16 uid));
         r3 = put_u16 r2 inodeOffGID (w16 gid);
         r4 = put_u16 r3 inodeOffGIDHigh (w16 (drop_bit 16 gid))
     in i\<lparr>in_raw := r4\<rparr>)"

definition Chown :: "'v safeio \<Rightarrow> u32 \<Rightarrow> int \<Rightarrow> gostring \<Rightarrow> u32 \<Rightarrow> u32 \<Rightarrow> (fsys, inode) io" where
  "Chown S now fsOffset path uid gid = withInodeForUpdate S now fsOffset path (chown_edit uid gid)"

text \<open>\<open>time.Time.Unix()\<close> is an \<open>int64\<close>, cut to 32 bits when stored.\<close>

definition chtimes_edit :: "int \<Rightarrow> int \<Rightarrow> inode \<Rightarrow> inode" where
  "chtimes_edit atime mtime i =
    i\<lparr>in_raw := put_u32 (put_u32 (in_raw i) inodeOffATime (nat (atime mod 4294967296)))
        inodeOffMTime (nat (mtime mod 4294967296))\<rparr>"

definition Chtimes :: "'v safeio \<Rightarrow> u32 \<Rightarrow> int \<Rightarrow> gostring \<Rightarrow> int \<Rightarrow> int \<Rightarrow> (fsys, inode) io" where
  "Chtimes S now fsOffset path atime mtime = withInodeForUpdate S now fsOffset path (chtimes_edit atime mtime)"

definition GetFlags :: "'v safeio \<Rightarrow> int \<Rightarrow> gostring \<Rightarrow> (fsys, u32) io" where
  "GetFlags S fsOffset path =
    io_bind (op_read (\<lambda>f sb. lookupPath S f fsOffset sb path)) (\<lambda>i. io_return (inode_flags i))"

definition SetFlags :: "'v safeio \<Rightarrow> int \<Rightarrow> gostring \<Rightarrow> u32 \<Rightarrow> (fsys, inode) io" where
  "SetFlags S fsOffset path flags =
    io_bind (op_read (\<lambda>f sb. lookupPath S f fsOffset sb path)) (\<lambda>i.
      op_dev (\<lambda>sb. writeInode fsOffset sb (i\<lparr>in_raw := put_u32 (in_raw i) inodeOffFlags flags\<rparr>)))"

abbreviation (input) MaxLabelLen :: nat where "MaxLabelLen \<equiv> 16"

definition label_raw :: "byte list \<Rightarrow> gostring \<Rightarrow> byte list" where
  "label_raw raw label =
    (let r1 = put_bytes raw 120 (zeros 16);
         r2 = put_bytes r1 120 label
     in if has_flag (u32_at r2 100) FeatROCompatMetadataCsum
        then put_sb_csum r2 else r2)"

definition SetLabel :: "int \<Rightarrow> gostring \<Rightarrow> (fsys, unit) io" where
  "SetLabel fsOffset label s =
    (if length label > MaxLabelLen then (Inl ErrLabelTooLong, s)
     else case ReadAt (fs_dev s) (i64 (fsOffset + 1024)) superblockSize of
       Inl err \<Rightarrow> (Inl err, s)
     | Inr raw0 \<Rightarrow>
       if u16_at raw0 56 \<noteq> 0xEF53 then (Inl ErrBadMagic, s)
       else
         let raw = label_raw raw0 label
         in case WriteAt (i64 (fsOffset + 1024)) raw (fs_dev s) of
              (Inl err, f') \<Rightarrow> (Inl err, s\<lparr>fs_dev := f'\<rparr>)
            | (Inr _, f') \<Rightarrow>
                let sbRaw = put_bytes (put_bytes (sb_raw (fs_sb s)) 120 (bytes_at raw 120 16)) 0x3FC (bytes_at raw 0x3FC 4)
                in (Inr (), s\<lparr>fs_dev := f',
                      fs_sb := (fs_sb s)\<lparr>sb_raw := sbRaw, Label := decodeNullPadded (bytes_at raw 120 16)\<rparr>\<rparr>))"

section \<open>Mode bits\<close>

lemma has_flag_bit: "has_flag x (2 ^ k) \<longleftrightarrow> bit x k"
  by (simp add: has_flag_def and_exp_eq_0_iff_not_bit)

lemma mode_flags:
  "has_flag perm ModeSetuid \<longleftrightarrow> bit perm 23" "has_flag perm ModeSetgid \<longleftrightarrow> bit perm 22" "has_flag perm ModeSticky \<longleftrightarrow> bit perm 20"
  using has_flag_bit [of perm 23] has_flag_bit [of perm 22] has_flag_bit [of perm 20] by simp_all

lemma bit_numerals:
  "bit (0x800 :: nat) k \<longleftrightarrow> k = 11" "bit (0x400 :: nat) k \<longleftrightarrow> k = 10" "bit (0x200 :: nat) k \<longleftrightarrow> k = 9"
  using bit_exp_iff [of 11 k, where 'a = nat] bit_exp_iff [of 10 k, where 'a = nat] bit_exp_iff [of 9 k, where 'a = nat]
  by (auto simp: possible_bit_def)

lemma bit_chmod_bits:
  "bit (chmod_bits perm) k \<longleftrightarrow>
    (k < 9 \<and> bit perm k) \<or> (k = 9 \<and> bit perm 20) \<or> (k = 10 \<and> bit perm 22) \<or> (k = 11 \<and> bit perm 23)"
proof -
  have "perm AND 0x1FF = take_bit 9 perm"
    by (simp add: take_bit_eq_mask mask_eq_exp_minus_1)
  moreover have "w16 (take_bit 9 perm) = take_bit 9 perm"
    using take_bit_nat_less_exp [of 9 perm] by simp
  ultimately have "bit (w16 (perm AND 0x1FF)) k \<longleftrightarrow> k < 9 \<and> bit perm k"
    by (simp add: bit_take_bit_iff)
  then show ?thesis
    by (auto simp: chmod_bits_def Let_def mode_flags bit_or_iff bit_numerals)
qed

lemma bit_F000: "bit (0xF000 :: nat) k \<longleftrightarrow> 12 \<le> k \<and> k < 16"
proof -
  have "bit (push_bit 12 (mask 4 :: nat)) k \<longleftrightarrow> 12 \<le> k \<and> k < 16"
    by (auto simp: bit_push_bit_iff bit_mask_iff possible_bit_def)
  moreover have "push_bit 12 (mask 4) = (0xF000 :: nat)"
    by (simp add: push_bit_eq_mult mask_eq_exp_minus_1)
  ultimately show ?thesis
    by simp
qed

section \<open>Editing an inode in place\<close>

text \<open>The slot of an inode does not overlap the descriptor of its group.\<close>

definition inode_slot_ok :: "device \<Rightarrow> int \<Rightarrow> superblock \<Rightarrow> u32 \<Rightarrow> bool" where
  "inode_slot_ok f fsOffset sb num \<longleftrightarrow>
    (case readBGD f fsOffset sb (inode_group sb num) of
       Inl _ \<Rightarrow> False
     | Inr d \<Rightarrow> desc_range_apart fsOffset sb (inode_group sb num) (i64 (fsOffset + inode_off_in sb d num)) (InodeSize sb))"

text \<open>The range of the device that holds an inode.\<close>

definition inode_off :: "device \<Rightarrow> int \<Rightarrow> superblock \<Rightarrow> u32 \<Rightarrow> int" where
  "inode_off f fsOffset sb num =
    (case readBGD f fsOffset sb (inode_group sb num) of
       Inl _ \<Rightarrow> 0
     | Inr d \<Rightarrow> i64 (fsOffset + inode_off_in sb d num))"

definition outside :: "int \<Rightarrow> nat \<Rightarrow> int \<Rightarrow> nat \<Rightarrow> bool" where
  "outside base len off n \<longleftrightarrow> off + int n \<le> base \<or> base + int len \<le> off"

lemma readInode_range:
  assumes "readInode f fsOffset sb num = Inr i"
  shows "0 < num" "num \<le> InodesCount sb" "InodesPerGroup sb \<noteq> 0" "in_num i = num" "inode_wf sb i"
proof -
  show "0 < num" "num \<le> InodesCount sb" "InodesPerGroup sb \<noteq> 0"
    using assms by (auto simp: readInode_eq split: if_splits)
  show "in_num i = num" "inode_wf sb i"
    using assms by (auto simp: readInode_eq res_bind_Inr_iff decode_inode_def [of num] split: if_splits
        dest!: ReadAt_length intro: decode_inode_wf [unfolded decode_inode_def])
qed

lemma writeInode_frame:
  assumes w: "writeInode fsOffset sb i f = (Inr i', f')" and num: "0 < in_num i" "in_num i < 4294967296"
    and wf: "inode_wf sb i" "128 \<le> InodeSize sb"
    and r: "ReadAt f off n = Inr b" "outside (inode_off f fsOffset sb (in_num i)) (InodeSize sb) off n"
  shows "ReadAt f' off n = Inr b"
proof -
  have s: "sub32 (in_num i) 1 = in_num i - 1"
    by (rule sub32_1) (use num in auto)
  have ipg: "InodesPerGroup sb \<noteq> 0"
    using w by (auto simp: writeInode_def split: if_splits)
  obtain d where d: "readBGD f fsOffset sb (inode_group sb (in_num i)) = Inr d"
    using w ipg by (cases "readBGD f fsOffset sb (inode_group sb (in_num i))") (simp_all add: writeInode_def s [simplified] inode_group_def)
  define p where "p = i64 (fsOffset + inode_off_in sb d (in_num i))"
  have "writeInode fsOffset sb i f =
    (case WriteAt p (in_raw (inode_writeBuf sb i)) f of
       (Inl e, f'') \<Rightarrow> (Inl e, f'')
     | (Inr _, f'') \<Rightarrow> (Inr (inode_writeBuf sb i), f''))"
    using ipg d unfolding writeInode_def s p_def inode_off_in_def inode_index_def inode_group_def
    by (simp only: writeAtWithTrace_eq Let_def if_False sum.case)
  with w obtain k where wr: "WriteAt p (in_raw (inode_writeBuf sb i)) f = (Inr k, f')"
    by (auto split: prod.splits sum.splits)
  have "length (in_raw (inode_writeBuf sb i)) = InodeSize sb"
    using inode_writeBuf_wf [OF wf] by (simp add: inode_wf_def)
  moreover have "inode_off f fsOffset sb (in_num i) = p"
    using d by (simp add: inode_off_def p_def)
  ultimately show ?thesis
    using r(2) dv.read_frame [OF wr r(1)] by (auto simp: outside_def)
qed

lemma ctime_wf:
  "inode_wf sb i \<Longrightarrow> 128 \<le> InodeSize sb \<Longrightarrow> inode_wf sb (i\<lparr>in_raw := put_u32 (in_raw i) inodeOffCTime now\<rparr>)"
  by (simp add: inode_wf_iff codec_simps)

lemma withInode_effect:
  assumes w: "withInodeForUpdate S now fsOffset path edit s = (Inr i', s')"
    and edit: "\<And>i. inode_wf (fs_sb s) i \<Longrightarrow> inode_wf (fs_sb s) (edit i) \<and> in_num (edit i) = in_num i"
    and lk: "lookupPath S (fs_dev s) fsOffset (fs_sb s) path = Inr i0"
    and sb: "128 \<le> InodeSize (fs_sb s)" "InodesCount (fs_sb s) < 4294967296" "inode_slot_ok (fs_dev s) fsOffset (fs_sb s) (in_num i0)"
  obtains i where "readInode (fs_dev s) fsOffset (fs_sb s) (in_num i0) = Inr i" "inode_wf (fs_sb s) i" "in_num i = in_num i0"
    "i' = inode_writeBuf (fs_sb s) ((edit i)\<lparr>in_raw := put_u32 (in_raw (edit i)) inodeOffCTime now\<rparr>)"
    "readInode (fs_dev s') fsOffset (fs_sb s') (in_num i0) = Inr i'" "fs_sb s' = fs_sb s"
    "\<And>off n b. ReadAt (fs_dev s) off n = Inr b \<Longrightarrow>
       outside (inode_off (fs_dev s) fsOffset (fs_sb s) (in_num i0)) (InodeSize (fs_sb s)) off n \<Longrightarrow> ReadAt (fs_dev s') off n = Inr b"
proof -
  from w lk obtain i where i: "readInode (fs_dev s) fsOffset (fs_sb s) (in_num i0) = Inr i"
    and wr: "op_dev (\<lambda>sb. writeInode fsOffset sb ((edit i)\<lparr>in_raw := put_u32 (in_raw (edit i)) inodeOffCTime now\<rparr>)) s = (Inr i', s')"
    by (auto simp: withInodeForUpdate_def io_bind_Inr_iff op_read_def Let_def)
  note r = readInode_range [OF i]
  define j where "j = (edit i)\<lparr>in_raw := put_u32 (in_raw (edit i)) inodeOffCTime now\<rparr>"
  have j: "inode_wf (fs_sb s) j" "in_num j = in_num i0"
    using edit [OF r(5)] r(4) ctime_wf [OF _ sb(1)] by (simp_all add: j_def)
  from wr obtain f' where w': "writeInode fsOffset (fs_sb s) j (fs_dev s) = (Inr i', f')" and s': "s' = s\<lparr>fs_dev := f'\<rparr>"
    by (auto simp: op_dev_def on_dev_Inr j_def)
  obtain d where d: "readBGD (fs_dev s) fsOffset (fs_sb s) (inode_group (fs_sb s) (in_num i0)) = Inr d"
    "desc_range_apart fsOffset (fs_sb s) (inode_group (fs_sb s) (in_num i0)) (i64 (fsOffset + inode_off_in (fs_sb s) d (in_num i0))) (InodeSize (fs_sb s))"
    using sb(3) by (auto simp: inode_slot_ok_def split: sum.splits)
  from write_read_inode_aux [OF w' j(1) sb(1) _ _ sb(2)] r(1,2) d j(2)
  have rb: "readInode f' fsOffset (fs_sb s) (in_num i0) = Inr i'" "i' = inode_writeBuf (fs_sb s) j"
    by simp_all
  have fr: "ReadAt (fs_dev s') off n = Inr b" if "ReadAt (fs_dev s) off n = Inr b"
       "outside (inode_off (fs_dev s) fsOffset (fs_sb s) (in_num i0)) (InodeSize (fs_sb s)) off n" for off n b
    using writeInode_frame [OF w' _ _ j(1) sb(1) that(1)] that(2) j(2) r(1,2) sb(2) by (simp add: s')
  show ?thesis
    using that [OF i r(5,4)] rb fr by (simp add: s' j_def)
qed

section \<open>Properties of the edits\<close>

lemma chmod_wf:
  assumes "inode_wf sb i" "128 \<le> InodeSize sb"
  shows "inode_wf sb (chmod_edit perm i) \<and> in_num (chmod_edit perm i) = in_num i"
proof -
  define mode where "mode = (u16_at (in_raw i) 0 AND 0xF000) OR chmod_bits perm"
  have "take_bit 16 mode = mode"
    by (rule bit_eqI) (auto simp: mode_def bit_take_bit_iff bit_or_iff bit_and_iff bit_F000 bit_chmod_bits)
  then have "mode < 65536"
    using take_bit_nat_eq_self_iff [of 16 mode] by simp
  then show ?thesis
    using assms by (simp add: chmod_edit_def Let_def mode_def [symmetric] inode_wf_iff codec_simps)
qed

lemma nth_put_keep:
  "off + 2 \<le> length buf \<Longrightarrow> k < off \<or> off + 2 \<le> k \<Longrightarrow> k < length buf \<Longrightarrow> put_u16 buf off v ! k = buf ! k"
  "off + 4 \<le> length buf \<Longrightarrow> k < off \<or> off + 4 \<le> k \<Longrightarrow> k < length buf \<Longrightarrow> put_u32 buf off v ! k = buf ! k"
  by (auto simp: put_u16_def put_u32_def nth_put_bytes)

lemma inode_writeBuf_fields:
  assumes "inode_wf sb i" "128 \<le> InodeSize sb"
  shows "in_mode (inode_writeBuf sb i) = in_mode i" "in_size (inode_writeBuf sb i) = in_size i"
    "u32_at (in_raw (inode_writeBuf sb i)) 12 = u32_at (in_raw i) 12"
    "k < InodeSize sb \<Longrightarrow> k < 124 \<or> 126 \<le> k \<and> k < 130 \<or> 132 \<le> k \<Longrightarrow> in_raw (inode_writeBuf sb i) ! k = in_raw i ! k"
  using assms by (auto simp: inode_writeBuf_def computeInodeCsum_def Let_def inode_wf_def codec_simps nth_put_keep)

text \<open>C28: a successful \<open>Chmod\<close> leaves the inode of the path on the device with the nine permission
  bits and the set-uid, set-gid and sticky bits asked for and the file type it had; besides the
  mode, the change time and the checksum no byte of the inode differs, and no range outside the
  inode does.\<close>

theorem Chmod_effect:
  assumes c: "Chmod S now fsOffset path perm s = (Inr i', s')"
    and lk: "lookupPath S (fs_dev s) fsOffset (fs_sb s) path = Inr i0"
    and i: "readInode (fs_dev s) fsOffset (fs_sb s) (in_num i0) = Inr i"
    and sb: "128 \<le> InodeSize (fs_sb s)" "InodesCount (fs_sb s) < 4294967296" "inode_slot_ok (fs_dev s) fsOffset (fs_sb s) (in_num i0)"
  shows "readInode (fs_dev s') fsOffset (fs_sb s') (in_num i0) = Inr i'
    \<and> (\<forall>k < 16. bit (in_mode i') k =
          (if k < 9 then bit perm k else if k = 9 then bit perm 20 else if k = 10 then bit perm 22
           else if k = 11 then bit perm 23 else bit (in_mode i) k))
    \<and> u32_at (in_raw i') 12 = now mod 4294967296
    \<and> (\<forall>k < InodeSize (fs_sb s). k \<notin> {0, 1, 12, 13, 14, 15, 124, 125, 130, 131} \<longrightarrow> in_raw i' ! k = in_raw i ! k)
    \<and> (\<forall>off n b. ReadAt (fs_dev s) off n = Inr b
         \<and> outside (inode_off (fs_dev s) fsOffset (fs_sb s) (in_num i0)) (InodeSize (fs_sb s)) off n
           \<longrightarrow> ReadAt (fs_dev s') off n = Inr b)"
proof -
  define j where "j = (chmod_edit perm i)\<lparr>in_raw := put_u32 (in_raw (chmod_edit perm i)) 12 now\<rparr>"
  have c': "withInodeForUpdate S now fsOffset path (chmod_edit perm) s = (Inr i', s')"
    using c by (simp add: Chmod_def)
  from chmod_wf [OF _ sb(1)] have e: "\<And>i. inode_wf (fs_sb s) i \<Longrightarrow>
      inode_wf (fs_sb s) (chmod_edit perm i) \<and> in_num (chmod_edit perm i) = in_num i"
    by blast
  from withInode_effect [OF c' e lk sb] i
  have wf: "inode_wf (fs_sb s) i" and i': "i' = inode_writeBuf (fs_sb s) j"
    and rd: "readInode (fs_dev s') fsOffset (fs_sb s') (in_num i0) = Inr i'"
    and fr: "\<And>off n b. ReadAt (fs_dev s) off n = Inr b \<Longrightarrow>
       outside (inode_off (fs_dev s) fsOffset (fs_sb s) (in_num i0)) (InodeSize (fs_sb s)) off n \<Longrightarrow> ReadAt (fs_dev s') off n = Inr b"
    unfolding j_def by (metis Inr_inject)+
  have wj: "inode_wf (fs_sb s) j"
    unfolding j_def by (intro ctime_wf) (use e [OF wf] sb(1) in blast)+
  note f = inode_writeBuf_fields [OF wj sb(1)]
  have len: "length (in_raw i) = InodeSize (fs_sb s)"
    using wf by (simp add: inode_wf_def)
  have "in_mode i = u16_at (in_raw i) 0"
    using wf by (simp add: inode_wf_iff)
  then have "in_mode i' = (in_mode i AND 0xF000) OR chmod_bits perm"
    by (simp add: i' f(1)) (simp add: j_def chmod_edit_def Let_def)
  then have bits: "\<forall>k < 16. bit (in_mode i') k =
          (if k < 9 then bit perm k else if k = 9 then bit perm 20 else if k = 10 then bit perm 22
           else if k = 11 then bit perm 23 else bit (in_mode i) k)"
    by (auto simp: bit_or_iff bit_and_iff bit_F000 bit_chmod_bits)
  have "u32_at (in_raw i') 12 = now mod 4294967296"
    using len sb(1) by (simp add: i' f(3)) (simp add: j_def chmod_edit_def Let_def codec_simps)
  moreover have "\<forall>k < InodeSize (fs_sb s). k \<notin> {0, 1, 12, 13, 14, 15, 124, 125, 130, 131} \<longrightarrow> in_raw i' ! k = in_raw i ! k"
  proof (intro allI impI)
    fix k
    assume k: "k < InodeSize (fs_sb s)" "k \<notin> {0, 1, 12, 13, 14, 15, 124, 125, 130, 131}"
    then have "k < 124 \<or> 126 \<le> k \<and> k < 130 \<or> 132 \<le> k" "2 \<le> k" "k < 12 \<or> 16 \<le> k"
      by auto
    then show "in_raw i' ! k = in_raw i ! k"
      using k(1) len sb(1) by (simp add: i' f(4)) (simp add: j_def chmod_edit_def Let_def nth_put_keep)
  qed
  ultimately show ?thesis
    using rd bits fr by blast
qed

definition tree_fs :: fsys where
  "tree_fs = \<lparr>fs_dev = tree_dev, fs_sb = mini_sb\<rparr>"

lemma tree_fs_simps [simp]: "fs_dev tree_fs = tree_dev" "fs_sb tree_fs = mini_sb"
  by (simp_all add: tree_fs_def)

lemma tree_writable [simp]: "dev_writable tree_dev"
  by (simp add: dev_writable_def tree_dev_def)

lemma tree_root: "lookupPath S tree_dev 0 mini_sb [47] = Inr (tree_inode 2)"
  by (simp add: lookupPath_def lookupPathFrom.simps tree_readInode)

lemma tree_slot: "n \<in> {1, 2, 3, 4} \<Longrightarrow> inode_slot_ok tree_dev 0 mini_sb n"
  by (auto simp: inode_slot_ok_def inode_group_def tree_desc desc_range_apart_def inode_off_in_def inode_index_def mini_bgd_def)

theorem Chmod_effect_witness:
  "\<exists>i' s'. Chmod safeio_ref 7 0 [47] 0x1C0 tree_fs = (Inr i', s') \<and> readInode (fs_dev s') 0 (fs_sb s') 2 = Inr i'
     \<and> bit (in_mode i') 8 \<and> \<not> bit (in_mode i') 2 \<and> u32_at (in_raw i') 12 = 7"
proof -
  have num: "in_num (tree_inode 2) = 2" "readInode tree_dev 0 mini_sb 2 = Inr (tree_inode 2)"
    by (simp_all add: tree_readInode)
  have "\<exists>i' s'. Chmod safeio_ref 7 0 [47] 0x1C0 tree_fs = (Inr i', s')"
    using num
    by (simp add: Chmod_def withInodeForUpdate_def io_bind_def op_read_def tree_root op_dev_def on_dev_def Let_def
        chmod_edit_def writeInode_def sub32_ge tree_desc writeAtWithTrace_eq WriteAt_def tree_writable mini_bgd_def)
  then obtain i' s' where c: "Chmod safeio_ref 7 0 [47] 0x1C0 tree_fs = (Inr i', s')"
    by blast
  have "bit (0x1C0 :: nat) 8" "\<not> bit (0x1C0 :: nat) 2"
    by (simp_all add: bit_iff_odd)
  with Chmod_effect [OF c, of "tree_inode 2" "tree_inode 2"] c num tree_slot [of 2] show ?thesis
    by (simp add: tree_root)
qed

section \<open>The label\<close>

lemma decodeNullPadded_pad:
  "label = [] \<or> last label \<noteq> 0 \<Longrightarrow> decodeNullPadded (label @ replicate n 0) = label"
proof -
  assume "label = [] \<or> last label \<noteq> 0"
  then have "dropWhile (\<lambda>c. c = 0) (rev label) = rev label"
    by (cases label rule: rev_cases) auto
  moreover have "dropWhile (\<lambda>c. c = 0) (replicate n 0 @ rev label) = dropWhile (\<lambda>c. c = 0) (rev label)"
    by (simp add: dropWhile_append)
  ultimately show ?thesis
    by (simp add: decodeNullPadded_def)
qed

lemma length_label_raw [simp]: "length raw = 1024 \<Longrightarrow> length label \<le> 16 \<Longrightarrow> length (label_raw raw label) = 1024"
  by (simp add: label_raw_def Let_def)

lemma label_raw_field:
  assumes "length raw = 1024" "length label \<le> 16"
  shows "bytes_at (label_raw raw label) 120 16 = label @ replicate (16 - length label) 0"
proof -
  define r where "r = put_bytes (put_bytes raw 120 (zeros 16)) 120 label"
  have "bytes_at r 120 16 = label @ replicate (16 - length label) 0"
    using assms by (intro nth_equalityI) (auto simp: r_def nth_put_bytes nth_append zeros_def)
  moreover have "bytes_at (put_sb_csum r) 120 16 = bytes_at r 120 16"
    using assms by (simp add: put_sb_csum_def Let_def put_u32_def bytes_at_put_bytes_other r_def)
  ultimately show ?thesis
    by (simp add: label_raw_def Let_def r_def)
qed

lemma label_raw_keeps:
  assumes "length raw = 1024" "length label \<le> 16" "k < 120 \<or> 136 \<le> k" "k < 1020"
  shows "label_raw raw label ! k = raw ! k"
  using assms by (auto simp: label_raw_def Let_def put_sb_csum_def put_u32_def nth_put_bytes)

lemma u32_100_label_raw:
  assumes "length raw = 1024" "length label \<le> 16"
  shows "u32_at (label_raw raw label) 100 = u32_at raw 100"
proof -
  have "bytes_at (label_raw raw label) 100 4 = bytes_at raw 100 4"
    by (rule nth_equalityI) (use assms in \<open>simp_all add: label_raw_keeps\<close>)
  then show ?thesis
    by (simp add: u32_at_def)
qed

text \<open>C29: a successful \<open>SetLabel\<close> with a label that does not end in a zero byte stores a superblock
  whose label field decodes to that label, in memory and on the device; every byte of the
  superblock outside the label and the checksum is the one that was on the device before, the
  checksum is valid when the feature is on, and no range outside the superblock changes.\<close>

theorem SetLabel_stores:
  assumes sl: "SetLabel fsOffset label s = (Inr (), s')" and nz: "label = [] \<or> last label \<noteq> 0"
    and raw0: "ReadAt (fs_dev s) (i64 (fsOffset + 1024)) 1024 = Inr raw0"
  shows "\<exists>raw. ReadAt (fs_dev s') (i64 (fsOffset + 1024)) 1024 = Inr raw
    \<and> decodeNullPadded (bytes_at raw 120 16) = label \<and> Label (fs_sb s') = label
    \<and> (\<forall>k < 1020. k < 120 \<or> 136 \<le> k \<longrightarrow> raw ! k = raw0 ! k)
    \<and> (has_flag (u32_at raw 100) FeatROCompatMetadataCsum \<longrightarrow> u32_at raw 1020 = crc32c 0xFFFFFFFF (take 1020 raw))
    \<and> (\<forall>off n b. ReadAt (fs_dev s) off n = Inr b \<and> outside (i64 (fsOffset + 1024)) 1024 off n
         \<longrightarrow> ReadAt (fs_dev s') off n = Inr b)"
proof -
  define raw where "raw = label_raw raw0 label"
  have len0: "length raw0 = 1024"
    using raw0 by (rule ReadAt_length)
  have len: "length label \<le> 16"
    using sl by (auto simp: SetLabel_def split: if_splits)
  obtain k f' where w: "WriteAt (i64 (fsOffset + 1024)) raw (fs_dev s) = (Inr k, f')"
    and s': "fs_dev s' = f'" "Label (fs_sb s') = decodeNullPadded (bytes_at raw 120 16)"
    using sl raw0 len by (auto simp: SetLabel_def Let_def raw_def split: if_splits prod.splits sum.splits)
  have len1: "length raw = 1024"
    using len0 len by (simp add: raw_def)
  have lab: "decodeNullPadded (bytes_at raw 120 16) = label"
    using decodeNullPadded_pad [OF nz] by (simp add: raw_def label_raw_field [OF len0 len])
  have "ReadAt f' (i64 (fsOffset + 1024)) 1024 = Inr raw"
    using dv.read_back [OF w] len1 by simp
  moreover have "u32_at raw 1020 = crc32c 0xFFFFFFFF (take 1020 raw)"
    if "has_flag (u32_at raw 100) FeatROCompatMetadataCsum"
  proof -
    define r where "r = put_bytes (put_bytes raw0 120 (zeros 16)) 120 label"
    have lr: "length r = 1024"
      using len0 len by (simp add: r_def)
    have "u32_at r 100 = u32_at raw0 100"
      using len0 len by (simp add: r_def u32_at_def bytes_at_put_bytes_other)
    then have "raw = put_sb_csum r"
      using that u32_100_label_raw [OF len0 len] by (simp add: raw_def label_raw_def Let_def r_def [symmetric])
    then have eq: "raw = take 1020 r @ le_bytes 4 (crc32c 4294967295 (take 1020 r))"
      using lr by (simp add: put_sb_csum_def Let_def put_u32_def put_bytes_def)
    have "bytes_at raw 1020 4 = le_bytes 4 (crc32c 4294967295 (take 1020 raw))"
      using lr by (simp add: eq bytes_at_def)
    then show ?thesis
      by (simp add: u32_at_def)
  qed
  moreover have "ReadAt f' off n = Inr b" if "ReadAt (fs_dev s) off n = Inr b" "outside (i64 (fsOffset + 1024)) 1024 off n" for off n b
    using dv.read_frame [OF w that(1)] that(2) len1 by (auto simp: outside_def)
  moreover have "\<forall>k < 1020. k < 120 \<or> 136 \<le> k \<longrightarrow> raw ! k = raw0 ! k"
    using label_raw_keeps [OF len0 len] by (simp add: raw_def)
  ultimately show ?thesis
    using lab s' by (intro exI [of _ raw]) simp
qed

text \<open>A label that ends in a zero byte is cut when it is read back.\<close>

lemma label_trailing_zero: "decodeNullPadded (bytes_at (label_raw (zeros 1024) [97, 0]) 120 16) = [97]"
proof -
  have "bytes_at (label_raw (zeros 1024) [97, 0]) 120 16 = [97, 0] @ replicate 14 0"
    by (simp only: label_raw_field length_zeros list.size) (simp add: label_raw_field)
  also have "\<dots> = [97] @ replicate (Suc 14) 0"
    by (simp only: replicate_Suc append.simps)
  finally show ?thesis
    using decodeNullPadded_pad [of "[97]" "Suc 14"] by (simp del: replicate_Suc)
qed

definition label_fs :: fsys where
  "label_fs = \<lparr>fs_dev = dev_store mini_dev 1080 [0x53, 0xEF], fs_sb = mini_sb\<rparr>"

theorem SetLabel_stores_witness:
  "\<exists>s'. SetLabel 0 [97, 98] label_fs = (Inr (), s') \<and> Label (fs_sb s') = [97, 98]"
proof -
  define raw0 where "raw0 = map (dev_byte (fs_dev label_fs)) [1024..<1024 + 1024]"
  have r: "ReadAt (fs_dev label_fs) (i64 (0 + 1024)) 1024 = Inr raw0"
    unfolding ReadAt_Inr_iff raw0_def by (simp add: label_fs_def dev_store_def)
  have "bytes_at raw0 56 2 = [0x53, 0xEF]"
    unfolding raw0_def by (simp only: bytes_at_map_upt) (simp add: label_fs_def dev_store_def upt_conv_Cons)
  then have "u16_at raw0 56 = 0xEF53"
    by (simp add: u16_at_def)
  then have "\<exists>s'. SetLabel 0 [97, 98] label_fs = (Inr (), s')"
    using r by (simp add: SetLabel_def Let_def WriteAt_Inr_unless) (simp add: label_fs_def WriteAt_Inr_unless)
  then obtain s' where s: "SetLabel 0 [97, 98] label_fs = (Inr (), s')" ..
  from SetLabel_stores [OF s _ r] s show ?thesis
    by auto
qed

end
