(* ===== verification/Ops.thy ===== *)
theory Ops
  imports Metadata
begin

text \<open>
  The operations on the tree: \<open>addDirEntry\<close> (\<open>dir.go\<close>), \<open>prepareExtentChild\<close>, \<open>writeExtentTree\<close>,
  \<open>freeInodeBlocks\<close> (\<open>write.go\<close>), \<open>removeFile\<close>, \<open>removeDir\<close> (\<open>delete.go\<close>), \<open>makeDir\<close>
  (\<open>mkdir.go\<close>), \<open>makeSymlink\<close> (\<open>symlink.go\<close>), \<open>makeLink\<close> (\<open>link.go\<close>), \<open>rename\<close> (\<open>rename.go\<close>) and the
  readers of \<open>fs.go\<close>, on a file system without a journal.  What other goroutines decide for an
  allocator call is a function of the state it is made in.  A Go pointer to an inode that a
  callee changes is an inode the callee returns.
\<close>

section \<open>Directory entries\<close>

type_synonym ops_env = "fsys \<Rightarrow> alloc_env"

definition prepareExtentChild :: "ops_env \<Rightarrow> int \<Rightarrow> extentLeaf list \<Rightarrow> (fsys, u64) io" where
  "prepareExtentChild E fsOffset exts s =
    (if length exts > leafCap (fs_sb s) then (Inl ErrTooManyExtents, s)
     else io_bind (\<lambda>s. allocBlocks (E s) fsOffset 1 s) (\<lambda>bs.
          io_bind (op_dev (\<lambda>sb. writeRawBlock fsOffset sb (hd bs) (extent_child_buf sb exts))) (\<lambda>_.
          io_return (hd bs))) s)"

definition writeExtentTree :: "ops_env \<Rightarrow> int \<Rightarrow> extentLeaf list \<Rightarrow> inode \<Rightarrow> (fsys, inode) io" where
  "writeExtentTree E fsOffset exts i =
    (if length exts \<le> 4 then io_lift (\<lambda>_. setInlineExtents exts i)
     else io_bind (prepareExtentChild E fsOffset exts) (\<lambda>childBlock.
            io_return (set_index_root exts childBlock i)))"

fun insert_blocks :: "int \<Rightarrow> inode \<Rightarrow> u32 \<Rightarrow> gostring \<Rightarrow> u8 \<Rightarrow> (u64 \<times> u64) list \<Rightarrow> (fsys, bool) io" where
  "insert_blocks fsOffset dirIno childIno name fileType [] s = (Inr False, s)"
| "insert_blocks fsOffset dirIno childIno name fileType ((logBlock, physBlock) # bs) s =
    (if has_flag (inode_flags dirIno) InodeFlagHashIndex \<and> w32 logBlock = 0
     then insert_blocks fsOffset dirIno childIno name fileType bs s
     else case readRawBlock (fs_dev s) fsOffset (fs_sb s) physBlock of
       Inl err \<Rightarrow> (Inl err, s)
     | Inr buf \<Rightarrow>
       (case tryInsertDirEntry buf childIno name fileType (minDirentSize (length name)) of
          None \<Rightarrow> insert_blocks fsOffset dirIno childIno name fileType bs s
        | Some buf' \<Rightarrow>
            io_bind (op_dev (\<lambda>sb. writeRawBlock fsOffset sb physBlock (updateDirBlockCsum buf' sb dirIno)))
              (\<lambda>_. io_return True) s))"

definition grow_dir :: "superblock \<Rightarrow> u32 \<Rightarrow> inode \<Rightarrow> inode" where
  "grow_dir sb logBlock i =
    inode_writeBuf sb (setBlocks512 (w32 (w32 (logBlock + 1) * (BlockSize sb div 512)))
      (setSize (w64 (w32 (logBlock + 1) * BlockSize sb)) i))"

definition next_log :: "extentLeaf list \<Rightarrow> u32" where
  "next_log exts = (if exts = [] then 0 else w32 (LogBlock (last exts) + Count (last exts)))"

definition append_dir_block :: "ops_env \<Rightarrow> int \<Rightarrow> inode \<Rightarrow> extentLeaf list \<Rightarrow> u32 \<Rightarrow> gostring \<Rightarrow> u8 \<Rightarrow> (fsys, inode) io" where
  "append_dir_block E fsOffset dirIno exts childIno name fileType =
    io_bind (\<lambda>s. allocBlocks (E s) fsOffset 1 s) (\<lambda>newPhys.
    io_bind (op_dev (\<lambda>sb. writeRawBlock fsOffset sb (hd newPhys)
        (updateDirBlockCsum (writeDirEntry (zeros (BlockSize sb)) 0 childIno (w16 (BlockSize sb - 12)) name fileType) sb dirIno))) (\<lambda>_.
      let logBlock = next_log exts;
          exts' = exts @ [\<lparr>LogBlock = logBlock, PhysBlock = hd newPhys, Count = 1\<rparr>]
      in io_bind (writeExtentTree E fsOffset exts' dirIno) (\<lambda>i.
           op_dev (\<lambda>sb. writeInode fsOffset sb (grow_dir sb logBlock i)))))"

definition addDirEntry :: "ops_env \<Rightarrow> 'v safeio \<Rightarrow> int \<Rightarrow> inode \<Rightarrow> u32 \<Rightarrow> gostring \<Rightarrow> u8 \<Rightarrow> (fsys, inode) io" where
  "addDirEntry E S fsOffset dirIno childIno name fileType =
    io_bind (op_read (\<lambda>f sb. extents S f fsOffset sb dirIno)) (\<lambda>exts.
    io_bind (insert_blocks fsOffset dirIno childIno name fileType (ext_blocks exts)) (\<lambda>ok.
      if ok then io_return dirIno
      else append_dir_block E fsOffset dirIno exts childIno name fileType))"

section \<open>Removal\<close>

fun free_blocks :: "ops_env \<Rightarrow> int \<Rightarrow> u64 list \<Rightarrow> (fsys, unit) io" where
  "free_blocks E fsOffset [] s = (Inr (), s)"
| "free_blocks E fsOffset (b # bs) s =
    io_bind (\<lambda>s. freeBlock (E s) fsOffset b s) (\<lambda>_. free_blocks E fsOffset bs) s"

definition freeInodeBlocks :: "ops_env \<Rightarrow> 'v safeio \<Rightarrow> int \<Rightarrow> inode \<Rightarrow> (fsys, unit) io" where
  "freeInodeBlocks E S fsOffset i =
    (if \<not> has_flag (inode_flags i) InodeFlagExtents then io_return ()
     else io_bind (op_read (\<lambda>f sb. extents S f fsOffset sb i)) (\<lambda>exts.
            free_blocks E fsOffset (map snd (ext_blocks exts))))"

definition links_of :: "inode \<Rightarrow> u16" where
  "links_of i = u16_at (in_raw i) inodeOffLinksCount"

definition set_links :: "u16 \<Rightarrow> inode \<Rightarrow> inode" where
  "set_links n i = i\<lparr>in_raw := put_u16 (in_raw i) inodeOffLinksCount n\<rparr>"

definition decrementAndFreeInode :: "ops_env \<Rightarrow> 'v safeio \<Rightarrow> int \<Rightarrow> inode \<Rightarrow> (fsys, unit) io" where
  "decrementAndFreeInode E S fsOffset i =
    (let i' = set_links (links_of i - 1) i
     in if links_of i' > 0
        then io_bind (op_dev (\<lambda>sb. writeInode fsOffset sb i')) (\<lambda>_. io_return ())
        else io_bind (freeInodeBlocks E S fsOffset i') (\<lambda>_ s. freeInodeSlot (E s) fsOffset (in_num i') s))"

definition removeFile :: "ops_env \<Rightarrow> 'v safeio \<Rightarrow> int \<Rightarrow> gostring \<Rightarrow> (fsys, unit) io" where
  "removeFile E S fsOffset path s =
    (case lookupParent S (fs_dev s) fsOffset (fs_sb s) path of
       Inl err \<Rightarrow> (if err = ErrNotExist then Inr () else Inl err, s)
     | Inr (parent, name) \<Rightarrow>
       (case lookupPath S (fs_dev s) fsOffset (fs_sb s) path of
          Inl err \<Rightarrow> (if err = ErrNotExist then Inr () else Inl err, s)
        | Inr target \<Rightarrow>
          if \<not> isRegular target then (Inl ErrNotRegular, s)
          else io_bind (op_dev (\<lambda>sb. zeroDirEntry S fsOffset sb parent name)) (\<lambda>_.
                 decrementAndFreeInode E S fsOffset target) s))"

text \<open>
  \<open>removeDir\<close> recurses over the tree; the first argument bounds the depth, and running out of it
  stands for running out of stack.
\<close>

definition dot_names :: "gostring list" where
  "dot_names = [[46], [46, 46]]"

fun removeDir :: "nat \<Rightarrow> ops_env \<Rightarrow> 'v safeio \<Rightarrow> int \<Rightarrow> gostring \<Rightarrow> (fsys, unit) io"
  and remove_children :: "nat \<Rightarrow> ops_env \<Rightarrow> 'v safeio \<Rightarrow> int \<Rightarrow> gostring \<Rightarrow> DirEntry list \<Rightarrow> (fsys, unit) io" where
  "removeDir 0 E S fsOffset path s = (Inl Panic, s)"
| "removeDir (Suc n) E S fsOffset path s =
    (case lookupParent S (fs_dev s) fsOffset (fs_sb s) path of
       Inl err \<Rightarrow> (if err = ErrNotExist then Inr () else Inl err, s)
     | Inr (parentIno, name) \<Rightarrow>
       (case lookupPath S (fs_dev s) fsOffset (fs_sb s) path of
          Inl err \<Rightarrow> (if err = ErrNotExist then Inr () else Inl err, s)
        | Inr target \<Rightarrow>
          if \<not> isDir target then (Inl ErrNotDir, s)
          else case readDir S (fs_dev s) fsOffset (fs_sb s) target of
            Inl err \<Rightarrow> (Inl err, s)
          | Inr children \<Rightarrow>
            io_bind (remove_children n E S fsOffset path children) (\<lambda>_.
            io_bind (op_dev (\<lambda>sb. zeroDirEntry S fsOffset sb parentIno name)) (\<lambda>_.
            io_bind (freeInodeBlocks E S fsOffset target) (\<lambda>_.
            io_bind (\<lambda>s. freeInodeSlot (E s) fsOffset (in_num target) s) (\<lambda>_.
            io_bind (op_dev (\<lambda>sb. writeInode fsOffset sb (set_links (links_of parentIno - 1) parentIno))) (\<lambda>_.
              io_return ()))))) s))"
| "remove_children n E S fsOffset path [] s = (Inr (), s)"
| "remove_children n E S fsOffset path (e # es) s =
    (if de_Name e \<in> set dot_names then remove_children n E S fsOffset path es s
     else io_bind (if de_FileType e = FtDir then removeDir n E S fsOffset (path @ 47 # de_Name e)
                   else removeFile E S fsOffset (path @ 47 # de_Name e)) (\<lambda>_.
            remove_children n E S fsOffset path es) s)"

section \<open>Creation\<close>

text \<open>
  Re-reading the parent under its lock.  On failure the error message uses the inode just set to
  nil, which panics.
\<close>

definition refresh_parent :: "int \<Rightarrow> inode \<Rightarrow> (fsys, inode) io" where
  "refresh_parent fsOffset i =
    op_read (\<lambda>f sb. case readInode f fsOffset sb (in_num i) of Inl _ \<Rightarrow> Inl Panic | Inr i' \<Rightarrow> Inr i')"

definition name_taken :: "gostring \<Rightarrow> DirEntry list \<Rightarrow> bool" where
  "name_taken name entries \<longleftrightarrow> list_ex (\<lambda>e. de_Name e = name) entries"

definition dir_block :: "superblock \<Rightarrow> u32 \<Rightarrow> u32 \<Rightarrow> byte list" where
  "dir_block sb newInoNum parentNum =
    (let tailSize = (if has_flag (FeatureROCompat sb) FeatROCompatMetadataCsum then 12 else 0);
         b1 = put_u32 (zeros (BlockSize sb)) 0 newInoNum;
         b2 = put_u16 b1 4 (w16 (minDirentSize 1));
         b3 = put_u8 (put_u8 (put_u8 b2 6 1) 7 FtDir) 8 46;
         b4 = put_u32 b3 12 parentNum;
         b5 = put_u16 b4 16 (w16 (BlockSize sb - minDirentSize 1 - tailSize))
     in put_u8 (put_u8 (put_u8 (put_u8 b5 18 2) 19 FtDir) 20 46) 21 46)"

definition set_times :: "u32 \<Rightarrow> inode \<Rightarrow> inode" where
  "set_times now i = i\<lparr>in_raw := put_u32 (put_u32 (put_u32 (in_raw i) 8 now) 12 now) 16 now\<rparr>"

definition fresh_inode :: "superblock \<Rightarrow> u32 \<Rightarrow> inode" where
  "fresh_inode sb num = \<lparr>in_raw = zeros (InodeSize sb), in_num = num, in_size = 0, in_mode = 0\<rparr>"

definition one_block :: "u64 \<Rightarrow> extentLeaf list" where
  "one_block physBlock = [\<lparr>LogBlock = 0, PhysBlock = physBlock, Count = 1\<rparr>]"

definition dir_inode :: "superblock \<Rightarrow> u32 \<Rightarrow> u32 \<Rightarrow> u32 \<Rightarrow> u64 \<Rightarrow> inode" where
  "dir_inode sb now perm num physBlock =
    (let i = set_times now (setBlocks512 (BlockSize sb div 512) (setSize (BlockSize sb)
               (setMode (w16 (perm AND 0x1FF) OR 0x4000) 2 (fresh_inode sb num))))
     in case setInlineExtents (one_block physBlock) i of Inl _ \<Rightarrow> i | Inr i' \<Rightarrow> i')"

definition install_dir :: "ops_env \<Rightarrow> 'v safeio \<Rightarrow> u32 \<Rightarrow> int \<Rightarrow> u32 \<Rightarrow> inode \<Rightarrow> gostring \<Rightarrow> u32 \<Rightarrow> u64 \<Rightarrow> (fsys, inode) io" where
  "install_dir E S now fsOffset perm parentIno name newInoNum physBlock =
    io_bind (op_dev (\<lambda>sb. writeRawBlock fsOffset sb physBlock
        (updateDirBlockCsum (dir_block sb newInoNum (in_num parentIno)) sb (dir_inode sb now perm newInoNum physBlock)))) (\<lambda>_.
    io_bind (op_dev (\<lambda>sb. writeInode fsOffset sb (dir_inode sb now perm newInoNum physBlock))) (\<lambda>_.
    io_bind (addDirEntry E S fsOffset parentIno newInoNum name FtDir) (\<lambda>parent'.
      op_dev (\<lambda>sb. writeInode fsOffset sb (set_links (w16 (links_of parent' + 1)) parent')))))"

definition makeDir :: "ops_env \<Rightarrow> 'v safeio \<Rightarrow> u32 \<Rightarrow> int \<Rightarrow> gostring \<Rightarrow> u32 \<Rightarrow> (fsys, inode) io" where
  "makeDir E S now fsOffset path perm =
    io_bind (op_read (\<lambda>f sb. lookupParent S f fsOffset sb path)) (\<lambda>(parentIno, name).
    io_bind (op_read (\<lambda>f sb. readDir S f fsOffset sb parentIno)) (\<lambda>entries.
      if name_taken name entries then op_throw ErrMkdirExists
      else
        io_bind (\<lambda>s. allocInode (E s) fsOffset True s) (\<lambda>newInoNum.
        io_bind (\<lambda>s. allocBlocks (E s) fsOffset 1 s) (\<lambda>physBlocks.
        io_bind (\<lambda>s. writeSuperblock (ae_route (E s)) (ae_debug (E s)) fsOffset s) (\<lambda>_.
          install_dir E S now fsOffset perm parentIno name newInoNum (hd physBlocks))))))"

definition symlink_inode :: "superblock \<Rightarrow> u32 \<Rightarrow> gostring \<Rightarrow> u32 \<Rightarrow> inode" where
  "symlink_inode sb now target num =
    set_times now (setSize (length target) (setMode 0xA1FF 1 (fresh_inode sb num)))"

definition symlink_data :: "ops_env \<Rightarrow> int \<Rightarrow> gostring \<Rightarrow> inode \<Rightarrow> (fsys, inode) io" where
  "symlink_data E fsOffset target i =
    (if length target \<le> 60
     then io_return (setBlocks512 0 (i\<lparr>in_raw := put_bytes (in_raw i) inodeOffBlock target\<rparr>))
     else
       io_bind (\<lambda>s. allocBlocks (E s) fsOffset 1 s) (\<lambda>physBlocks.
       io_bind (op_dev (\<lambda>sb. writeRawBlock fsOffset sb (hd physBlocks) (put_bytes (zeros (BlockSize sb)) 0 target))) (\<lambda>_.
       io_bind (io_lift (\<lambda>_. setInlineExtents (one_block (hd physBlocks)) i)) (\<lambda>i1.
       io_bind (\<lambda>s. writeSuperblock (ae_route (E s)) (ae_debug (E s)) fsOffset s) (\<lambda>_.
         \<lambda>s. (Inr (setBlocks512 (BlockSize (fs_sb s) div 512) i1), s))))))"

definition makeSymlink :: "ops_env \<Rightarrow> 'v safeio \<Rightarrow> u32 \<Rightarrow> int \<Rightarrow> gostring \<Rightarrow> gostring \<Rightarrow> (fsys, inode) io" where
  "makeSymlink E S now fsOffset target linkPath =
    io_bind (op_read (\<lambda>f sb. lookupParent S f fsOffset sb linkPath)) (\<lambda>(parentIno0, name).
      if target = [] then op_throw ErrEmptyTarget
      else io_bind (\<lambda>s. if length target > BlockSize (fs_sb s) then (Inl ErrTargetTooLong, s) else (Inr (), s)) (\<lambda>_.
        io_bind (refresh_parent fsOffset parentIno0) (\<lambda>parentIno.
        io_bind (op_read (\<lambda>f sb. readDir S f fsOffset sb parentIno)) (\<lambda>entries.
          if name_taken name entries then op_throw ErrExist
          else
            io_bind (\<lambda>s. allocInode (E s) fsOffset False s) (\<lambda>newInoNum.
            io_bind (\<lambda>s. symlink_data E fsOffset target (symlink_inode (fs_sb s) now target newInoNum) s) (\<lambda>newIno.
            io_bind (op_dev (\<lambda>sb. writeInode fsOffset sb newIno)) (\<lambda>_.
              addDirEntry E S fsOffset parentIno newInoNum name FtSymlink)))))))"

definition makeLink :: "ops_env \<Rightarrow> 'v safeio \<Rightarrow> int \<Rightarrow> gostring \<Rightarrow> gostring \<Rightarrow> (fsys, inode) io" where
  "makeLink E S fsOffset oldPath newPath =
    io_bind (op_read (\<lambda>f sb. lookupParent S f fsOffset sb oldPath)) (\<lambda>(srcParent, srcName).
    io_bind (op_read (\<lambda>f sb. readDir S f fsOffset sb srcParent)) (\<lambda>srcEntries.
      let srcInoNum = (case find (\<lambda>e. de_Name e = srcName) srcEntries of None \<Rightarrow> 0 | Some e \<Rightarrow> de_Inode e)
      in if srcInoNum = 0 then op_throw ErrNotExist
      else
        io_bind (op_read (\<lambda>f sb. readInode f fsOffset sb srcInoNum)) (\<lambda>srcIno.
          if isDir srcIno then op_throw ErrLinkDir
          else
            io_bind (op_read (\<lambda>f sb. lookupParent S f fsOffset sb newPath)) (\<lambda>(newParent0, newName).
            io_bind (refresh_parent fsOffset newParent0) (\<lambda>newParent.
            io_bind (op_read (\<lambda>f sb. readDir S f fsOffset sb newParent)) (\<lambda>newEntries.
              if name_taken newName newEntries then op_throw ErrExist
              else
                io_bind (addDirEntry E S fsOffset newParent srcInoNum newName
                           (if isSymlink srcIno then FtSymlink else FtRegFile)) (\<lambda>_.
                io_bind (op_read (\<lambda>f sb. readInode f fsOffset sb srcInoNum)) (\<lambda>src2.
                  op_dev (\<lambda>sb. writeInode fsOffset sb (set_links (w16 (links_of src2 + 1)) src2))))))))))"

section \<open>Rename\<close>

definition find_inode :: "'v safeio \<Rightarrow> int \<Rightarrow> inode \<Rightarrow> gostring \<Rightarrow> (fsys, inode option) io" where
  "find_inode S fsOffset parent name =
    io_bind (op_read (\<lambda>f sb. readDir S f fsOffset sb parent)) (\<lambda>entries.
      case find (\<lambda>e. de_Name e = name) entries of
        None \<Rightarrow> io_return None
      | Some e \<Rightarrow> io_bind (op_read (\<lambda>f sb. readInode f fsOffset sb (de_Inode e))) (\<lambda>i. io_return (Some i)))"

definition replace_target :: "nat \<Rightarrow> ops_env \<Rightarrow> 'v safeio \<Rightarrow> int \<Rightarrow> gostring \<Rightarrow> inode \<Rightarrow> inode option \<Rightarrow> (fsys, unit) io" where
  "replace_target n E S fsOffset newPath srcIno dst =
    (case dst of
       None \<Rightarrow> io_return ()
     | Some dstIno \<Rightarrow>
         if isDir srcIno \<and> \<not> isDir dstIno then op_throw ErrReplaceNonDir
         else if \<not> isDir srcIno \<and> isDir dstIno then op_throw ErrReplaceDir
         else if isDir dstIno then removeDir n E S fsOffset newPath
         else removeFile E S fsOffset newPath)"

definition entry_type :: "inode \<Rightarrow> u8" where
  "entry_type i = (if isDir i then FtDir else if isSymlink i then FtSymlink else FtRegFile)"

text \<open>
  \<open>oldParent\<close> and \<open>newParent\<close> are two Go values even when they are the same directory; the entry
  is added through \<open>newParent\<close> and removed through \<open>oldParent\<close>.
\<close>

definition rename :: "nat \<Rightarrow> ops_env \<Rightarrow> 'v safeio \<Rightarrow> int \<Rightarrow> gostring \<Rightarrow> gostring \<Rightarrow> (fsys, unit) io" where
  "rename n E S fsOffset oldPath newPath =
    io_bind (op_read (\<lambda>f sb. lookupParent S f fsOffset sb oldPath)) (\<lambda>(oldParent, oldName).
    io_bind (op_read (\<lambda>f sb. lookupParent S f fsOffset sb newPath)) (\<lambda>(newParent, newName).
      if in_num oldParent = in_num newParent \<and> oldName = newName then io_return ()
      else
        io_bind (find_inode S fsOffset oldParent oldName) (\<lambda>src.
          case src of
            None \<Rightarrow> op_throw ErrNotExist
          | Some srcIno \<Rightarrow>
            io_bind (find_inode S fsOffset newParent newName) (\<lambda>dst.
            io_bind (replace_target n E S fsOffset newPath srcIno dst) (\<lambda>_.
            io_bind (addDirEntry E S fsOffset newParent (in_num srcIno) newName (entry_type srcIno)) (\<lambda>newParent'.
            io_bind (op_dev (\<lambda>sb. zeroDirEntry S fsOffset sb oldParent oldName)) (\<lambda>_.
              if isDir srcIno \<and> in_num oldParent \<noteq> in_num newParent then
                io_bind (op_dev (\<lambda>sb. updateDotDot S fsOffset sb srcIno (in_num newParent))) (\<lambda>_.
                io_bind (op_dev (\<lambda>sb. writeInode fsOffset sb (set_links (links_of oldParent - 1) oldParent))) (\<lambda>_.
                io_bind (op_dev (\<lambda>sb. writeInode fsOffset sb (set_links (w16 (links_of newParent' + 1)) newParent'))) (\<lambda>_.
                  io_return ())))
              else io_return ())))))))"

section \<open>Readers\<close>

definition ReadFile :: "'v safeio \<Rightarrow> int \<Rightarrow> gostring \<Rightarrow> (fsys, byte list) io" where
  "ReadFile S fsOffset path =
    io_bind (op_read (\<lambda>f sb. lookupPath S f fsOffset sb path)) (\<lambda>i.
      if \<not> isRegular i then op_throw ErrNotRegular
      else io_bind (op_read (\<lambda>f sb. readInode f fsOffset sb (in_num i))) (\<lambda>fresh.
             op_read (\<lambda>f sb. readFileData S f fsOffset sb fresh)))"

definition ListDir :: "'v safeio \<Rightarrow> int \<Rightarrow> gostring \<Rightarrow> (fsys, DirEntry list) io" where
  "ListDir S fsOffset path =
    io_bind (op_read (\<lambda>f sb. lookupPath S f fsOffset sb path)) (\<lambda>i.
      if \<not> isDir i then op_throw ErrNotDir
      else io_bind (op_read (\<lambda>f sb. readDir S f fsOffset sb i)) (\<lambda>entries.
             io_return (filter (\<lambda>e. de_Name e \<notin> set dot_names) entries)))"

definition StatPath :: "'v safeio \<Rightarrow> int \<Rightarrow> gostring \<Rightarrow> (fsys, u16 \<times> u64 \<times> u32) io" where
  "StatPath S fsOffset path =
    io_bind (op_read (\<lambda>f sb. lookupPath S f fsOffset sb path)) (\<lambda>i.
      io_return (in_mode i, in_size i, in_num i))"

definition ReadLink :: "'v safeio \<Rightarrow> int \<Rightarrow> gostring \<Rightarrow> (fsys, gostring) io" where
  "ReadLink S fsOffset path =
    (if path = [47] then op_throw ErrNotSymlink
     else io_bind (op_read (\<lambda>f sb. lookupParent S f fsOffset sb path)) (\<lambda>(parent, name).
       io_bind (find_inode S fsOffset parent name) (\<lambda>r.
         case r of
           None \<Rightarrow> op_throw ErrNotExist
         | Some i \<Rightarrow> if \<not> isSymlink i then op_throw ErrNotSymlink
                    else op_read (\<lambda>f sb. readSymlink S f fsOffset sb i))))"

end
