(* ===== verification/DirOps.thy ===== *)
theory DirOps
  imports Ops
begin

text \<open>
  What the directory operations do to a listing: \<open>addDirEntry\<close> adds exactly the new entry,
  \<open>zeroDirEntry\<close> frees the first record of the name and so removes the first entry when that
  record is in use, and the block of a new directory
  lists the two dot entries.  With metadata checksums a block ends in a 12-byte tail record.
\<close>

section \<open>The tail record\<close>

function reaches :: "byte list \<Rightarrow> nat \<Rightarrow> nat \<Rightarrow> bool" where
  "reaches buf t off =
    (if off = t then True
     else if off + 8 > length buf \<or> rec_len buf off < 8 \<or> off + rec_len buf off > t then False
     else reaches buf t (off + rec_len buf off))"
  by pat_completeness auto
termination
  by (relation "measure (\<lambda>(buf, t, off). t - off)") auto

declare reaches.simps [simp del]

text \<open>A block an update may checksum: the records reach the place of the tail, which is free or a tail.\<close>

definition dir_block_ok :: "superblock \<Rightarrow> byte list \<Rightarrow> bool" where
  "dir_block_ok sb buf \<longleftrightarrow> block_ok buf 0 \<and>
    (has_flag (FeatureROCompat sb) FeatROCompatMetadataCsum \<longrightarrow>
       20 \<le> length buf \<and> reaches buf (length buf - 12) 0
       \<and> (rec_len buf (length buf - 12) < 8
          \<or> rec_len buf (length buf - 12) = 12 \<and> rec_type buf (length buf - 12) = FtDirTail))"

lemma dir_block_okE:
  assumes "dir_block_ok sb buf" "has_flag (FeatureROCompat sb) FeatROCompatMetadataCsum"
  obtains t where "length buf = t + 12" "8 \<le> t" "block_ok buf 0" "reaches buf t 0"
    "rec_len buf t < 8 \<or> rec_len buf t = 12 \<and> rec_type buf t = FtDirTail"
proof -
  have "20 \<le> length buf"
    using assms by (simp add: dir_block_ok_def)
  then have len: "length buf = (length buf - 12) + 12"
    by simp
  define t where "t = length buf - 12"
  have len: "length buf = t + 12"
    using len by (simp only: t_def)
  show ?thesis
    by (rule that [of t]) (use assms len in \<open>auto simp: dir_block_ok_def t_def [symmetric]\<close>)
qed

lemma reaches_step:
  "off + 8 \<le> length buf \<Longrightarrow> 8 \<le> rec_len buf off \<Longrightarrow> off + rec_len buf off \<le> t \<Longrightarrow>
     reaches buf t off = reaches buf t (off + rec_len buf off)"
  by (subst reaches.simps) auto

lemma reaches_D:
  assumes "reaches buf t off" "off \<noteq> t"
  shows "off + 8 \<le> length buf" "8 \<le> rec_len buf off" "off + rec_len buf off \<le> t" "reaches buf t (off + rec_len buf off)"
  using assms by (auto simp: reaches.simps [of buf t off] split: if_splits)

lemma reaches_le: "reaches buf t off \<Longrightarrow> off \<le> t"
proof (induction buf t off rule: reaches.induct)
  case (1 buf t off)
  show ?case
  proof (cases "off = t")
    case False
    note d = reaches_D [OF 1(2) False]
    show ?thesis
      using d(3) by simp
  qed simp
qed

text \<open>Only the bytes below the end of the records matter.\<close>

lemma reaches_cong:
  assumes len: "length buf' = length buf"
  shows "reaches buf t off \<Longrightarrow> (\<And>o' n. off \<le> o' \<Longrightarrow> o' + n \<le> t \<Longrightarrow> bytes_at buf' o' n = bytes_at buf o' n) \<Longrightarrow> reaches buf' t off"
proof (induction "t - off" arbitrary: off rule: less_induct)
  case less
  show ?case
  proof (cases "off = t")
    case True
    then show ?thesis
      by (simp add: reaches.simps)
  next
    case False
    note d = reaches_D [OF less.prems(1) False]
    have "bytes_at buf' (off + 4) 2 = bytes_at buf (off + 4) 2"
      by (rule less.prems(2)) (use d in linarith)+
    then have rl: "rec_len buf' off = rec_len buf off"
      by (simp add: u16_at_def)
    have "reaches buf' t (off + rec_len buf off)"
      by (rule less.hyps [OF _ d(4)]) (use d reaches_le [OF d(4)] less.prems(2) in auto)
    then show ?thesis
      using reaches_step [of off buf' t] d rl len by simp
  qed
qed

text \<open>Inserting a record keeps the boundary of the tail.\<close>

lemma reaches_written:
  assumes "off + 8 + length name \<le> length buf" "ino < 4294967296" "recLen < 65536" "fileType < 256" "length name < 256"
    and "8 + length name \<le> recLen" "off + recLen \<le> t" "t \<le> length buf" "reaches buf t (off + recLen)"
  shows "reaches (writeDirEntry buf off ino recLen name fileType) t off"
proof -
  note f = writeDirEntry_fields [OF assms(1-5)]
  have "reaches (writeDirEntry buf off ino recLen name fileType) t (off + recLen)"
    by (rule reaches_cong [OF f(1) assms(9)], rule f(7)) (use assms(6) in auto)
  then show ?thesis
    using reaches_step [of off "writeDirEntry buf off ino recLen name fileType" t] assms f(1,3) by simp
qed

lemma insert_from_reaches:
  assumes name: "0 < length name" "length name < 256" and ino: "ino < 4294967296" and ft: "fileType < 256" "fileType \<noteq> FtDirTail"
    and needed: "needed = minDirentSize (length name)" and S: "checkBounds_ok S" and nz: "ino \<noteq> 0" and t: "t \<le> length buf"
    and tail: "rec_len buf t < 8 \<or> rec_type buf t = FtDirTail" "t + 8 \<le> length buf"
  shows "insert_from buf off ino name fileType needed = Some buf' \<Longrightarrow> reaches buf t off \<Longrightarrow>
    reaches buf' t off \<and> drop t buf' = drop t buf"
proof (induction "length buf - off" arbitrary: off rule: less_induct)
  case less
  define rl where "rl = rec_len buf off"
  define ml where "ml = minDirentSize (rec_nameLen buf off)"
  note c = insert_from_cases(1-4) [OF less.prems(1), folded rl_def]
  have "off \<noteq> t"
    using c(2,4) tail(1) unfolding rl_def by auto
  note d = reaches_D [OF less.prems(2) this, folded rl_def]
  have rl16: "rl < 65536"
    by (simp add: rl_def)
  have nd: "8 + length name \<le> needed"
    unfolding needed by (rule minDirentSize_bounds)
  from insert_from_cases(5) [OF less.prems(1), folded rl_def ml_def]
  consider (reuse) "needed \<le> rl" "buf' = writeDirEntry buf off ino rl name fileType"
    | (next_rec) "insert_from buf (off + rl) ino name fileType needed = Some buf'"
    | (split) "ml \<le> rl" "needed \<le> rl - ml"
        "buf' = writeDirEntry (put_u16 buf (off + 4) (w16 ml)) (off + ml) ino (w16 (rl - ml)) name fileType"
    by iprover
  then show ?case
  proof cases
    case reuse
    have fit: "off + 8 + length name \<le> length buf"
      using reuse(1) nd c by linarith
    have "drop t buf' = drop t buf"
      unfolding reuse(2) using writeDirEntry_fields [OF fit ino rl16 ft(1) name(2)] reuse(1) nd d(3) by (simp add: drop_eq_bytes)
    moreover have "reaches buf' t off"
      unfolding reuse(2) by (rule reaches_written) (use fit ino rl16 ft name reuse(1) nd d t in simp_all)
    ultimately show ?thesis
      by simp
  next
    case next_rec
    have "length buf - (off + rl) < length buf - off"
      using c by linarith
    note ih = less.hyps [OF this next_rec d(4)]
    note h = insert_from_parse [OF S name nz ino ft needed next_rec]
    have keep: "bytes_at buf' (off + 4) 2 = bytes_at buf (off + 4) 2" and len: "length buf' = length buf"
      using h c(2) by auto
    have "rec_len buf' off = rl"
      using keep by (simp add: u16_at_def rl_def)
    then have "reaches buf' t off"
      using ih reaches_step [of off buf' t] d(1-3) len by simp
    with ih show ?thesis
      by simp
  next
    case split
    define b where "b = put_u16 buf (off + 4) (w16 ml)"
    have mlb: "8 \<le> ml" "ml < 65536"
      using minDirentSize_bounds [of "rec_nameLen buf off"] split(1) rl16 by (simp_all add: ml_def)
    have lb: "length b = length buf"
      using c(1) by (simp add: b_def)
    have sub: "w16 (rl - ml) = rl - ml"
      using rl16 by simp
    have keepb: "bytes_at b o' n = bytes_at buf o' n" if "off + 6 \<le> o'" for o' n
      unfolding b_def using that c(1) by (auto simp: bytes_at_put_other)
    have fit: "off + ml + 8 + length name \<le> length b"
      using split(1,2) nd c lb by linarith
    have nt: "8 + length name \<le> rl - ml"
      using split(2) nd by linarith
    have rb: "reaches b t (off + rl)"
      by (rule reaches_cong [OF lb d(4)], rule keepb) (use c(2) in linarith)
    have sum: "off + ml + (rl - ml) = off + rl"
      using split(1) by simp
    have "rl - ml < 65536"
      using rl16 by linarith
    note f = writeDirEntry_fields [OF fit ino this ft(1) name(2)]
    have r1: "reaches buf' t (off + ml)"
      unfolding split(3) sub b_def [symmetric]
      by (rule reaches_written) (use fit ino rl16 ft name nt d t lb rb sum in simp_all)
    have "bytes_at buf' (off + 4) 2 = bytes_at b (off + 4) 2"
      unfolding split(3) sub b_def [symmetric] using f(7) mlb by simp
    moreover have "rec_len b off = ml"
      using mlb c(1) by (simp add: b_def codec_simps)
    ultimately have "rec_len buf' off = ml"
      by (simp add: u16_at_def)
    then have "reaches buf' t off"
      using r1 reaches_step [of off buf' t] mlb d(3) split(1) c(1) f(1) lb unfolding split(3) sub b_def [symmetric] by simp
    moreover have "bytes_at (writeDirEntry b (off + ml) ino (rl - ml) name fileType) t n = bytes_at b t n"
      "bytes_at b t n = bytes_at buf t n" for n
      using d(3) nt split(1) c(2) by (auto intro!: f(7) keepb)
    then have "drop t buf' = drop t buf"
      unfolding split(3) sub b_def [symmetric] using f(1) lb by (simp add: drop_eq_bytes)
    ultimately show ?thesis
      by simp
  qed
qed

text \<open>Writing the tail changes nothing that is listed.\<close>

lemma tail_written:
  assumes len: "length buf = t + 12"
  shows "length (updateDirBlockCsum buf sb i) = length buf"
    "o' + n \<le> t \<Longrightarrow> bytes_at (updateDirBlockCsum buf sb i) o' n = bytes_at buf o' n"
    "has_flag (FeatureROCompat sb) FeatROCompatMetadataCsum \<Longrightarrow> rec_len (updateDirBlockCsum buf sb i) t = 12"
    "has_flag (FeatureROCompat sb) FeatROCompatMetadataCsum \<Longrightarrow> rec_type (updateDirBlockCsum buf sb i) t = FtDirTail"
proof -
  have t: "length buf - 12 = t"
    using len by simp
  show "length (updateDirBlockCsum buf sb i) = length buf"
    "has_flag (FeatureROCompat sb) FeatROCompatMetadataCsum \<Longrightarrow> rec_len (updateDirBlockCsum buf sb i) t = 12"
    "has_flag (FeatureROCompat sb) FeatROCompatMetadataCsum \<Longrightarrow> rec_type (updateDirBlockCsum buf sb i) t = FtDirTail"
    using len by (simp_all add: updateDirBlockCsum_def Let_def t codec_simps)
  show "o' + n \<le> t \<Longrightarrow> bytes_at (updateDirBlockCsum buf sb i) o' n = bytes_at buf o' n"
    using len by (auto simp: updateDirBlockCsum_def Let_def t bytes_at_put_other)
qed

lemma parse_tail:
  assumes "t + 12 = length buf" "rec_len buf t = 12" "rec_type buf t = FtDirTail"
  shows "parse_from S buf t = []" "block_ok buf t"
proof -
  have "\<not> rec_live S buf t"
    using assms(3) by (simp add: rec_live_def)
  then show "parse_from S buf t = []"
    using assms parse_from_step [of t buf S] parse_from.simps [of S buf "length buf"] by simp
  show "block_ok buf t"
    using assms block_ok_step [of t buf] block_ok_end [of buf] by simp
qed

lemma parse_upto_tail:
  assumes keep: "length buf' = length buf" "\<And>o' n. o' + n \<le> t \<Longrightarrow> bytes_at buf' o' n = bytes_at buf o' n"
    and same: "parse_from S buf' t = parse_from S buf t" "block_ok buf' t" and t: "t \<le> length buf"
  shows "reaches buf t off \<Longrightarrow> parse_from S buf' off = parse_from S buf off \<and> (block_ok buf off \<longrightarrow> block_ok buf' off)"
proof (induction "t - off" arbitrary: off rule: less_induct)
  case less
  show ?case
  proof (cases "off = t")
    case True
    then show ?thesis
      using same by simp
  next
    case False
    note d = reaches_D [OF less.prems False]
    have k: "\<And>o' n. o' + n \<le> off + rec_len buf off \<Longrightarrow> bytes_at buf' o' n = bytes_at buf o' n"
      using keep(2) d(3) by simp
    note tl = reaches_le [OF d(4)]
    have ih: "parse_from S buf' (off + rec_len buf off) = parse_from S buf (off + rec_len buf off)"
      "block_ok buf (off + rec_len buf off) \<longrightarrow> block_ok buf' (off + rec_len buf off)"
      using less.hyps [OF _ d(4)] d(2) reaches_le [OF less.prems] False tl by auto
    have le: "off + rec_len buf off \<le> length buf \<Longrightarrow> parse_from S buf' off = parse_from S buf off"
      using parse_from_kept [where S = S, OF keep(1) k d(1,2)] parse_from_step [OF d(1,2), of S] ih(1) by simp
    have bk: "block_ok buf off \<Longrightarrow> block_ok buf' off"
      using block_ok_kept [OF keep(1) k _ d(1,2)] block_ok_step [OF d(1,2)] ih(2) by blast
    show ?thesis
      using le bk d(3) t by simp
  qed
qed

lemma csum_keeps_listing:
  assumes "dir_block_ok sb buf"
  shows "length (updateDirBlockCsum buf sb i) = length buf" "dir_block_ok sb (updateDirBlockCsum buf sb i)"
    "parseDirBlock S (updateDirBlockCsum buf sb i) = parseDirBlock S buf"
proof -
  define b where "b = updateDirBlockCsum buf sb i"
  have "length b = length buf \<and> dir_block_ok sb b \<and> parse_from S b 0 = parse_from S buf 0"
  proof (cases "has_flag (FeatureROCompat sb) FeatROCompatMetadataCsum")
    case False
    then show ?thesis
      using assms by (simp add: b_def updateDirBlockCsum_def)
  next
    case True
    obtain t where len: "length buf = t + 12" and r: "reaches buf t 0" "block_ok buf 0" "8 \<le> t"
      and tl: "rec_len buf t < 8 \<or> rec_len buf t = 12 \<and> rec_type buf t = FtDirTail"
      using dir_block_okE [OF assms True] by metis
    note w = tail_written [OF len, where sb = sb and i = i, folded b_def]
    have lb: "t + 12 = length b"
      using w(1) len by simp
    note p = parse_tail [OF lb w(3,4) [OF True]]
    have "parse_from S buf t = []"
      using tl parse_tail(1) [of t buf S] len parse_from.simps [of S buf t] by auto
    then have "parse_from S b 0 = parse_from S buf 0 \<and> (block_ok buf 0 \<longrightarrow> block_ok b 0)"
      using len p by (intro parse_upto_tail [OF w(1,2) _ _ _ r(1)]) simp_all
    moreover have "reaches b t 0"
      using w(1,2) by (intro reaches_cong [OF _ r(1)]) simp_all
    ultimately show ?thesis
      using r len w True by (simp add: dir_block_ok_def)
  qed
  then show "length (updateDirBlockCsum buf sb i) = length buf" "dir_block_ok sb (updateDirBlockCsum buf sb i)"
    "parseDirBlock S (updateDirBlockCsum buf sb i) = parseDirBlock S buf"
    by (simp_all add: b_def parseDirBlock_def)
qed

lemma insert_dir_block:
  assumes S: "checkBounds_ok S" and name: "0 < length name" "length name < 256"
    and ino: "ino \<noteq> 0" "ino < 4294967296" and ft: "fileType < 256" "fileType \<noteq> FtDirTail"
    and ok: "dir_block_ok sb buf"
    and ins: "tryInsertDirEntry buf ino name fileType (minDirentSize (length name)) = Some buf'"
  shows "dir_block_ok sb buf' \<and> length buf' = length buf
    \<and> (\<exists>pre post. parseDirBlock S buf = pre @ post
        \<and> parseDirBlock S buf' = pre @ \<lparr>de_Inode = ino, de_Name = name, de_FileType = fileType\<rparr> # post)"
proof -
  have ins': "insert_from buf 0 ino name fileType (minDirentSize (length name)) = Some buf'"
    using ins by (simp add: tryInsertDirEntry_def)
  note p = insert_from_parse [OF S name ino ft refl ins']
  have b: "length buf' = length buf" "block_ok buf' 0"
    using p ok by (simp_all add: dir_block_ok_def)
  have "dir_block_ok sb buf'"
  proof (cases "has_flag (FeatureROCompat sb) FeatROCompatMetadataCsum")
    case False
    then show ?thesis
      using b by (simp add: dir_block_ok_def)
  next
    case True
    obtain t where len: "length buf = t + 12" and r: "reaches buf t 0" "8 \<le> t"
      and tl: "rec_len buf t < 8 \<or> rec_len buf t = 12 \<and> rec_type buf t = FtDirTail"
      using dir_block_okE [OF ok True] by metis
    have "reaches buf' t 0" and d: "drop t buf' = drop t buf"
      using insert_from_reaches [OF name ino(2) ft refl S ino(1) _ _ _ ins' r(1)] len tl by auto
    moreover have "rec_len buf' t = rec_len buf t" "rec_type buf' t = rec_type buf t"
      using drop_fields [OF d] by simp_all
    ultimately show ?thesis
      using b len r tl by (simp add: dir_block_ok_def)
  qed
  then show ?thesis
    using p by (simp add: parseDirBlock_def)
qed

section \<open>The blocks of a directory\<close>

lemma writeRawBlock_Inr:
  assumes "writeRawBlock fsOffset sb p data f = (Inr (), f')"
  shows "WriteAt (block_off fsOffset sb p) data f = (Inr (length data), f')"
  using assms by (auto simp: writeRawBlock_def writeAtWithTrace_eq io_bind_Inr_iff WriteAt_Inr_iff io_return_def split: prod.splits sum.splits)

lemma block_off_geom:
  "geom_ok fsOffset sb \<Longrightarrow> p < BlocksCount sb \<Longrightarrow> block_off fsOffset sb p = fsOffset + int (p * BlockSize sb)"
  using geom_off(2) [of fsOffset sb p] by (simp add: block_off_def)

lemma raw_block_frame:
  assumes w: "writeRawBlock fsOffset sb p data f = (Inr (), f')" and len: "length data = BlockSize sb"
    and g: "geom_ok fsOffset sb" "p < BlocksCount sb" "q < BlocksCount sb"
  shows "readRawBlock f' fsOffset sb p = Inr data"
    "q \<noteq> p \<Longrightarrow> readRawBlock f fsOffset sb q = Inr b \<Longrightarrow> readRawBlock f' fsOffset sb q = Inr b"
proof -
  note w' = writeRawBlock_Inr [OF w]
  show "readRawBlock f' fsOffset sb p = Inr data"
    using dv.read_back [OF w'] len by (simp add: readRawBlock_def)
  assume "q \<noteq> p" and r: "readRawBlock f fsOffset sb q = Inr b"
  then have "q * BlockSize sb + BlockSize sb \<le> p * BlockSize sb \<or> p * BlockSize sb + BlockSize sb \<le> q * BlockSize sb"
    using mult_le_mono1 [of "Suc q" p "BlockSize sb"] mult_le_mono1 [of "Suc p" q "BlockSize sb"]
    by (cases "q < p") (simp_all add: add.commute)
  then have "block_off fsOffset sb q + int (BlockSize sb) \<le> block_off fsOffset sb p
      \<or> block_off fsOffset sb p + int (BlockSize sb) \<le> block_off fsOffset sb q"
    unfolding block_off_geom [OF g(1,2)] block_off_geom [OF g(1,3)] by linarith
  with dv.read_frame [OF w'] r len show "readRawBlock f' fsOffset sb q = Inr b"
    by (auto simp: readRawBlock_def)
qed

lemma read_dir_blocks_frame:
  assumes "read_dir_blocks S f fsOffset sb ps = Inr es"
    and "\<And>q b. q \<in> set ps \<Longrightarrow> readRawBlock f fsOffset sb q = Inr b \<Longrightarrow> readRawBlock f' fsOffset sb q = Inr b"
  shows "read_dir_blocks S f' fsOffset sb ps = Inr es"
  using assms
proof (induction ps arbitrary: es)
  case (Cons q qs)
  from Cons.prems(1) obtain b es' where b: "readRawBlock f fsOffset sb q = Inr b" "read_dir_blocks S f fsOffset sb qs = Inr es'"
    "es = parseDirBlock S b @ es'"
    by (auto simp: res_bind_Inr_iff)
  moreover have "read_dir_blocks S f' fsOffset sb qs = Inr es'"
    using Cons.IH [OF b(2)] Cons.prems(2) by simp
  ultimately show ?case
    using Cons.prems(2) [of q b] by simp
qed simp

text \<open>Replacing the content of one block replaces its part of the listing.\<close>

lemma replace_block:
  assumes rd: "read_dir_blocks S f fsOffset sb ps = Inr es" and d: "distinct ps" "p \<in> set ps"
    and buf: "readRawBlock f fsOffset sb p = Inr buf"
    and w: "writeRawBlock fsOffset sb p data f = (Inr (), f')" "length data = BlockSize sb"
    and g: "geom_ok fsOffset sb" "\<forall>q\<in>set ps. q < BlocksCount sb"
  shows "\<exists>ea eb. es = ea @ parseDirBlock S buf @ eb \<and> read_dir_blocks S f' fsOffset sb ps = Inr (ea @ parseDirBlock S data @ eb)"
  using rd d g(2)
proof (induction ps arbitrary: es)
  case (Cons q qs)
  from Cons.prems(1) obtain b es' where b: "readRawBlock f fsOffset sb q = Inr b" "read_dir_blocks S f fsOffset sb qs = Inr es'"
    "es = parseDirBlock S b @ es'"
    by (auto simp: res_bind_Inr_iff)
  have pb: "p < BlocksCount sb"
    using Cons.prems(3,4) by blast
  note fr = raw_block_frame [OF w g(1) pb]
  show ?case
  proof (cases "q = p")
    case True
    have "read_dir_blocks S f' fsOffset sb qs = Inr es'"
      using Cons.prems(2,4) True by (intro read_dir_blocks_frame [OF b(2)] fr(2)) auto
    moreover have "readRawBlock f' fsOffset sb q = Inr data"
      using fr(1) pb True by blast
    moreover have "b = buf"
      using b(1) buf True by simp
    ultimately show ?thesis
      using b(3) by (intro exI [of _ "[]"] exI [of _ es']) simp
  next
    case False
    then obtain ea eb where e: "es' = ea @ parseDirBlock S buf @ eb" "read_dir_blocks S f' fsOffset sb qs = Inr (ea @ parseDirBlock S data @ eb)"
      using Cons.IH [OF b(2)] Cons.prems(2-4) by auto
    have "readRawBlock f' fsOffset sb q = Inr b"
      using fr(2) [OF _ False b(1)] Cons.prems(4) by simp
    then show ?thesis
      using b(3) e by (intro exI [of _ "parseDirBlock S b @ ea"] exI [of _ eb]) simp
  qed
qed simp

section \<open>Adding an entry\<close>

text \<open>A directory whose extents are in its inode is listed block by block, on any device.\<close>

lemma extents_in_inode:
  assumes "u16_at (iblock i) 6 = 0"
  shows "extents S f fsOffset sb i = extents S f' fsOffset sb i"
  using assms by (simp add: extents_def parseExtentRoot_def)

lemma readDir_extents:
  assumes "extents S f fsOffset sb i = Inr exts"
  shows "readDir S f fsOffset sb i = read_dir_blocks S f fsOffset sb (map snd (ext_blocks exts))"
  using assms by (simp add: readDir_def readExtents_def isInline_def extents_def split: if_splits)

lemma insert_blocks_True:
  assumes "insert_blocks fsOffset dirIno childIno name fileType bs s = (Inr True, s')"
  shows "\<exists>l p buf buf'. (l, p) \<in> set bs \<and> readRawBlock (fs_dev s) fsOffset (fs_sb s) p = Inr buf
    \<and> tryInsertDirEntry buf childIno name fileType (minDirentSize (length name)) = Some buf'
    \<and> writeRawBlock fsOffset (fs_sb s) p (updateDirBlockCsum buf' (fs_sb s) dirIno) (fs_dev s) = (Inr (), fs_dev s')
    \<and> fs_sb s' = fs_sb s"
  using assms
proof (induction bs)
  case (Cons x bs)
  obtain l p where x: "x = (l, p)"
    by (rule prod.exhaust)
  have skip: ?case if "insert_blocks fsOffset dirIno childIno name fileType bs s = (Inr True, s')"
    using Cons.IH [OF that] by (metis list.set_intros(2))
  show ?case
  proof (cases "has_flag (inode_flags dirIno) InodeFlagHashIndex \<and> w32 l = 0")
    case True
    then show ?thesis
      using Cons.prems x by (intro skip) simp
  next
    case False
    obtain buf where b: "readRawBlock (fs_dev s) fsOffset (fs_sb s) p = Inr buf"
      using Cons.prems x False by (cases "readRawBlock (fs_dev s) fsOffset (fs_sb s) p") auto
    show ?thesis
    proof (cases "tryInsertDirEntry buf childIno name fileType (minDirentSize (length name))")
      case None
      then show ?thesis
        using Cons.prems x False b by (intro skip) simp
    next
      case (Some buf')
      then have "io_bind (op_dev (\<lambda>sb. writeRawBlock fsOffset sb p (updateDirBlockCsum buf' sb dirIno))) (\<lambda>_. io_return True) s = (Inr True, s')"
        using Cons.prems x False b by simp
      then obtain f' where "writeRawBlock fsOffset (fs_sb s) p (updateDirBlockCsum buf' (fs_sb s) dirIno) (fs_dev s) = (Inr (), f')"
        "s' = s\<lparr>fs_dev := f'\<rparr>"
        by (auto simp: io_bind_Inr_iff io_return_def op_dev_def on_dev_Inr)
      then show ?thesis
        using b Some x by (intro exI [of _ l] exI [of _ p] exI [of _ buf] exI [of _ buf']) simp
    qed
  qed
qed simp

lemma insert_blocks_finds:
  assumes "(l, p) \<in> set bs" "\<not> (has_flag (inode_flags dirIno) InodeFlagHashIndex \<and> w32 l = 0)"
    and "readRawBlock (fs_dev s) fsOffset (fs_sb s) p = Inr buf"
    and "tryInsertDirEntry buf childIno name fileType (minDirentSize (length name)) \<noteq> None"
  shows "insert_blocks fsOffset dirIno childIno name fileType bs s \<noteq> (Inr False, s')"
  using assms(1)
proof (induction bs)
  case (Cons x bs)
  obtain l' p' where x: "x = (l', p')"
    by (rule prod.exhaust)
  show ?case
  proof (cases "x = (l, p)")
    case True
    then show ?thesis
      using assms(2-4) by (auto simp: io_bind_def io_return_def op_dev_def on_dev_def split: prod.splits sum.splits)
  next
    case False
    then have ih: "insert_blocks fsOffset dirIno childIno name fileType bs s \<noteq> (Inr False, s')"
      using Cons by simp
    show ?thesis
    proof (cases "has_flag (inode_flags dirIno) InodeFlagHashIndex \<and> w32 l' = 0")
      case True
      then show ?thesis
        using ih x by simp
    next
      case nh: False
      show ?thesis
      proof (cases "readRawBlock (fs_dev s) fsOffset (fs_sb s) p'")
        case (Inr buf2)
        then show ?thesis
          using ih nh x by (cases "tryInsertDirEntry buf2 childIno name fileType (minDirentSize (length name))")
            (auto simp: io_bind_def io_return_def op_dev_def on_dev_def split: prod.splits sum.splits)
      qed (use nh x in auto)
    qed
  qed
qed simp

text \<open>C0: adding an entry to a directory whose extents are in its inode, when some block of it has
  room: the listing afterwards is the listing before with exactly the new entry inserted, the
  inode and the superblock are unchanged, and only one block of the directory is written.\<close>

lemma addDirEntry_effect:
  assumes a: "addDirEntry E S fsOffset dirIno childIno name fileType s = (Inr i', s')"
    and ex: "extents S (fs_dev s) fsOffset (fs_sb s) dirIno = Inr exts" "u16_at (iblock dirIno) 6 = 0"
    and rd: "readDir S (fs_dev s) fsOffset (fs_sb s) dirIno = Inr es"
    and room: "(l, p) \<in> set (ext_blocks exts)" "\<not> (has_flag (inode_flags dirIno) InodeFlagHashIndex \<and> w32 l = 0)"
      "readRawBlock (fs_dev s) fsOffset (fs_sb s) p = Inr buf"
      "tryInsertDirEntry buf childIno name fileType (minDirentSize (length name)) \<noteq> None"
    and ok: "distinct (map snd (ext_blocks exts))" "\<forall>q\<in>snd ` set (ext_blocks exts). q < BlocksCount (fs_sb s)"
      "\<And>q b. q \<in> snd ` set (ext_blocks exts) \<Longrightarrow> readRawBlock (fs_dev s) fsOffset (fs_sb s) q = Inr b \<Longrightarrow> dir_block_ok (fs_sb s) b"
    and S: "checkBounds_ok S" and g: "geom_ok fsOffset (fs_sb s)"
    and name: "0 < length name" "length name < 256" "childIno \<noteq> 0" "childIno < 4294967296" "fileType < 256" "fileType \<noteq> FtDirTail"
  shows "i' = dirIno \<and> fs_sb s' = fs_sb s
    \<and> (\<exists>pre post. es = pre @ post
         \<and> readDir S (fs_dev s') fsOffset (fs_sb s') dirIno
            = Inr (pre @ \<lparr>de_Inode = childIno, de_Name = name, de_FileType = fileType\<rparr> # post))
    \<and> (\<exists>q\<in>snd ` set (ext_blocks exts). \<forall>off n b. ReadAt (fs_dev s) off n = Inr b
         \<and> outside (block_off fsOffset (fs_sb s) q) (BlockSize (fs_sb s)) off n \<longrightarrow> ReadAt (fs_dev s') off n = Inr b)"
proof -
  define N where "N = \<lparr>de_Inode = childIno, de_Name = name, de_FileType = fileType\<rparr>"
  from a ex(1) obtain ok1 s1 where i1: "insert_blocks fsOffset dirIno childIno name fileType (ext_blocks exts) s = (Inr ok1, s1)"
    and rest: "(if ok1 then io_return dirIno else append_dir_block E fsOffset dirIno exts childIno name fileType) s1 = (Inr i', s')"
    by (auto simp: addDirEntry_def io_bind_Inr_iff op_read_def)
  have "ok1"
    using insert_blocks_finds [OF room, of s1] i1 by (cases ok1) auto
  with rest have s1: "i' = dirIno" "s1 = s'"
    by (auto simp: io_return_def)
  from insert_blocks_True [of fsOffset dirIno childIno name fileType "ext_blocks exts" s s'] i1 \<open>ok1\<close> s1(2)
  obtain l' q b b' where q: "(l', q) \<in> set (ext_blocks exts)" and b: "readRawBlock (fs_dev s) fsOffset (fs_sb s) q = Inr b"
    and ins: "tryInsertDirEntry b childIno name fileType (minDirentSize (length name)) = Some b'"
    and w: "writeRawBlock fsOffset (fs_sb s) q (updateDirBlockCsum b' (fs_sb s) dirIno) (fs_dev s) = (Inr (), fs_dev s')"
    and sb: "fs_sb s' = fs_sb s"
    by auto
  have qs: "q \<in> snd ` set (ext_blocks exts)"
    using q by force
  from insert_dir_block [OF S name ok(3) [OF qs b] ins] obtain pre post where
    k: "dir_block_ok (fs_sb s) b'" "length b' = length b" "parseDirBlock S b = pre @ post" "parseDirBlock S b' = pre @ N # post"
    unfolding N_def by blast
  define d where "d = updateDirBlockCsum b' (fs_sb s) dirIno"
  note c = csum_keeps_listing(1,2) [OF k(1), where i = dirIno, folded d_def]
    csum_keeps_listing(3) [OF k(1), where i = dirIno and S = S, folded d_def]
  have len: "length d = BlockSize (fs_sb s)"
    using c(1) k(2) readRawBlock_length [OF b] by simp
  have rd': "read_dir_blocks S (fs_dev s) fsOffset (fs_sb s) (map snd (ext_blocks exts)) = Inr es"
    using rd readDir_extents [OF ex(1)] by simp
  have gq: "\<forall>q\<in>set (map snd (ext_blocks exts)). q < BlocksCount (fs_sb s)" "q \<in> set (map snd (ext_blocks exts))"
    using ok(2) qs by auto
  from replace_block [OF rd' ok(1) gq(2) b w [folded d_def] len g gq(1)] obtain ea eb where
    e: "es = ea @ parseDirBlock S b @ eb"
      "read_dir_blocks S (fs_dev s') fsOffset (fs_sb s) (map snd (ext_blocks exts)) = Inr (ea @ parseDirBlock S d @ eb)"
    by blast
  have "extents S (fs_dev s') fsOffset (fs_sb s) dirIno = Inr exts"
    using ex extents_in_inode [OF ex(2), of S "fs_dev s'" fsOffset "fs_sb s" "fs_dev s"] by simp
  from readDir_extents [OF this] have "readDir S (fs_dev s') fsOffset (fs_sb s') dirIno = Inr ((ea @ pre) @ N # (post @ eb))"
    using e(2) c(3) k(4) sb by simp
  moreover have "es = (ea @ pre) @ (post @ eb)"
    using e(1) k(3) by simp
  moreover have "ReadAt (fs_dev s') off n = Inr x" if "ReadAt (fs_dev s) off n = Inr x"
    "outside (block_off fsOffset (fs_sb s) q) (BlockSize (fs_sb s)) off n" for off n x
    using dv.read_frame [OF writeRawBlock_Inr [OF w [folded d_def]] that(1)] that(2) len by (auto simp: outside_def)
  ultimately show ?thesis
    using s1(1) sb qs unfolding N_def by blast
qed

section \<open>Removing an entry\<close>

lemma zero_from_reaches:
  assumes tail: "rec_len buf t < 8 \<or> rec_type buf t = FtDirTail"
  shows "zero_from buf off name = Inr (Some buf') \<Longrightarrow> reaches buf t off \<Longrightarrow>
    length buf' = length buf \<and> (\<forall>o' n. o' + n \<le> off \<longrightarrow> bytes_at buf' o' n = bytes_at buf o' n)
    \<and> reaches buf' t off \<and> drop t buf' = drop t buf"
proof (induction "length buf - off" arbitrary: off rule: less_induct)
  case less
  define rl where "rl = rec_len buf off"
  note z = less.prems(1) [unfolded zero_from.simps [of buf off]]
  have c: "off + 8 \<le> length buf" "8 \<le> rl" "rec_type buf off \<noteq> FtDirTail"
    using z by (auto simp: rl_def split: if_splits)
  have "off \<noteq> t"
    using tail c by (auto simp: rl_def)
  note d = reaches_D [OF less.prems(2) this, folded rl_def]
  show ?case
  proof (cases "rec_nameLen buf off > 0 \<and> rec_name buf off = name")
    case True
    then have b: "buf' = put_u32 buf off 0"
      using z c by (auto simp: rl_def split: if_splits)
    have keep: "bytes_at buf' o' n = bytes_at buf o' n" if "o' + n \<le> off \<or> off + 4 \<le> o'" for o' n
      unfolding b using that c(1) by (auto simp: bytes_at_put_other)
    have len: "length buf' = length buf"
      using c(1) by (simp add: b)
    have "rec_len buf' off = rl"
      using keep [of "off + 4" 2] by (simp add: u16_at_def rl_def)
    moreover have "reaches buf' t (off + rl)"
      by (rule reaches_cong [OF len d(4)], rule keep) (use c(2) in linarith)
    ultimately have "reaches buf' t off"
      using reaches_step [of off buf' t] d(1-3) len by simp
    moreover have "drop t buf' = drop t buf"
      using keep d(2,3) len by (simp add: drop_eq_bytes)
    ultimately show ?thesis
      using keep len by simp
  next
    case False
    then have n: "zero_from buf (off + rl) name = Inr (Some buf')"
      using z c by (auto simp: rl_def split: if_splits)
    have "length buf - (off + rl) < length buf - off"
      using c(1,2) by linarith
    note ih = less.hyps [OF this n d(4)]
    have "bytes_at buf' (off + 4) 2 = bytes_at buf (off + 4) 2"
      using ih c(2) by simp
    then have "rec_len buf' off = rl"
      by (simp add: u16_at_def rl_def)
    then have "reaches buf' t off"
      using ih reaches_step [of off buf' t] d(1-3) by simp
    then show ?thesis
      using ih by simp
  qed
qed

lemma zero_dir_block:
  assumes S: "checkBounds_ok S" and ok: "dir_block_ok sb buf"
    and z: "zeroEntryInBlock buf name = Inr (Some buf')"
  obtains i where "first_record buf 0 name = Some i" "dir_block_ok sb buf'" "length buf' = length buf" "removes S buf buf' 0 name i"
proof -
  have z': "zero_from buf 0 name = Inr (Some buf')"
    using z by (simp add: zeroEntryInBlock_def)
  have b0: "block_ok buf 0"
    using ok by (simp add: dir_block_ok_def)
  obtain i where p: "length buf' = length buf" "removes S buf buf' 0 name i" "block_ok buf' 0" "first_record buf 0 name = Some i"
    using zero_from_correct [OF S b0, of name] z' by auto
  have "dir_block_ok sb buf'"
  proof (cases "has_flag (FeatureROCompat sb) FeatROCompatMetadataCsum")
    case False
    then show ?thesis
      using p by (simp add: dir_block_ok_def)
  next
    case True
    obtain t where len: "length buf = t + 12" and r: "reaches buf t 0" "8 \<le> t"
      and tl: "rec_len buf t < 8 \<or> rec_len buf t = 12 \<and> rec_type buf t = FtDirTail"
      using dir_block_okE [OF ok True] by metis
    have "reaches buf' t 0" and d: "drop t buf' = drop t buf"
      using zero_from_reaches [OF _ z' r(1)] tl by auto
    moreover have "rec_len buf' t = rec_len buf t" "rec_type buf' t = rec_type buf t"
      using drop_fields [OF d] by simp_all
    ultimately show ?thesis
      using p len r tl by (simp add: dir_block_ok_def)
  qed
  then show ?thesis
    using p that by blast
qed

lemma zero_absent:
  assumes "checkBounds_ok S" "dir_block_ok sb buf" "zeroEntryInBlock buf name = Inr None"
  shows "name \<notin> de_Name ` set (parseDirBlock S buf)" "first_record buf 0 name = None"
  using zero_from_correct [OF assms(1), of buf 0 name] assms(2,3) by (auto simp: dir_block_ok_def zeroEntryInBlock_def parseDirBlock_def)

text \<open>The inode number of the first record of a directory that carries the name, 0 for a free one.\<close>

fun dir_record :: "device \<Rightarrow> int \<Rightarrow> superblock \<Rightarrow> gostring \<Rightarrow> u64 list \<Rightarrow> u32 option" where
  "dir_record f fsOffset sb name [] = None"
| "dir_record f fsOffset sb name (q # qs) =
    (case readRawBlock f fsOffset sb q of
       Inl _ \<Rightarrow> None
     | Inr b \<Rightarrow> (case first_record b 0 name of Some i \<Rightarrow> Some i | None \<Rightarrow> dir_record f fsOffset sb name qs))"

lemma zero_dir_blocks_frame:
  assumes S: "checkBounds_ok S" and g: "geom_ok fsOffset sb" and p: "p < BlocksCount sb" "readRawBlock f fsOffset sb p = Inr b'"
  shows "zero_dir_blocks fsOffset sb dirIno name ps f = (Inr (), f') \<Longrightarrow> \<forall>q\<in>set ps. q < BlocksCount sb \<Longrightarrow> p \<notin> set ps \<Longrightarrow>
    \<forall>q b. q \<in> set ps \<longrightarrow> readRawBlock f fsOffset sb q = Inr b \<longrightarrow> dir_block_ok sb b \<Longrightarrow>
    readRawBlock f' fsOffset sb p = Inr b'"
proof (induction ps)
  case (Cons q qs)
  then obtain b r where b: "readRawBlock f fsOffset sb q = Inr b" and r: "zeroEntryInBlock b name = Inr r"
    by (auto split: sum.splits)
  show ?case
  proof (cases r)
    case (Some c)
    define d where "d = updateDirBlockCsum c sb dirIno"
    have w: "writeRawBlock fsOffset sb q d f = (Inr (), f')"
      using Cons.prems(1) b(1) r Some by (simp add: d_def)
    have k: "dir_block_ok sb c" "length c = length b"
      using Cons.prems(4) b by (auto intro: zero_dir_block [OF S _ r [unfolded Some], of sb])
    have "length d = BlockSize sb"
      using csum_keeps_listing(1) [OF k(1), where i = dirIno] k(2) readRawBlock_length [OF b] by (simp add: d_def)
    then show ?thesis
      using raw_block_frame(2) [OF w _ g _ p(1) _ p(2)] Cons.prems(2,3) by auto
  qed (use Cons b r in simp)
qed (use p in simp)

lemma zero_dir_blocks_removes:
  assumes S: "checkBounds_ok S" and g: "geom_ok fsOffset sb"
  shows "zero_dir_blocks fsOffset sb dirIno name ps f = (Inr (), f') \<Longrightarrow> read_dir_blocks S f fsOffset sb ps = Inr es \<Longrightarrow>
    distinct ps \<Longrightarrow> \<forall>q\<in>set ps. q < BlocksCount sb \<Longrightarrow>
    \<forall>q b. q \<in> set ps \<longrightarrow> readRawBlock f fsOffset sb q = Inr b \<longrightarrow> dir_block_ok sb b \<Longrightarrow>
    (case dir_record f fsOffset sb name ps of
       None \<Rightarrow> f' = f \<and> name \<notin> de_Name ` set es
     | Some i \<Rightarrow>
         if i = 0 then read_dir_blocks S f' fsOffset sb ps = Inr es
         else \<exists>pre e post. es = pre @ e # post \<and> de_Name e = name \<and> de_Inode e = i \<and> name \<notin> de_Name ` set pre
           \<and> read_dir_blocks S f' fsOffset sb ps = Inr (pre @ post))"
proof (induction ps arbitrary: es)
  case (Cons q qs)
  from Cons.prems(2) obtain b es' where b: "readRawBlock f fsOffset sb q = Inr b" "read_dir_blocks S f fsOffset sb qs = Inr es'"
    "es = parseDirBlock S b @ es'"
    by (auto simp: res_bind_Inr_iff)
  have ok: "dir_block_ok sb b"
    using Cons.prems(5) b(1) by simp
  obtain r where r: "zeroEntryInBlock b name = Inr r"
    using Cons.prems(1) b(1) by (cases "zeroEntryInBlock b name") simp_all
  show ?case
  proof (cases r)
    case (Some b')
    define d where "d = updateDirBlockCsum b' sb dirIno"
    have w: "writeRawBlock fsOffset sb q d f = (Inr (), f')"
      using Cons.prems(1) b(1) r Some by (simp add: d_def)
    obtain i where k: "first_record b 0 name = Some i" "dir_block_ok sb b'" "length b' = length b" "removes S b b' 0 name i"
      by (rule zero_dir_block [OF S ok r [unfolded Some]])
    note c = csum_keeps_listing(1) [OF k(2), where i = dirIno, folded d_def]
      csum_keeps_listing(3) [OF k(2), where i = dirIno and S = S, folded d_def]
    have len: "length d = BlockSize sb"
      using c(1) k(3) readRawBlock_length [OF b(1)] by simp
    have qb: "q < BlocksCount sb"
      using Cons.prems(4) by simp
    note fr = raw_block_frame [OF w len g qb]
    have "read_dir_blocks S f' fsOffset sb qs = Inr es'"
      using Cons.prems(3,4) by (intro read_dir_blocks_frame [OF b(2)] fr(2)) auto
    moreover have "readRawBlock f' fsOffset sb q = Inr d"
      using fr(1) qb by blast
    ultimately have rd: "read_dir_blocks S f' fsOffset sb (q # qs) = Inr (parseDirBlock S b' @ es')"
      using c(2) by simp
    have hit: "dir_record f fsOffset sb name (q # qs) = Some i"
      using b(1) k(1) by simp
    show ?thesis
    proof (cases "i = 0")
      case True
      then show ?thesis
        unfolding hit using rd k(4) b(3) by (simp add: removes_def parseDirBlock_def)
    next
      case False
      then obtain pre e post where "parseDirBlock S b = pre @ e # post" "de_Name e = name" "de_Inode e = i" "name \<notin> de_Name ` set pre"
        "parseDirBlock S b' = pre @ post"
        using k(4) by (auto simp: removes_def parseDirBlock_def)
      then show ?thesis
        unfolding hit using False rd b(3)
        by (auto intro: exI [of _ pre] exI [of _ e] exI [of _ "post @ es'"])
    qed
  next
    case None
    note absent = zero_absent [OF S ok r [unfolded None]]
    have step: "zero_dir_blocks fsOffset sb dirIno name qs f = (Inr (), f')"
      using Cons.prems(1) b(1) r None by simp
    have same: "dir_record f fsOffset sb name (q # qs) = dir_record f fsOffset sb name qs"
      using b(1) absent(2) by simp
    have rq: "readRawBlock f' fsOffset sb q = Inr b"
      using zero_dir_blocks_frame [OF S g _ b(1) step] Cons.prems(3,4,5) by simp
    have "distinct qs" "\<forall>q\<in>set qs. q < BlocksCount sb"
      "\<forall>q b. q \<in> set qs \<longrightarrow> readRawBlock f fsOffset sb q = Inr b \<longrightarrow> dir_block_ok sb b"
      using Cons.prems(3,4,5) by simp_all
    note ih = Cons.IH [OF step b(2) this]
    show ?thesis
    proof (cases "dir_record f fsOffset sb name qs")
      case None
      then show ?thesis
        unfolding same using ih absent(1) b(3) by auto
    next
      case (Some i)
      show ?thesis
      proof (cases "i = 0")
        case True
        then show ?thesis
          unfolding same using ih Some rq b(3) by simp
      next
        case False
        then obtain pre e post where h: "es' = pre @ e # post" "de_Name e = name" "de_Inode e = i" "name \<notin> de_Name ` set pre"
          "read_dir_blocks S f' fsOffset sb qs = Inr (pre @ post)"
          using ih Some by auto
        then have "read_dir_blocks S f' fsOffset sb (q # qs) = Inr ((parseDirBlock S b @ pre) @ post)"
          using rq by simp
        moreover have "es = (parseDirBlock S b @ pre) @ e # post" "name \<notin> de_Name ` set (parseDirBlock S b @ pre)"
          using h absent(1) b(3) by auto
        ultimately show ?thesis
          unfolding same Some using False h(2,3) by (simp only: option.case if_False) blast
      qed
    qed
  qed
qed simp

lemma zeroDirEntry_effect:
  assumes z: "zeroDirEntry S fsOffset sb dirIno name f = (Inr (), f')"
    and ex: "extents S f fsOffset sb dirIno = Inr exts" "u16_at (iblock dirIno) 6 = 0"
    and rd: "readDir S f fsOffset sb dirIno = Inr es"
    and ok: "distinct (map snd (ext_blocks exts))" "\<forall>q\<in>snd ` set (ext_blocks exts). q < BlocksCount sb"
      "\<And>q b. q \<in> snd ` set (ext_blocks exts) \<Longrightarrow> readRawBlock f fsOffset sb q = Inr b \<Longrightarrow> dir_block_ok sb b"
    and S: "checkBounds_ok S" and g: "geom_ok fsOffset sb"
  shows "case dir_record f fsOffset sb name (map snd (ext_blocks exts)) of
       None \<Rightarrow> f' = f \<and> name \<notin> de_Name ` set es
     | Some i \<Rightarrow>
         if i = 0 then readDir S f' fsOffset sb dirIno = Inr es
         else \<exists>pre e post. es = pre @ e # post \<and> de_Name e = name \<and> de_Inode e = i \<and> name \<notin> de_Name ` set pre
           \<and> readDir S f' fsOffset sb dirIno = Inr (pre @ post)"
proof -
  have z': "zero_dir_blocks fsOffset sb dirIno name (map snd (ext_blocks exts)) f = (Inr (), f')"
    using z ex(1) by (simp add: zeroDirEntry_def)
  have rd': "read_dir_blocks S f fsOffset sb (map snd (ext_blocks exts)) = Inr es"
    using rd readDir_extents [OF ex(1)] by simp
  have "extents S f' fsOffset sb dirIno = Inr exts"
    using extents_in_inode [OF ex(2)] ex(1) by metis
  then have d: "readDir S f' fsOffset sb dirIno = read_dir_blocks S f' fsOffset sb (map snd (ext_blocks exts))"
    by (rule readDir_extents)
  have "\<forall>q\<in>set (map snd (ext_blocks exts)). q < BlocksCount sb"
    "\<forall>q b. q \<in> set (map snd (ext_blocks exts)) \<longrightarrow> readRawBlock f fsOffset sb q = Inr b \<longrightarrow> dir_block_ok sb b"
    using ok(2,3) by simp_all
  from zero_dir_blocks_removes [OF S g z' rd' ok(1) this] show ?thesis
    unfolding d .
qed

end
