(* ===== verification/TreeOps.thy ===== *)
theory TreeOps
  imports DirOps
begin

text \<open>
  The directory operations as the callers of \<open>dir.go\<close>, \<open>delete.go\<close> and \<open>mkdir.go\<close> see them.
\<close>

section \<open>Adding and removing an entry\<close>

text \<open>C30: \<open>addDirEntry\<close> on a directory one of whose blocks has room (not the hash root of an indexed
  directory) adds exactly the new entry: the listing afterwards is the old one with that entry
  inserted at one place, the inode is not changed, the superblock is not changed, and every range
  of the device outside one block of the directory reads as before.\<close>

theorem addDirEntry_adds:
  assumes "addDirEntry E S fsOffset dirIno childIno name fileType s = (Inr i', s')"
    and "extents S (fs_dev s) fsOffset (fs_sb s) dirIno = Inr exts" "u16_at (iblock dirIno) 6 = 0"
    and "readDir S (fs_dev s) fsOffset (fs_sb s) dirIno = Inr es"
    and "(l, p) \<in> set (ext_blocks exts)" "\<not> (has_flag (inode_flags dirIno) InodeFlagHashIndex \<and> w32 l = 0)"
      "readRawBlock (fs_dev s) fsOffset (fs_sb s) p = Inr buf"
      "tryInsertDirEntry buf childIno name fileType (minDirentSize (length name)) \<noteq> None"
    and "distinct (map snd (ext_blocks exts))" "\<forall>q\<in>snd ` set (ext_blocks exts). q < BlocksCount (fs_sb s)"
      "\<And>q b. q \<in> snd ` set (ext_blocks exts) \<Longrightarrow> readRawBlock (fs_dev s) fsOffset (fs_sb s) q = Inr b \<Longrightarrow> dir_block_ok (fs_sb s) b"
    and "checkBounds_ok S" "geom_ok fsOffset (fs_sb s)"
    and "0 < length name" "length name < 256" "childIno \<noteq> 0" "childIno < 4294967296" "fileType < 256" "fileType \<noteq> FtDirTail"
  shows "i' = dirIno \<and> fs_sb s' = fs_sb s
    \<and> (\<exists>pre post. es = pre @ post
         \<and> readDir S (fs_dev s') fsOffset (fs_sb s') dirIno
            = Inr (pre @ \<lparr>de_Inode = childIno, de_Name = name, de_FileType = fileType\<rparr> # post))
    \<and> (\<exists>q\<in>snd ` set (ext_blocks exts). \<forall>off n b. ReadAt (fs_dev s) off n = Inr b
         \<and> outside (block_off fsOffset (fs_sb s) q) (BlockSize (fs_sb s)) off n \<longrightarrow> ReadAt (fs_dev s') off n = Inr b)"
  using assms by (rule addDirEntry_effect)

lemma root_ext: "ext_blocks [\<lparr>LogBlock = 0, PhysBlock = 33, Count = Suc 0\<rparr>] = [(0, 33)]"
  by code_simp

lemma root_readDir: "readDir safeio_ref tree_dev 0 mini_sb (tree_inode 2) = Inr root_entries"
  using readDir_extents [OF tree_exts(1)] tree_blocks(1) tree_parse(1) by (simp add: root_ext)

lemma root_depth: "u16_at (iblock (tree_inode 2)) 6 = 0"
  using tree_hdr(1) by (simp add: tree_fields)

lemma mini_geom: "geom_ok 0 mini_sb"
  by (simp add: geom_ok_def)

lemma root_block_ok: "dir_block_ok mini_sb root_block"
proof -
  have "block_ok root_block 0"
    by code_simp
  then show ?thesis
    by (simp add: dir_block_ok_def has_flag_def)
qed

lemma root_insert: "tryInsertDirEntry root_block 4 [103] 1 12 \<noteq> None"
  by code_simp

theorem addDirEntry_adds_witness:
  "\<exists>s'. addDirEntry (\<lambda>_. quiet Queued) safeio_ref 0 (tree_inode 2) 4 [103] 1 tree_fs = (Inr (tree_inode 2), s')
     \<and> (\<exists>pre post. root_entries = pre @ post
        \<and> readDir safeio_ref (fs_dev s') 0 mini_sb (tree_inode 2)
          = Inr (pre @ \<lparr>de_Inode = 4, de_Name = [103], de_FileType = 1\<rparr> # post))"
proof -
  obtain b where b: "tryInsertDirEntry root_block 4 [103] 1 (minDirentSize (length [103 :: byte])) = Some b"
    using root_insert by (auto simp: minDirentSize_def)
  define s' where "s' = tree_fs\<lparr>fs_dev := snd (writeRawBlock 0 mini_sb 33 (updateDirBlockCsum b mini_sb (tree_inode 2)) tree_dev)\<rparr>"
  have fl: "\<not> has_flag (inode_flags (tree_inode 2)) InodeFlagHashIndex"
    by (simp add: tree_fields has_flag_def)
  have a: "addDirEntry (\<lambda>_. quiet Queued) safeio_ref 0 (tree_inode 2) 4 [103] 1 tree_fs = (Inr (tree_inode 2), s')"
    using b fl
    by (simp add: addDirEntry_def io_bind_def op_read_def tree_exts root_ext tree_blocks op_dev_def on_dev_def
        writeRawBlock_def writeAtWithTrace_eq WriteAt_def block_off_def s'_def io_return_def)
  have "dir_block_ok (fs_sb tree_fs) b'" if "readRawBlock (fs_dev tree_fs) 0 (fs_sb tree_fs) 33 = Inr b'" for b'
    using that root_block_ok by (simp add: tree_blocks)
  then show ?thesis
    using addDirEntry_adds [OF a, of "[\<lparr>LogBlock = 0, PhysBlock = 33, Count = 1\<rparr>]" root_entries 0 33 root_block]
      a b fl by (simp add: tree_exts root_depth root_readDir root_ext tree_blocks mini_geom s'_def safeio_ref_ok)
qed

text \<open>C31: a successful \<open>zeroDirEntry\<close> on a directory with well-formed blocks.  When no record of it carries
  the name, the name is not listed and the device stays as it was.  When the first record that
  carries the name is in use, for the inode \<open>i\<close>, exactly the first entry of the name, which is the
  one for \<open>i\<close>, disappears from the listing.  When that record is free, the call still succeeds,
  and the listing stays as it was, even if a later record holds the name.\<close>

theorem zeroDirEntry_removes:
  assumes "zeroDirEntry S fsOffset sb dirIno name f = (Inr (), f')"
    and "extents S f fsOffset sb dirIno = Inr exts" "u16_at (iblock dirIno) 6 = 0"
    and "readDir S f fsOffset sb dirIno = Inr es"
    and "distinct (map snd (ext_blocks exts))" "\<forall>q\<in>snd ` set (ext_blocks exts). q < BlocksCount sb"
      "\<And>q b. q \<in> snd ` set (ext_blocks exts) \<Longrightarrow> readRawBlock f fsOffset sb q = Inr b \<Longrightarrow> dir_block_ok sb b"
    and "checkBounds_ok S" "geom_ok fsOffset sb"
  shows "case dir_record f fsOffset sb name (map snd (ext_blocks exts)) of
       None \<Rightarrow> f' = f \<and> name \<notin> de_Name ` set es
     | Some i \<Rightarrow>
         if i = 0 then readDir S f' fsOffset sb dirIno = Inr es
         else \<exists>pre e post. es = pre @ e # post \<and> de_Name e = name \<and> de_Inode e = i \<and> name \<notin> de_Name ` set pre
           \<and> readDir S f' fsOffset sb dirIno = Inr (pre @ post)"
  using assms by (rule zeroDirEntry_effect)

theorem zeroDirEntry_removes_witness:
  "\<exists>f'. zeroDirEntry safeio_ref 0 mini_sb (tree_inode 2) [100] tree_dev = (Inr (), f')
     \<and> (\<exists>pre e post. root_entries = pre @ e # post \<and> de_Name e = [100] \<and> de_Inode e = 3
        \<and> readDir safeio_ref f' 0 mini_sb (tree_inode 2) = Inr (pre @ post))"
proof -
  have "(case zeroEntryInBlock root_block [100] of Inr (Some b) \<Rightarrow> True | _ \<Rightarrow> False)" and hit: "first_record root_block 0 [100] = Some 3"
    by code_simp+
  then obtain b where b: "zeroEntryInBlock root_block [100] = Inr (Some b)"
    by (auto split: sum.splits option.splits)
  define f' where "f' = snd (writeRawBlock 0 mini_sb 33 (updateDirBlockCsum b mini_sb (tree_inode 2)) tree_dev)"
  have z: "zeroDirEntry safeio_ref 0 mini_sb (tree_inode 2) [100] tree_dev = (Inr (), f')"
    using b
    by (simp add: zeroDirEntry_def tree_exts root_ext tree_blocks writeRawBlock_def writeAtWithTrace_eq WriteAt_def
        block_off_def f'_def io_return_def io_bind_def)
  have "dir_block_ok mini_sb b'" if "readRawBlock tree_dev 0 mini_sb 33 = Inr b'" for b'
    using that root_block_ok by (simp add: tree_blocks)
  moreover have "dir_record tree_dev 0 mini_sb [100] (map snd (ext_blocks [\<lparr>LogBlock = 0, PhysBlock = 33, Count = 1\<rparr>])) = Some 3"
    using hit by (simp add: root_ext tree_blocks)
  ultimately show ?thesis
    using zeroDirEntry_removes [OF z tree_exts(1) root_depth root_readDir] z by (auto simp: root_ext mini_geom safeio_ref_ok)
qed

end
