(* ===== verification/NewDir.thy ===== *)
theory NewDir
  imports TreeOps
begin

text \<open>
  \<open>makeDir\<close> of \<open>mkdir.go\<close>: the block and the inode it builds are an empty directory, and installing
  them adds exactly the new entry to the parent and one to the parent's link count.
\<close>

section \<open>A new directory\<close>

lemma byte_u8: "off < length b \<Longrightarrow> b ! off = of_nat (u8_at b off)"
  by (simp add: u8_at_def bytes_at_def take_Suc_conv_app_nth hd_drop_conv_nth take_Suc)

lemma dir_block_steps:
  assumes "36 \<le> BlockSize sb"
  obtains b2 b5 where
    "b2 = put_u16 (put_u32 (zeros (BlockSize sb)) 0 n) 4 12"
    "b5 = put_u16 (put_u32 (put_u8 (put_u8 (put_u8 b2 6 1) 7 FtDir) 8 46) 12 p) 16
       (w16 (BlockSize sb - 12 - (if has_flag (FeatureROCompat sb) FeatROCompatMetadataCsum then 12 else 0)))"
    "dir_block sb n p = put_u8 (put_u8 (put_u8 (put_u8 b5 18 2) 19 FtDir) 20 46) 21 46"
    "length b2 = BlockSize sb" "length b5 = BlockSize sb"
  using assms that by (simp add: dir_block_def Let_def minDirentSize_def)

lemma dir_block_fields:
  assumes sb: "36 \<le> BlockSize sb" "BlockSize sb \<le> 65536" and np: "n < 4294967296" "p < 4294967296"
  defines "rl \<equiv> BlockSize sb - 12 - (if has_flag (FeatureROCompat sb) FeatROCompatMetadataCsum then 12 else 0)"
  shows "length (dir_block sb n p) = BlockSize sb"
    "rec_ino (dir_block sb n p) 0 = n" "rec_len (dir_block sb n p) 0 = 12" "rec_nameLen (dir_block sb n p) 0 = 1"
    "rec_type (dir_block sb n p) 0 = FtDir" "bytes_at (dir_block sb n p) 8 1 = [46]"
    "rec_ino (dir_block sb n p) 12 = p" "rec_len (dir_block sb n p) 12 = rl" "rec_nameLen (dir_block sb n p) 12 = 2"
    "rec_type (dir_block sb n p) 12 = FtDir" "bytes_at (dir_block sb n p) 20 2 = [46, 46]"
    "22 \<le> o' \<Longrightarrow> bytes_at (dir_block sb n p) o' k = bytes_at (zeros (BlockSize sb)) o' k"
proof -
  obtain b2 b5 where b: "b2 = put_u16 (put_u32 (zeros (BlockSize sb)) 0 n) 4 12"
    "b5 = put_u16 (put_u32 (put_u8 (put_u8 (put_u8 b2 6 1) 7 FtDir) 8 46) 12 p) 16 (w16 rl)"
    "dir_block sb n p = put_u8 (put_u8 (put_u8 (put_u8 b5 18 2) 19 FtDir) 20 46) 21 46"
    and len: "length b2 = BlockSize sb" "length b5 = BlockSize sb"
    using dir_block_steps [OF sb(1), of n p] unfolding rl_def by metis
  have rl: "rl < 65536"
    using sb(2) by (auto simp: rl_def)
  have f2: "u32_at b2 0 = n" "u16_at b2 4 = 12"
    using sb(1) np(1) by (simp_all add: b(1) codec_simps)
  have k2: "bytes_at b2 o' k = bytes_at (zeros (BlockSize sb)) o' k" if "6 \<le> o'" for o' k
    using sb(1) that by (simp add: b(1) bytes_at_put_other)
  have f5: "u32_at b5 0 = n" "u16_at b5 4 = 12" "u8_at b5 6 = 1" "u8_at b5 7 = FtDir" "u8_at b5 8 = 46" "u32_at b5 12 = p" "u16_at b5 16 = rl"
    using sb(1) np(2) rl len(1) f2 by (simp_all add: b(2) codec_simps w16_def)
  have k5: "bytes_at b5 o' k = bytes_at (zeros (BlockSize sb)) o' k" if "18 \<le> o'" for o' k
    using sb(1) that len(1) k2 [of o' k] by (simp add: b(2) bytes_at_put_other)
  show l: "length (dir_block sb n p) = BlockSize sb"
    using sb(1) len(2) by (simp add: b(3))
  show "rec_ino (dir_block sb n p) 0 = n" "rec_len (dir_block sb n p) 0 = 12" "rec_nameLen (dir_block sb n p) 0 = 1"
    "rec_type (dir_block sb n p) 0 = FtDir"
    "rec_ino (dir_block sb n p) 12 = p" "rec_len (dir_block sb n p) 12 = rl" "rec_nameLen (dir_block sb n p) 12 = 2"
    "rec_type (dir_block sb n p) 12 = FtDir"
    using sb(1) len(2) f5 by (simp_all add: b(3) codec_simps)
  have "u8_at (dir_block sb n p) 8 = 46" "u8_at (dir_block sb n p) 20 = 46" "u8_at (dir_block sb n p) 21 = 46"
    using sb(1) len(2) f5 by (simp_all add: b(3) codec_simps)
  then have "dir_block sb n p ! 8 = 46" "dir_block sb n p ! 20 = 46" "dir_block sb n p ! 21 = 46" "36 \<le> length (dir_block sb n p)"
    using sb(1) l by (simp_all add: byte_u8)
  then show "bytes_at (dir_block sb n p) 8 1 = [46]" "bytes_at (dir_block sb n p) 20 2 = [46, 46]"
    by (auto intro!: nth_equalityI simp: bytes_at_def less_Suc_eq numeral_2_eq_2)
  show "bytes_at (dir_block sb n p) o' k = bytes_at (zeros (BlockSize sb)) o' k" if "22 \<le> o'"
    using sb(1) that len(2) k5 [of o' k] by (simp add: b(3) bytes_at_put_other)
qed

definition dot_entries :: "u32 \<Rightarrow> u32 \<Rightarrow> DirEntry list" where
  "dot_entries n p = [\<lparr>de_Inode = n, de_Name = [46], de_FileType = FtDir\<rparr>, \<lparr>de_Inode = p, de_Name = [46, 46], de_FileType = FtDir\<rparr>]"

lemma le_nat_zeros: "le_nat (replicate k 0) = 0"
  by (induction k) simp_all

lemma uint_zeros [simp]: "u16_at (zeros m) off = 0" "u32_at (zeros m) off = 0"
  by (simp_all add: u16_at_def u32_at_def bytes_at_def zeros_def le_nat_zeros)

lemma dir_block_listing:
  assumes sb: "36 \<le> BlockSize sb" "BlockSize sb \<le> 65536" and np: "0 < n" "n < 4294967296" "0 < p" "p < 4294967296"
    and S: "checkBounds_ok S"
  shows "dir_block_ok sb (dir_block sb n p)" "parseDirBlock S (dir_block sb n p) = dot_entries n p"
proof -
  define b where "b = dir_block sb n p"
  define m where "m = has_flag (FeatureROCompat sb) FeatROCompatMetadataCsum"
  define rl where "rl = BlockSize sb - 12 - (if m then 12 else 0)"
  note f = dir_block_fields [OF sb np(2,4), folded b_def m_def rl_def]
  have e: "12 + rl = (if m then BlockSize sb - 12 else BlockSize sb)" "8 + 2 \<le> rl" "12 + rl \<le> BlockSize sb"
    using sb by (auto simp: rl_def)
  have z: "rec_len b (BlockSize sb - 12) = 0"
    using sb(1) f(12) [of "BlockSize sb - 12 + 4" 2] uint_zeros(1) [of "BlockSize sb" "BlockSize sb - 12 + 4"]
    by (simp add: u16_at_def b_def del: uint_zeros)
  have end_ok: "block_ok b (12 + rl)"
    using e z sb(1) f(1) by (cases m; simp add: block_ok.simps [of b "BlockSize sb - 12"] block_ok.simps [of b "BlockSize sb"])
  have end_parse: "parse_from S b (12 + rl) = []"
    using e z sb(1) f(1) by (cases m; simp add: parse_from.simps [of S b "BlockSize sb - 12"] parse_from.simps [of S b "BlockSize sb"])
  have l: "rec_live S b 0" "rec_live S b 12"
    using f np S e sb(1) by (simp_all add: rec_live_def checkBounds_ok_def)
  have en: "rec_entry b 0 = \<lparr>de_Inode = n, de_Name = [46], de_FileType = FtDir\<rparr>" "rec_entry b 12 = \<lparr>de_Inode = p, de_Name = [46, 46], de_FileType = FtDir\<rparr>"
    using f by (simp_all add: rec_entry_def)
  have "parse_from S b 12 = rec_entry b 12 # parse_from S b (12 + rl)"
    using parse_from_step [of 12 b S] f e sb(1) l by simp
  moreover have "parse_from S b 0 = rec_entry b 0 # parse_from S b 12"
    using parse_from_step [of 0 b S] f e sb(1) l by simp
  ultimately show "parseDirBlock S (dir_block sb n p) = dot_entries n p"
    using en end_parse by (simp add: parseDirBlock_def b_def dot_entries_def)
  have "block_ok b 12"
    using block_ok.simps [of b 12] f e sb(1) end_ok by simp
  then have b0: "block_ok b 0"
    using block_ok.simps [of b 0] f e sb(1) by simp
  have "reaches b (BlockSize sb - 12) 0" if m
  proof -
    have "reaches b (BlockSize sb - 12) (12 + rl)"
      using e that by (simp add: reaches.simps)
    then have "reaches b (BlockSize sb - 12) 12"
      using reaches.simps [of b "BlockSize sb - 12" 12] f e sb(1) that by (auto split: if_splits)
    then show ?thesis
      using reaches.simps [of b "BlockSize sb - 12" 0] f e sb(1) that by (auto split: if_splits)
  qed
  then show "dir_block_ok sb (dir_block sb n p)"
    using b0 f(1) sb(1) z by (simp add: dir_block_ok_def m_def b_def)
qed

text \<open>A write that leaves everything outside one range of the device as it was.\<close>

definition keeps :: "device \<Rightarrow> device \<Rightarrow> int \<Rightarrow> nat \<Rightarrow> bool" where
  "keeps f f' base len \<longleftrightarrow> (\<forall>off n b. ReadAt f off n = Inr b \<and> outside base len off n \<longrightarrow> ReadAt f' off n = Inr b)"

lemma keeps_readBGD:
  assumes "keeps f f' base len" "readBGD f fsOffset sb g = Inr d" "desc_range_apart fsOffset sb g base len"
  shows "readBGD f' fsOffset sb g = Inr d"
  using assms by (auto simp: readBGD_def res_bind_Inr_iff desc_range_apart_def keeps_def outside_def)

lemma keeps_block:
  assumes "keeps f f' base len" "readRawBlock f fsOffset sb q = Inr b" "outside base len (block_off fsOffset sb q) (BlockSize sb)"
  shows "readRawBlock f' fsOffset sb q = Inr b"
  using assms by (simp add: readRawBlock_def keeps_def)

lemma keeps_inode:
  assumes k: "keeps f f' base len" and d: "readBGD f fsOffset sb (inode_group sb n) = Inr d"
    and out: "desc_range_apart fsOffset sb (inode_group sb n) base len" "outside base len (inode_off f fsOffset sb n) (InodeSize sb)"
  shows "inode_off f' fsOffset sb n = inode_off f fsOffset sb n"
    "readInode f fsOffset sb n = Inr i \<Longrightarrow> readInode f' fsOffset sb n = Inr i"
proof -
  note d' = keeps_readBGD [OF k d out(1)]
  show "inode_off f' fsOffset sb n = inode_off f fsOffset sb n"
    using d d' by (simp add: inode_off_def)
  assume "readInode f fsOffset sb n = Inr i"
  then show "readInode f' fsOffset sb n = Inr i"
    using d d' k out(2) by (auto simp: readInode_eq res_bind_Inr_iff inode_off_def keeps_def split: if_splits)
qed

lemma writeRawBlock_keeps:
  assumes "writeRawBlock fsOffset sb q data f = (Inr (), f')" "length data = BlockSize sb"
  shows "keeps f f' (block_off fsOffset sb q) (BlockSize sb)" "readRawBlock f' fsOffset sb q = Inr data"
  using dv.read_frame [OF writeRawBlock_Inr [OF assms(1)]] dv.read_back [OF writeRawBlock_Inr [OF assms(1)]] assms(2)
  by (auto simp: keeps_def outside_def readRawBlock_def)

lemma writeInode_keeps:
  assumes w: "writeInode fsOffset sb i f = (Inr i', f')" and wf: "inode_wf sb i" "128 \<le> InodeSize sb"
    and num: "0 < in_num i" "in_num i \<le> InodesCount sb" "InodesCount sb < 4294967296"
    and d: "readBGD f fsOffset sb (inode_group sb (in_num i)) = Inr d"
      "desc_range_apart fsOffset sb (inode_group sb (in_num i)) (inode_off f fsOffset sb (in_num i)) (InodeSize sb)"
  shows "keeps f f' (inode_off f fsOffset sb (in_num i)) (InodeSize sb)"
    "readInode f' fsOffset sb (in_num i) = Inr (inode_writeBuf sb i)" "i' = inode_writeBuf sb i"
proof -
  show "keeps f f' (inode_off f fsOffset sb (in_num i)) (InodeSize sb)"
    using writeInode_frame [OF w _ _ wf] num by (auto simp: keeps_def)
  have "readInode f' fsOffset sb (in_num i) = Inr i' \<and> i' = inode_writeBuf sb i"
    using d by (intro write_read_inode_aux [OF w wf num d(1)]) (simp add: inode_off_def)
  then show "readInode f' fsOffset sb (in_num i) = Inr (inode_writeBuf sb i)" "i' = inode_writeBuf sb i"
    by simp_all
qed

lemma writeRawBlock_ok:
  assumes "dev_writable f" "geom_ok fsOffset sb" "q < BlocksCount sb"
  shows "\<exists>f'. writeRawBlock fsOffset sb q data f = (Inr (), f') \<and> dev_writable f'"
proof -
  have "0 \<le> block_off fsOffset sb q"
    using block_off_geom [OF assms(2,3)] assms(2) by (simp add: geom_ok_def)
  then show ?thesis
    using assms(1) by (simp add: writeRawBlock_def writeAtWithTrace_eq io_bind_def io_return_def WriteAt_Inr_unless)
qed

lemma writeInode_ok:
  assumes "dev_writable f" "InodesPerGroup sb \<noteq> 0" "0 < in_num i" "in_num i < 4294967296"
    and d: "readBGD f fsOffset sb (inode_group sb (in_num i)) = Inr d" "0 \<le> inode_off f fsOffset sb (in_num i)"
  shows "\<exists>i' f'. writeInode fsOffset sb i f = (Inr i', f') \<and> dev_writable f'"
proof -
  have s: "sub32 (in_num i) 1 = in_num i - 1"
    by (rule sub32_1) (use assms in auto)
  have "0 \<le> i64 (fsOffset + inode_off_in sb d (in_num i))"
    using d by (simp add: inode_off_def)
  with assms show ?thesis
    unfolding writeInode_def s inode_off_in_def inode_index_def inode_group_def
    by (simp add: writeAtWithTrace_eq Let_def WriteAt_Inr_unless)
qed

text \<open>
  The places an update of a directory touches: the inodes of \<open>nums\<close> and the blocks \<open>qs\<close>.  Inodes
  and blocks do not overlap each other nor the descriptors of the groups of \<open>nums\<close>.
\<close>

definition places_apart :: "device \<Rightarrow> int \<Rightarrow> superblock \<Rightarrow> u32 list \<Rightarrow> u64 list \<Rightarrow> bool" where
  "places_apart f fsOffset sb nums qs \<longleftrightarrow>
    list_all (\<lambda>k. (case readBGD f fsOffset sb (inode_group sb k) of Inl _ \<Rightarrow> False | Inr _ \<Rightarrow> True) \<and> 0 \<le> inode_off f fsOffset sb k) nums
    \<and> list_all (\<lambda>k. list_all (\<lambda>m. desc_range_apart fsOffset sb (inode_group sb k) (inode_off f fsOffset sb m) (InodeSize sb)
         \<and> (m \<noteq> k \<longrightarrow> outside (inode_off f fsOffset sb m) (InodeSize sb) (inode_off f fsOffset sb k) (InodeSize sb))) nums) nums
    \<and> list_all (\<lambda>k. list_all (\<lambda>q. desc_range_apart fsOffset sb (inode_group sb k) (block_off fsOffset sb q) (BlockSize sb)
         \<and> outside (inode_off f fsOffset sb k) (InodeSize sb) (block_off fsOffset sb q) (BlockSize sb)) qs) nums"

lemma outside_sym: "outside a n b m = outside b m a n"
  by (auto simp: outside_def)

lemma places_apart_iff:
  "places_apart f fsOffset sb nums qs \<longleftrightarrow>
    (\<forall>k\<in>set nums. (\<exists>d. readBGD f fsOffset sb (inode_group sb k) = Inr d) \<and> 0 \<le> inode_off f fsOffset sb k
      \<and> (\<forall>m\<in>set nums. desc_range_apart fsOffset sb (inode_group sb k) (inode_off f fsOffset sb m) (InodeSize sb)
           \<and> (m \<noteq> k \<longrightarrow> outside (inode_off f fsOffset sb m) (InodeSize sb) (inode_off f fsOffset sb k) (InodeSize sb)))
      \<and> (\<forall>q\<in>set qs. desc_range_apart fsOffset sb (inode_group sb k) (block_off fsOffset sb q) (BlockSize sb)
           \<and> outside (inode_off f fsOffset sb k) (InodeSize sb) (block_off fsOffset sb q) (BlockSize sb)))"
proof -
  have "(case r of Inl _ \<Rightarrow> False | Inr _ \<Rightarrow> True) = (\<exists>d. r = Inr d)" for r :: "bgd result"
    by (cases r) simp_all
  then show ?thesis
    unfolding places_apart_def list_all_iff by blast
qed

lemma places_apartD:
  assumes "places_apart f fsOffset sb nums qs" "k \<in> set nums"
  shows "\<exists>d. readBGD f fsOffset sb (inode_group sb k) = Inr d"
    "m \<in> set nums \<Longrightarrow> desc_range_apart fsOffset sb (inode_group sb k) (inode_off f fsOffset sb m) (InodeSize sb)"
    "m \<in> set nums \<Longrightarrow> m \<noteq> k \<Longrightarrow> outside (inode_off f fsOffset sb m) (InodeSize sb) (inode_off f fsOffset sb k) (InodeSize sb)"
    "q \<in> set qs \<Longrightarrow> desc_range_apart fsOffset sb (inode_group sb k) (block_off fsOffset sb q) (BlockSize sb)"
    "q \<in> set qs \<Longrightarrow> outside (inode_off f fsOffset sb k) (InodeSize sb) (block_off fsOffset sb q) (BlockSize sb)"
    "0 \<le> inode_off f fsOffset sb k"
  using assms unfolding places_apart_iff by simp_all

lemma places_block_write:
  assumes p: "places_apart f fsOffset sb nums qs" and q: "q \<in> set qs"
    and k: "keeps f f' (block_off fsOffset sb q) (BlockSize sb)"
  shows "places_apart f' fsOffset sb nums qs"
    "k \<in> set nums \<Longrightarrow> readInode f fsOffset sb k = Inr i \<Longrightarrow> readInode f' fsOffset sb k = Inr i"
proof -
  have o: "inode_off f' fsOffset sb m = inode_off f fsOffset sb m \<and> (\<exists>d. readBGD f' fsOffset sb (inode_group sb m) = Inr d)
     \<and> (\<forall>i. readInode f fsOffset sb m = Inr i \<longrightarrow> readInode f' fsOffset sb m = Inr i)"
    if m: "m \<in> set nums" for m
  proof -
    obtain d where d: "readBGD f fsOffset sb (inode_group sb m) = Inr d"
      "desc_range_apart fsOffset sb (inode_group sb m) (block_off fsOffset sb q) (BlockSize sb)"
      "outside (block_off fsOffset sb q) (BlockSize sb) (inode_off f fsOffset sb m) (InodeSize sb)"
      using places_apartD(1) [OF p m] places_apartD(4,5) [OF p m q] outside_sym by blast
    show ?thesis
      using keeps_inode [OF k d] keeps_readBGD [OF k d(1,2)] by blast
  qed
  show "places_apart f' fsOffset sb nums qs"
    using p o unfolding places_apart_iff by simp
  show "k \<in> set nums \<Longrightarrow> readInode f fsOffset sb k = Inr i \<Longrightarrow> readInode f' fsOffset sb k = Inr i"
    using o by blast
qed

lemma places_inode_write:
  assumes p: "places_apart f fsOffset sb nums qs" and n: "n \<in> set nums"
    and k: "keeps f f' (inode_off f fsOffset sb n) (InodeSize sb)"
  shows "places_apart f' fsOffset sb nums qs"
    "m \<in> set nums \<Longrightarrow> m \<noteq> n \<Longrightarrow> readInode f fsOffset sb m = Inr i \<Longrightarrow> readInode f' fsOffset sb m = Inr i"
    "q \<in> set qs \<Longrightarrow> readRawBlock f fsOffset sb q = Inr b \<Longrightarrow> readRawBlock f' fsOffset sb q = Inr b"
proof -
  have d: "readBGD f' fsOffset sb (inode_group sb m) = Inr d" if "m \<in> set nums" "readBGD f fsOffset sb (inode_group sb m) = Inr d" for m d
    by (rule keeps_readBGD [OF k that(2) places_apartD(2) [OF p that(1) n]])
  have o: "inode_off f' fsOffset sb m = inode_off f fsOffset sb m" if m: "m \<in> set nums" for m
  proof -
    obtain d where "readBGD f fsOffset sb (inode_group sb m) = Inr d"
      using places_apartD(1) [OF p m] by blast
    then show ?thesis
      using d [OF m] by (simp add: inode_off_def)
  qed
  have e: "\<exists>d. readBGD f' fsOffset sb (inode_group sb m) = Inr d" if "m \<in> set nums" for m
    using places_apartD(1) [OF p that] d [OF that] by blast
  show "places_apart f' fsOffset sb nums qs"
    using p o e unfolding places_apart_iff by simp
  show "readInode f' fsOffset sb m = Inr i" if m: "m \<in> set nums" "m \<noteq> n" "readInode f fsOffset sb m = Inr i"
  proof -
    obtain d where "readBGD f fsOffset sb (inode_group sb m) = Inr d"
      using places_apartD(1) [OF p m(1)] by blast
    then show ?thesis
      using m(3) by (rule keeps_inode(2) [OF k _ places_apartD(2) [OF p m(1) n] places_apartD(3) [OF p m(1) n m(2) [symmetric]]])
  qed
  show "readRawBlock f' fsOffset sb q = Inr b" if "q \<in> set qs" "readRawBlock f fsOffset sb q = Inr b"
    by (rule keeps_block [OF k that(2) places_apartD(5) [OF p n that(1)]])
qed

text \<open>Edits of an inode that leave its flags and its block map alone leave its extents alone.\<close>

lemma same_map:
  assumes "inode_flags i' = inode_flags i" "iblock i' = iblock i"
  shows "extents S f fsOffset sb i' = extents S f fsOffset sb i"
  using assms by (simp add: extents_def)

lemma inode_writeBuf_map:
  assumes "inode_wf sb i" "128 \<le> InodeSize sb"
  shows "inode_flags (inode_writeBuf sb i) = inode_flags i" "iblock (inode_writeBuf sb i) = iblock i"
    "links_of (inode_writeBuf sb i) = links_of i"
  using assms by (auto simp: inode_writeBuf_def computeInodeCsum_def Let_def inode_wf_def codec_simps inode_flags_def iblock_def links_of_def)

lemma set_links_map:
  assumes "inode_wf sb i" "128 \<le> InodeSize sb"
  shows "inode_flags (set_links n i) = inode_flags i" "iblock (set_links n i) = iblock i" "inode_wf sb (set_links n i)"
    "in_num (set_links n i) = in_num i" "n < 65536 \<Longrightarrow> links_of (set_links n i) = n"
  using assms by (auto simp: set_links_def inode_wf_iff codec_simps inode_flags_def iblock_def links_of_def)

lemma dir_mode: "(w16 (perm AND 0x1FF) OR 0x4000) < 65536" "(w16 (perm AND 0x1FF) OR 0x4000) AND 0xF000 = 0x4000"
proof -
  have m: "perm AND 0x1FF = take_bit 9 perm"
    by (simp add: take_bit_eq_mask mask_eq_exp_minus_1)
  have w: "w16 (perm AND 0x1FF) = take_bit 9 perm"
    using take_bit_nat_less_exp [of 9 perm] by (simp add: m w16_def)
  have b: "bit (0x4000 :: nat) n \<longleftrightarrow> n = 14" for n
    using bit_exp_iff [where 'a = nat, of 14 n] by simp
  have "take_bit 16 (take_bit 9 perm OR 0x4000) = take_bit 9 perm OR 0x4000"
    by (rule bit_eqI) (auto simp: bit_take_bit_iff bit_or_iff b)
  then show "(w16 (perm AND 0x1FF) OR 0x4000) < 65536"
    using take_bit_nat_eq_self_iff [of 16 "take_bit 9 perm OR 0x4000"] by (simp add: w)
  show "(w16 (perm AND 0x1FF) OR 0x4000) AND 0xF000 = 0x4000"
    unfolding w by (rule bit_eqI) (auto simp: bit_take_bit_iff bit_or_iff bit_and_iff b bit_F000)
qed

lemma dir_inode_wf:
  fixes now perm num
  assumes sb: "128 \<le> InodeSize sb" "BlockSize sb \<le> 65536" and p: "p < 281474976710656"
  defines "i \<equiv> dir_inode sb now perm num p"
  shows "inode_wf sb i" "in_num i = num" "isDir i" "links_of i = 2"
    "extents S f fsOffset sb i = Inr (one_block p)" "u16_at (iblock i) 6 = 0"
proof -
  define k where "k = setSize (BlockSize sb) (setMode (w16 (perm AND 0x1FF) OR 0x4000) 2 (fresh_inode sb num))"
  define j where "j = set_times now (setBlocks512 (BlockSize sb div 512) k)"
  have "inode_wf sb (fresh_inode sb num)"
    using sb(1) by (simp add: inode_wf_iff fresh_inode_def join32_def)
  then have wfk: "inode_wf sb k"
    using sb dir_mode(1) setSize_wf [OF setMode_wf] by (simp add: k_def)
  have k: "in_num k = num" "isDir k" "links_of k = 2" "inode_flags k = 0"
    using sb by (simp_all add: k_def isDir_def dir_mode(2) setSize_def setMode_def links_of_def inode_flags_def codec_simps fresh_inode_def)
  have j: "inode_wf sb j" "in_num j = num" "isDir j" "links_of j = 2" "inode_flags j = 0" and lj: "length (in_raw j) = InodeSize sb"
    using wfk k sb(1) by (simp_all add: j_def set_times_def setBlocks512_def isDir_def links_of_def inode_flags_def codec_simps inode_wf_iff)
  define b where "b = put_leaves (put_u32 (put_header (zeros 60) (w16 (length (one_block p))) 4 0) 8 0) 0 (one_block p)"
  have lb: "length b = 60"
    by (simp add: b_def one_block_def)
  have s: "setInlineExtents (one_block p) j = Inr i" and i: "i = j\<lparr>in_raw := set_extents_flag (put_bytes (in_raw j) 40 b)\<rparr>"
    by (simp_all add: i_def dir_inode_def j_def k_def Let_def setInlineExtents_def one_block_def b_def)
  have u: "u32_at (in_raw i) 108 = u32_at (in_raw j) 108" "u32_at (in_raw i) 4 = u32_at (in_raw j) 4" "u16_at (in_raw i) 0 = u16_at (in_raw j) 0"
    "u16_at (in_raw i) 26 = u16_at (in_raw j) 26" "length (in_raw i) = InodeSize sb"
    using lb lj sb(1) by (simp_all add: i set_extents_flag_def codec_simps u32_at_def u16_at_def bytes_at_put_bytes_other)
  show "inode_wf sb i"
    using j(1) u by (simp add: inode_wf_iff) (simp add: i)
  show "in_num i = num" "isDir i"
    using j by (simp_all add: i isDir_def)
  show "links_of i = 2"
    using j(4) u by (simp add: links_of_def)
  show "extents S f fsOffset sb i = Inr (one_block p)"
    using lj sb(1) p j(5)
    by (intro setInlineExtents_parse [OF s]) (simp_all add: one_block_def leaf_ok_def validateExtents_def has_flag_def)
  have "iblock i = b"
    using lb lj sb(1) by (simp add: i iblock_set)
  then show "u16_at (iblock i) 6 = 0"
    by (simp add: b_def one_block_def put_leaf_def put_header_def codec_simps)
qed

section \<open>Installing a directory\<close>

text \<open>A directory whose extents fit its inode, with well-formed blocks and the listing \<open>es\<close>.\<close>

definition dir_on_disk :: "'v safeio \<Rightarrow> device \<Rightarrow> int \<Rightarrow> superblock \<Rightarrow> inode \<Rightarrow> extentLeaf list \<Rightarrow> DirEntry list \<Rightarrow> bool" where
  "dir_on_disk S f fsOffset sb dirIno exts es \<longleftrightarrow>
     extents S f fsOffset sb dirIno = Inr exts \<and> u16_at (iblock dirIno) 6 = 0
   \<and> readDir S f fsOffset sb dirIno = Inr es
   \<and> distinct (map snd (ext_blocks exts)) \<and> (\<forall>q\<in>snd ` set (ext_blocks exts). q < BlocksCount sb)
   \<and> (\<forall>q\<in>snd ` set (ext_blocks exts). \<forall>b. readRawBlock f fsOffset sb q = Inr b \<longrightarrow> dir_block_ok sb b)"

definition dir_has_room :: "device \<Rightarrow> int \<Rightarrow> superblock \<Rightarrow> inode \<Rightarrow> extentLeaf list \<Rightarrow> u32 \<Rightarrow> gostring \<Rightarrow> u8 \<Rightarrow> bool" where
  "dir_has_room f fsOffset sb dirIno exts childIno name fileType \<longleftrightarrow>
    (\<exists>(l, p)\<in>set (ext_blocks exts). \<not> (has_flag (inode_flags dirIno) InodeFlagHashIndex \<and> w32 l = 0)
      \<and> (\<exists>buf. readRawBlock f fsOffset sb p = Inr buf
           \<and> tryInsertDirEntry buf childIno name fileType (minDirentSize (length name)) \<noteq> None))"

lemma read_blocks_defined:
  "read_dir_blocks S f fsOffset sb ps = Inr es \<Longrightarrow> q \<in> set ps \<Longrightarrow> \<exists>b. readRawBlock f fsOffset sb q = Inr b"
  by (induction ps arbitrary: es) (auto simp: res_bind_Inr_iff)

lemma dir_kept:
  assumes d: "dir_on_disk S f fsOffset sb dirIno exts es"
    and k: "\<And>q b. q \<in> snd ` set (ext_blocks exts) \<Longrightarrow> readRawBlock f fsOffset sb q = Inr b \<Longrightarrow> readRawBlock f' fsOffset sb q = Inr b"
  shows "dir_on_disk S f' fsOffset sb dirIno exts es"
    "dir_has_room f fsOffset sb dirIno exts n name ft \<Longrightarrow> dir_has_room f' fsOffset sb dirIno exts n name ft"
proof -
  have e: "extents S f' fsOffset sb dirIno = Inr exts" "extents S f fsOffset sb dirIno = Inr exts"
    using d extents_in_inode by (metis dir_on_disk_def)+
  have r: "read_dir_blocks S f fsOffset sb (map snd (ext_blocks exts)) = Inr es"
    using d readDir_extents [OF e(2)] by (simp add: dir_on_disk_def)
  have "readDir S f' fsOffset sb dirIno = Inr es"
    using readDir_extents [OF e(1)] read_dir_blocks_frame [OF r] k by simp
  moreover have "dir_block_ok sb b" if q: "q \<in> snd ` set (ext_blocks exts)" "readRawBlock f' fsOffset sb q = Inr b" for q b
  proof -
    obtain b' where b': "readRawBlock f fsOffset sb q = Inr b'"
      using read_blocks_defined [OF r, unfolded set_map, OF q(1)] ..
    have "b' = b"
      using k [OF q(1) b'] q(2) by simp
    then show ?thesis
      using d b' q(1) unfolding dir_on_disk_def by blast
  qed
  ultimately show "dir_on_disk S f' fsOffset sb dirIno exts es"
    using d e(1) by (simp add: dir_on_disk_def)
  assume "dir_has_room f fsOffset sb dirIno exts n name ft"
  then obtain l p buf where r: "(l, p) \<in> set (ext_blocks exts)" "\<not> (has_flag (inode_flags dirIno) InodeFlagHashIndex \<and> w32 l = 0)"
    "readRawBlock f fsOffset sb p = Inr buf" "tryInsertDirEntry buf n name ft (minDirentSize (length name)) \<noteq> None"
    unfolding dir_has_room_def by blast
  moreover have "p \<in> snd ` set (ext_blocks exts)"
    using r(1) by force
  ultimately show "dir_has_room f' fsOffset sb dirIno exts n name ft"
    using k unfolding dir_has_room_def by blast
qed

lemma dir_edited:
  assumes "dir_on_disk S f fsOffset sb i exts es" "inode_flags i' = inode_flags i" "iblock i' = iblock i"
  shows "readDir S f fsOffset sb i' = Inr es"
proof -
  have e: "extents S f fsOffset sb i = Inr exts" and r: "readDir S f fsOffset sb i = Inr es"
    using assms(1) by (simp_all add: dir_on_disk_def)
  have "extents S f fsOffset sb i' = Inr exts"
    using same_map [OF assms(2,3), of S f fsOffset sb] e by simp
  then show ?thesis
    using readDir_extents [OF e] r by (simp add: readDir_extents)
qed

lemma addDirEntry_on_disk:
  assumes a: "addDirEntry E S fsOffset dirIno childIno name fileType s = (Inr i', s')"
    and d: "dir_on_disk S (fs_dev s) fsOffset (fs_sb s) dirIno exts es"
    and room: "dir_has_room (fs_dev s) fsOffset (fs_sb s) dirIno exts childIno name fileType"
    and S: "checkBounds_ok S" "geom_ok fsOffset (fs_sb s)"
    and n: "0 < length name" "length name < 256" "childIno \<noteq> 0" "childIno < 4294967296" "fileType < 256" "fileType \<noteq> FtDirTail"
  obtains pre post q where "i' = dirIno" "fs_sb s' = fs_sb s" "es = pre @ post" "q \<in> snd ` set (ext_blocks exts)"
    "keeps (fs_dev s) (fs_dev s') (block_off fsOffset (fs_sb s) q) (BlockSize (fs_sb s))"
    "readDir S (fs_dev s') fsOffset (fs_sb s) dirIno = Inr (pre @ \<lparr>de_Inode = childIno, de_Name = name, de_FileType = fileType\<rparr> # post)"
proof -
  obtain l p buf where r: "(l, p) \<in> set (ext_blocks exts)" "\<not> (has_flag (inode_flags dirIno) InodeFlagHashIndex \<and> w32 l = 0)"
    "readRawBlock (fs_dev s) fsOffset (fs_sb s) p = Inr buf" "tryInsertDirEntry buf childIno name fileType (minDirentSize (length name)) \<noteq> None"
    using room unfolding dir_has_room_def by blast
  have d': "extents S (fs_dev s) fsOffset (fs_sb s) dirIno = Inr exts" "u16_at (iblock dirIno) 6 = 0"
    "readDir S (fs_dev s) fsOffset (fs_sb s) dirIno = Inr es" "distinct (map snd (ext_blocks exts))"
    "\<forall>q\<in>snd ` set (ext_blocks exts). q < BlocksCount (fs_sb s)"
    "\<And>q b. q \<in> snd ` set (ext_blocks exts) \<Longrightarrow> readRawBlock (fs_dev s) fsOffset (fs_sb s) q = Inr b \<Longrightarrow> dir_block_ok (fs_sb s) b"
    using d unfolding dir_on_disk_def by blast+
  have "i' = dirIno \<and> fs_sb s' = fs_sb s
    \<and> (\<exists>pre post. es = pre @ post
         \<and> readDir S (fs_dev s') fsOffset (fs_sb s') dirIno
            = Inr (pre @ \<lparr>de_Inode = childIno, de_Name = name, de_FileType = fileType\<rparr> # post))
    \<and> (\<exists>q\<in>snd ` set (ext_blocks exts). \<forall>off n b. ReadAt (fs_dev s) off n = Inr b
         \<and> outside (block_off fsOffset (fs_sb s) q) (BlockSize (fs_sb s)) off n \<longrightarrow> ReadAt (fs_dev s') off n = Inr b)"
    by (rule addDirEntry_effect [OF a d'(1-3) r d'(4,5) _ S n]) (rule d'(6))
  then have i: "i' = dirIno" and sb: "fs_sb s' = fs_sb s"
    and ex: "\<exists>pre post. es = pre @ post \<and> readDir S (fs_dev s') fsOffset (fs_sb s') dirIno
            = Inr (pre @ \<lparr>de_Inode = childIno, de_Name = name, de_FileType = fileType\<rparr> # post)"
    and fr: "\<exists>q\<in>snd ` set (ext_blocks exts). keeps (fs_dev s) (fs_dev s') (block_off fsOffset (fs_sb s) q) (BlockSize (fs_sb s))"
    unfolding keeps_def by blast+
  from ex fr show ?thesis
    using that [OF i sb] unfolding sb by blast
qed

lemma block_off_outside:
  assumes "geom_ok fsOffset sb" "p < BlocksCount sb" "q < BlocksCount sb" "q \<noteq> p"
  shows "outside (block_off fsOffset sb p) (BlockSize sb) (block_off fsOffset sb q) (BlockSize sb)"
proof -
  have "q * BlockSize sb + BlockSize sb \<le> p * BlockSize sb \<or> p * BlockSize sb + BlockSize sb \<le> q * BlockSize sb"
    using assms(4) mult_le_mono1 [of "Suc q" p "BlockSize sb"] mult_le_mono1 [of "Suc p" q "BlockSize sb"]
    by (cases "q < p") (simp_all add: add.commute)
  then show ?thesis
    unfolding outside_def block_off_geom [OF assms(1,2)] block_off_geom [OF assms(1,3)] by linarith
qed

lemma insert_blocks_ok:
  assumes w: "dev_writable (fs_dev s)" "geom_ok fsOffset (fs_sb s)"
  shows "\<forall>q\<in>snd ` set bs. q < BlocksCount (fs_sb s) \<and> (\<exists>b. readRawBlock (fs_dev s) fsOffset (fs_sb s) q = Inr b) \<Longrightarrow>
    \<exists>r s'. insert_blocks fsOffset dirIno childIno name fileType bs s = (Inr r, s') \<and> dev_writable (fs_dev s')"
proof (induction bs)
  case (Cons x bs)
  obtain l p where x: "x = (l, p)"
    by (rule prod.exhaust)
  obtain b where b: "readRawBlock (fs_dev s) fsOffset (fs_sb s) p = Inr b" "p < BlocksCount (fs_sb s)"
    using Cons.prems by (auto simp: x)
  have ih: "\<exists>r s'. insert_blocks fsOffset dirIno childIno name fileType bs s = (Inr r, s') \<and> dev_writable (fs_dev s')"
    using Cons by simp
  show ?case
  proof (cases "tryInsertDirEntry b childIno name fileType (minDirentSize (length name))")
    case (Some b')
    obtain f' where "writeRawBlock fsOffset (fs_sb s) p (updateDirBlockCsum b' (fs_sb s) dirIno) (fs_dev s) = (Inr (), f')" "dev_writable f'"
      using writeRawBlock_ok [OF w b(2)] by blast
    then show ?thesis
      using b Some ih by (simp add: x io_bind_def op_dev_def on_dev_def io_return_def) blast
  qed (use b ih in \<open>simp add: x\<close>)
qed (use w in auto)

lemma addDirEntry_ok:
  assumes d: "dir_on_disk S (fs_dev s) fsOffset (fs_sb s) dirIno exts es"
    and room: "dir_has_room (fs_dev s) fsOffset (fs_sb s) dirIno exts childIno name fileType"
    and w: "dev_writable (fs_dev s)" "geom_ok fsOffset (fs_sb s)"
  shows "\<exists>s'. addDirEntry E S fsOffset dirIno childIno name fileType s = (Inr dirIno, s') \<and> dev_writable (fs_dev s')"
proof -
  have e: "extents S (fs_dev s) fsOffset (fs_sb s) dirIno = Inr exts" and c: "\<forall>q\<in>snd ` set (ext_blocks exts). q < BlocksCount (fs_sb s)"
    using d by (simp_all add: dir_on_disk_def)
  have r: "read_dir_blocks S (fs_dev s) fsOffset (fs_sb s) (map snd (ext_blocks exts)) = Inr es"
    using d readDir_extents [OF e] by (simp add: dir_on_disk_def)
  have "\<forall>q\<in>snd ` set (ext_blocks exts). q < BlocksCount (fs_sb s) \<and> (\<exists>b. readRawBlock (fs_dev s) fsOffset (fs_sb s) q = Inr b)"
    using read_blocks_defined [OF r, unfolded set_map] c by blast
  from insert_blocks_ok [OF w this] obtain ok s1 where
    i: "insert_blocks fsOffset dirIno childIno name fileType (ext_blocks exts) s = (Inr ok, s1)" "dev_writable (fs_dev s1)"
    by blast
  obtain l p buf where "(l, p) \<in> set (ext_blocks exts)" "\<not> (has_flag (inode_flags dirIno) InodeFlagHashIndex \<and> w32 l = 0)"
    "readRawBlock (fs_dev s) fsOffset (fs_sb s) p = Inr buf" "tryInsertDirEntry buf childIno name fileType (minDirentSize (length name)) \<noteq> None"
    using room unfolding dir_has_room_def by blast
  from insert_blocks_finds [OF this, of s1] i(1) have ok
    by (cases ok) auto
  with i e show ?thesis
    by (simp add: addDirEntry_def io_bind_def op_read_def io_return_def)
qed

lemma addDirEntry_done:
  assumes d: "dir_on_disk S (fs_dev s) fsOffset (fs_sb s) dirIno exts es"
    and room: "dir_has_room (fs_dev s) fsOffset (fs_sb s) dirIno exts childIno name fileType"
    and w: "dev_writable (fs_dev s)" "geom_ok fsOffset (fs_sb s)" and S: "checkBounds_ok S"
    and n: "0 < length name" "length name < 256" "childIno \<noteq> 0" "childIno < 4294967296" "fileType < 256" "fileType \<noteq> FtDirTail"
  obtains s' pre post q where "addDirEntry E S fsOffset dirIno childIno name fileType s = (Inr dirIno, s')"
    "dev_writable (fs_dev s')" "fs_sb s' = fs_sb s" "es = pre @ post" "q \<in> snd ` set (ext_blocks exts)"
    "keeps (fs_dev s) (fs_dev s') (block_off fsOffset (fs_sb s) q) (BlockSize (fs_sb s))"
    "readDir S (fs_dev s') fsOffset (fs_sb s) dirIno = Inr (pre @ \<lparr>de_Inode = childIno, de_Name = name, de_FileType = fileType\<rparr> # post)"
proof -
  obtain s' where s': "addDirEntry E S fsOffset dirIno childIno name fileType s = (Inr dirIno, s')" "dev_writable (fs_dev s')"
    using addDirEntry_ok [OF d room w] by blast
  show ?thesis
    by (rule addDirEntry_on_disk [OF s'(1) d room S w(2) n]) (rule that [OF s'])
qed

text \<open>The first two writes: the block and the inode of the new directory.\<close>

lemma new_dir_written:
  fixes now perm n f sb
  assumes d: "dir_on_disk S f fsOffset sb parent exts es" and room: "dir_has_room f fsOffset sb parent exts n name FtDir"
    and new: "p < BlocksCount sb" "p < 281474976710656" "p \<notin> snd ` set (ext_blocks exts)" "0 < n" "n \<le> InodesCount sb"
    and pl: "places_apart f fsOffset sb [n, in_num parent] (p # map snd (ext_blocks exts))"
    and sb: "128 \<le> InodeSize sb" "InodesCount sb < 4294967296" "geom_ok fsOffset sb" "InodesPerGroup sb \<noteq> 0" "dev_writable f"
    and D: "length D = BlockSize sb"
  defines "N \<equiv> dir_inode sb now perm n p"
  obtains f1 f2 where "writeRawBlock fsOffset sb p D f = (Inr (), f1)" "writeInode fsOffset sb N f1 = (Inr (inode_writeBuf sb N), f2)"
    "dev_writable f2" "places_apart f2 fsOffset sb [n, in_num parent] (p # map snd (ext_blocks exts))"
    "dir_on_disk S f2 fsOffset sb parent exts es" "dir_has_room f2 fsOffset sb parent exts n name FtDir"
    "readRawBlock f2 fsOffset sb p = Inr D" "readInode f2 fsOffset sb n = Inr (inode_writeBuf sb N)"
proof -
  have bs: "BlockSize sb \<le> 65536"
    using sb(3) by (simp add: geom_ok_def)
  note N = dir_inode_wf(1,2) [OF sb(1) bs new(2), where now = now and perm = perm and num = n, folded N_def]
  have mem: "p \<in> set (p # map snd (ext_blocks exts))" "n \<in> set [n, in_num parent]"
    by simp_all
  obtain f1 where f1: "writeRawBlock fsOffset sb p D f = (Inr (), f1)" "dev_writable f1"
    using writeRawBlock_ok [OF sb(5,3) new(1)] by blast
  note k1 = writeRawBlock_keeps [OF f1(1) D]
  note p1 = places_block_write(1) [OF pl mem(1) k1(1)]
  have k: "readRawBlock f1 fsOffset sb q = Inr b" if "q \<in> snd ` set (ext_blocks exts)" "readRawBlock f fsOffset sb q = Inr b" for q b
  proof (rule keeps_block [OF k1(1) that(2) block_off_outside [OF sb(3) new(1)]])
    show "q < BlocksCount sb" "q \<noteq> p"
      using d that(1) new(3) unfolding dir_on_disk_def by blast+
  qed
  obtain g1 where g1: "readBGD f1 fsOffset sb (inode_group sb n) = Inr g1"
    using places_apartD(1) [OF p1 mem(2)] by blast
  obtain i2 f2 where f2: "writeInode fsOffset sb N f1 = (Inr i2, f2)" "dev_writable f2"
    using writeInode_ok [OF f1(2) sb(4), of N fsOffset g1] N(2) g1 new(4,5) sb(2) places_apartD(6) [OF p1 mem(2)] by auto
  have k2: "keeps f1 f2 (inode_off f1 fsOffset sb n) (InodeSize sb)"
    "readInode f2 fsOffset sb n = Inr (inode_writeBuf sb N)" "i2 = inode_writeBuf sb N"
    using writeInode_keeps [OF f2(1) N(1) sb(1)] g1 places_apartD(2) [OF p1 mem(2,2)] new(4,5) sb(2) N(2) by simp_all
  note p2 = places_inode_write [OF p1 mem(2) k2(1)]
  have d1: "dir_on_disk S f1 fsOffset sb parent exts es" "dir_has_room f1 fsOffset sb parent exts n name FtDir"
    using dir_kept [OF d k] room by blast+
  have "readRawBlock f2 fsOffset sb q = Inr b" if "q \<in> snd ` set (ext_blocks exts)" "readRawBlock f1 fsOffset sb q = Inr b" for q b
    using p2(3) [OF _ that(2)] that(1) by simp
  from dir_kept [OF d1(1) this] d1(2)
  have "dir_on_disk S f2 fsOffset sb parent exts es" "dir_has_room f2 fsOffset sb parent exts n name FtDir"
    by blast+
  moreover have "readRawBlock f2 fsOffset sb p = Inr D"
    by (rule p2(3) [OF mem(1) k1(2)])
  ultimately show ?thesis
    using that f1 f2 k2 p2(1) by blast
qed

text \<open>The last write: the parent's link count, after the entry was added.\<close>

lemma parent_written:
  assumes par: "inode_wf sb parent" "0 < in_num parent" "in_num parent \<le> InodesCount sb" "n \<noteq> in_num parent"
    and pl: "places_apart f fsOffset sb [n, in_num parent] qs"
    and sb: "128 \<le> InodeSize sb" "InodesCount sb < 4294967296" "InodesPerGroup sb \<noteq> 0" "dev_writable f"
    and k: "k < 65536"
  obtains f' where "writeInode fsOffset sb (set_links k parent) f = (Inr (inode_writeBuf sb (set_links k parent)), f')"
    "readInode f' fsOffset sb (in_num parent) = Inr (inode_writeBuf sb (set_links k parent))"
    "links_of (inode_writeBuf sb (set_links k parent)) = k"
    "inode_flags (inode_writeBuf sb (set_links k parent)) = inode_flags parent"
    "iblock (inode_writeBuf sb (set_links k parent)) = iblock parent"
    "\<And>q b. q \<in> set qs \<Longrightarrow> readRawBlock f fsOffset sb q = Inr b \<Longrightarrow> readRawBlock f' fsOffset sb q = Inr b"
    "\<And>i. readInode f fsOffset sb n = Inr i \<Longrightarrow> readInode f' fsOffset sb n = Inr i"
proof -
  define P where "P = set_links k parent"
  note P = set_links_map [OF par(1) sb(1), of k, folded P_def]
  note PB = inode_writeBuf_map [OF P(3) sb(1)]
  have mem: "in_num parent \<in> set [n, in_num parent]" "n \<in> set [n, in_num parent]"
    by simp_all
  obtain g where g: "readBGD f fsOffset sb (inode_group sb (in_num parent)) = Inr g"
    using places_apartD(1) [OF pl mem(1)] by blast
  obtain i' f' where f': "writeInode fsOffset sb P f = (Inr i', f')"
    using writeInode_ok [OF sb(4,3), of P fsOffset g] P(4) g par(2,3) sb(2) places_apartD(6) [OF pl mem(1)] by auto
  have kp: "keeps f f' (inode_off f fsOffset sb (in_num parent)) (InodeSize sb)"
    "readInode f' fsOffset sb (in_num parent) = Inr (inode_writeBuf sb P)" "i' = inode_writeBuf sb P"
    using writeInode_keeps [OF f' P(3) sb(1)] g places_apartD(2) [OF pl mem(1,1)] par(2,3) sb(2) P(4) by simp_all
  note pw = places_inode_write [OF pl mem(1) kp(1)]
  show ?thesis
  proof (rule that [of f', folded P_def])
    show "readInode f' fsOffset sb n = Inr i" if "readInode f fsOffset sb n = Inr i" for i
      by (rule pw(2) [OF mem(2) par(4) that])
  qed (use f' kp pw(3) PB P k in simp_all)
qed

lemma one_block_listing:
  assumes "extents S f fsOffset sb i = Inr (one_block p)" "p < 281474976710656" "readRawBlock f fsOffset sb p = Inr b"
  shows "readDir S f fsOffset sb i = Inr (parseDirBlock S b)"
proof -
  have "ext_blocks (one_block p) = [(0, p)]"
    using assms(2) by (simp add: one_block_def ext_blocks_def w64_def)
  then show ?thesis
    using readDir_extents [OF assms(1)] assms(3) by simp
qed

lemma kept_listing:
  assumes i: "extents S f fsOffset sb i = Inr exts" "u16_at (iblock i) 6 = 0" "readDir S f fsOffset sb i = Inr es"
    and i': "inode_flags i' = inode_flags i" "iblock i' = iblock i"
    and k: "\<And>q b. q \<in> set (map snd (ext_blocks exts)) \<Longrightarrow> readRawBlock f fsOffset sb q = Inr b \<Longrightarrow> readRawBlock f' fsOffset sb q = Inr b"
  shows "readDir S f' fsOffset sb i' = Inr es"
proof -
  have "extents S f' fsOffset sb i' = Inr exts"
    using same_map [OF i', of S f' fsOffset sb] extents_in_inode [OF i(2), of S f fsOffset sb f'] i(1) by simp
  then show ?thesis
    using readDir_extents [of S f' fsOffset sb i' exts] read_dir_blocks_frame [OF i(3) [unfolded readDir_extents [OF i(1)]] k] by simp
qed

text \<open>C32: installing a new directory on a writable device succeeds and does exactly what \<open>mkdir\<close> promises.
  When the parent's blocks are well formed and one of them has room, the new inode and block are
  not the parent's, and the places involved do not overlap, the write sequence of \<open>makeDir\<close> ends
  with: a new inode that is a directory with two links and lists exactly \<open>.\<close> (itself) and \<open>..\<close>
  (the parent), the parent listing unchanged but for the one new entry, and the parent's link
  count one higher modulo its 16 bits.\<close>

theorem install_dir_creates:
  fixes now perm s parent n p
  assumes d: "dir_on_disk S (fs_dev s) fsOffset (fs_sb s) parent exts es"
    and room: "dir_has_room (fs_dev s) fsOffset (fs_sb s) parent exts n name FtDir"
    and new: "p < BlocksCount (fs_sb s)" "p < 281474976710656" "p \<notin> snd ` set (ext_blocks exts)" "0 < n" "n \<le> InodesCount (fs_sb s)"
      "n \<noteq> in_num parent" "0 < length name" "length name < 256"
    and par: "inode_wf (fs_sb s) parent" "0 < in_num parent" "in_num parent \<le> InodesCount (fs_sb s)"
    and pl: "places_apart (fs_dev s) fsOffset (fs_sb s) [n, in_num parent] (p # map snd (ext_blocks exts))"
    and sb: "128 \<le> InodeSize (fs_sb s)" "InodesCount (fs_sb s) < 4294967296" "36 \<le> BlockSize (fs_sb s)" "geom_ok fsOffset (fs_sb s)"
      "InodesPerGroup (fs_sb s) \<noteq> 0" "dev_writable (fs_dev s)"
    and S: "checkBounds_ok S"
  shows "\<exists>pi s' ni pre post. install_dir E S now fsOffset perm parent name n p s = (Inr pi, s') \<and> fs_sb s' = fs_sb s
    \<and> readInode (fs_dev s') fsOffset (fs_sb s) n = Inr ni \<and> isDir ni \<and> links_of ni = 2
    \<and> readDir S (fs_dev s') fsOffset (fs_sb s) ni = Inr (dot_entries n (in_num parent))
    \<and> readInode (fs_dev s') fsOffset (fs_sb s) (in_num parent) = Inr pi \<and> links_of pi = (links_of parent + 1) mod 65536
    \<and> es = pre @ post
    \<and> readDir S (fs_dev s') fsOffset (fs_sb s) pi = Inr (pre @ \<lparr>de_Inode = n, de_Name = name, de_FileType = FtDir\<rparr> # post)"
proof -
  define N where "N = dir_inode (fs_sb s) now perm n p"
  define D where "D = updateDirBlockCsum (dir_block (fs_sb s) n (in_num parent)) (fs_sb s) N"
  have bs: "BlockSize (fs_sb s) \<le> 65536" and np: "n < 4294967296" "in_num parent < 4294967296"
    using sb new par by (simp_all add: geom_ok_def)
  note N = dir_inode_wf(1,3,4) [OF sb(1) bs new(2), where now = now and perm = perm and num = n, folded N_def]
  have Next: "extents S f fsOffset (fs_sb s) N = Inr (one_block p)" for f
    unfolding N_def by (rule dir_inode_wf(5) [OF sb(1) bs new(2)])
  note L = dir_block_listing [OF sb(3) bs new(4) np(1) par(2) np(2) S]
  have lD: "length D = BlockSize (fs_sb s)" and pD: "parseDirBlock S D = dot_entries n (in_num parent)"
    using csum_keeps_listing(1) [OF L(1), where i = N] csum_keeps_listing(3) [OF L(1), where i = N and S = S] L(2)
      dir_block_fields(1) [OF sb(3) bs np] by (simp_all add: D_def)
  obtain f1 f2 where w: "writeRawBlock fsOffset (fs_sb s) p D (fs_dev s) = (Inr (), f1)"
      "writeInode fsOffset (fs_sb s) N f1 = (Inr (inode_writeBuf (fs_sb s) N), f2)"
    and f2: "dev_writable f2" "places_apart f2 fsOffset (fs_sb s) [n, in_num parent] (p # map snd (ext_blocks exts))"
      "dir_on_disk S f2 fsOffset (fs_sb s) parent exts es" "dir_has_room f2 fsOffset (fs_sb s) parent exts n name FtDir"
      "readRawBlock f2 fsOffset (fs_sb s) p = Inr D" "readInode f2 fsOffset (fs_sb s) n = Inr (inode_writeBuf (fs_sb s) N)"
    using new_dir_written [OF d room new(1-5) pl sb(1,2,4,5,6) lD, where now = now and perm = perm, folded N_def] by blast
  define s2 where "s2 = s\<lparr>fs_dev := f2\<rparr>"
  have s2: "fs_dev s2 = f2" "fs_sb s2 = fs_sb s"
    by (simp_all add: s2_def)
  have n0: "n \<noteq> 0"
    using new(4) by simp
  obtain s3 pre post q where a3: "addDirEntry E S fsOffset parent n name FtDir s2 = (Inr parent, s3)"
    and i3: "dev_writable (fs_dev s3)" "fs_sb s3 = fs_sb s" "es = pre @ post" "q \<in> snd ` set (ext_blocks exts)"
    and k3: "keeps f2 (fs_dev s3) (block_off fsOffset (fs_sb s) q) (BlockSize (fs_sb s))"
    and r3: "readDir S (fs_dev s3) fsOffset (fs_sb s) parent = Inr (pre @ \<lparr>de_Inode = n, de_Name = name, de_FileType = FtDir\<rparr> # post)"
    by (rule addDirEntry_done [of S s2 fsOffset parent exts es n name FtDir E thesis, unfolded s2, OF f2(3,4,1) sb(4) S new(7,8) n0 np(1)]) simp_all
  have q: "q \<in> set (p # map snd (ext_blocks exts))" "q < BlocksCount (fs_sb s)" "p \<noteq> q"
    using i3(4) new(3) d by (auto simp: dir_on_disk_def)
  note p3 = places_block_write [OF f2(2) q(1) k3]
  have b3: "readRawBlock (fs_dev s3) fsOffset (fs_sb s) p = Inr D"
    by (rule keeps_block [OF k3 f2(5) block_off_outside [OF sb(4) q(2) new(1) q(3)]])
  have n3: "readInode (fs_dev s3) fsOffset (fs_sb s) n = Inr (inode_writeBuf (fs_sb s) N)"
    by (rule p3(2) [OF _ f2(6)]) simp
  define k where "k = w16 (links_of parent + 1)"
  define P where "P = inode_writeBuf (fs_sb s) (set_links k parent)"
  have "k < 65536"
    by (simp add: k_def w16_def)
  from parent_written [OF par new(6) p3(1) sb(1,2,5) i3(1) this, folded P_def] obtain f4 where
    w4: "writeInode fsOffset (fs_sb s) (set_links k parent) (fs_dev s3) = (Inr P, f4)"
    and P: "readInode f4 fsOffset (fs_sb s) (in_num parent) = Inr P" "links_of P = k" "inode_flags P = inode_flags parent" "iblock P = iblock parent"
    and b4: "\<And>q b. q \<in> set (p # map snd (ext_blocks exts)) \<Longrightarrow> readRawBlock (fs_dev s3) fsOffset (fs_sb s) q = Inr b \<Longrightarrow> readRawBlock f4 fsOffset (fs_sb s) q = Inr b"
    and n4: "\<And>i. readInode (fs_dev s3) fsOffset (fs_sb s) n = Inr i \<Longrightarrow> readInode f4 fsOffset (fs_sb s) n = Inr i"
    by blast
  have run: "install_dir E S now fsOffset perm parent name n p s = (Inr P, s3\<lparr>fs_dev := f4\<rparr>)"
    using w a3 w4 i3(2) by (simp add: install_dir_def io_bind_def op_dev_def on_dev_def s2_def N_def D_def k_def)
  have e: "extents S (fs_dev s3) fsOffset (fs_sb s) parent = Inr exts" "u16_at (iblock parent) 6 = 0"
    using d extents_in_inode by (metis dir_on_disk_def)+
  have rp: "readDir S f4 fsOffset (fs_sb s) P = Inr (pre @ \<lparr>de_Inode = n, de_Name = name, de_FileType = FtDir\<rparr> # post)"
    by (rule kept_listing [OF e r3 P(3,4)]) (rule b4, simp_all)
  note NB = inode_writeBuf_map [OF N(1) sb(1)] inode_writeBuf_fields(1) [OF N(1) sb(1)]
  have ex: "extents S f4 fsOffset (fs_sb s) (inode_writeBuf (fs_sb s) N) = Inr (one_block p)"
    using same_map [OF NB(1,2), of S f4 fsOffset "fs_sb s"] Next by simp
  have rn: "readDir S f4 fsOffset (fs_sb s) (inode_writeBuf (fs_sb s) N) = Inr (dot_entries n (in_num parent))"
    using one_block_listing [OF ex new(2) b4 [OF _ b3]] pD by simp
  show ?thesis
    using run n4 [OF n3] rn rp P i3(2,3) NB(3,4) N(2,3) by (auto simp: isDir_def k_def w16_def)
qed

lemma root_insert_dir: "tryInsertDirEntry root_block 1 [103] 2 12 \<noteq> None"
  by code_simp

theorem install_dir_creates_witness:
  "\<exists>pi s' ni pre post. install_dir (\<lambda>_. quiet Queued) safeio_ref 7 0 0x1ED (tree_inode 2) [103] 1 36 tree_fs = (Inr pi, s')
     \<and> readInode (fs_dev s') 0 mini_sb 1 = Inr ni \<and> readDir safeio_ref (fs_dev s') 0 mini_sb ni = Inr (dot_entries 1 2)
     \<and> root_entries = pre @ post \<and> readInode (fs_dev s') 0 mini_sb 2 = Inr pi
     \<and> readDir safeio_ref (fs_dev s') 0 mini_sb pi = Inr (pre @ \<lparr>de_Inode = 1, de_Name = [103], de_FileType = FtDir\<rparr> # post)"
proof -
  have d: "dir_on_disk safeio_ref (fs_dev tree_fs) 0 (fs_sb tree_fs) (tree_inode 2) [\<lparr>LogBlock = 0, PhysBlock = 33, Count = 1\<rparr>] root_entries"
    using root_block_ok by (simp add: dir_on_disk_def tree_exts [simplified] root_depth root_readDir root_ext tree_blocks)
  have room: "dir_has_room (fs_dev tree_fs) 0 (fs_sb tree_fs) (tree_inode 2) [\<lparr>LogBlock = 0, PhysBlock = 33, Count = 1\<rparr>] 1 [103] FtDir"
    using root_insert_dir by (simp add: dir_has_room_def root_ext tree_blocks tree_fields has_flag_def minDirentSize_def)
  have off: "inode_off tree_dev 0 mini_sb 1 = 320" "inode_off tree_dev 0 mini_sb 2 = 448"
    by (simp_all add: inode_off_def inode_group_def tree_desc inode_off_in_def inode_index_def mini_bgd_def)
  have pl: "places_apart (fs_dev tree_fs) 0 (fs_sb tree_fs) [1, in_num (tree_inode 2)] (36 # map snd (ext_blocks [\<lparr>LogBlock = 0, PhysBlock = 33, Count = 1\<rparr>]))"
    by (simp add: places_apart_def root_ext off [simplified] inode_group_def tree_desc desc_range_apart_def outside_def block_off_def)
  have wf: "inode_wf mini_sb (tree_inode 2)"
    using readInode_range(5) [OF tree_readInode] by simp
  from install_dir_creates [OF d room, where p = 36 and E = "\<lambda>_. quiet Queued" and now = 7 and perm = "0x1ED"] pl wf show ?thesis
    by (simp add: root_ext mini_geom safeio_ref_ok) blast
qed

end
