(* ===== verification/OpenFile.thy ===== *)
theory OpenFile
  imports FileData
begin

text \<open>
  Random access to an open file, \<open>open.go\<close>: \<open>newFile\<close> takes a snapshot of the block map,
  \<open>ReadAt\<close> finds the leaf of each position by the binary search \<open>sort.Search\<close> and reads runs,
  filling holes with zeros.  The main result is that \<open>ReadAt\<close> and \<open>readFileData\<close> agree.
\<close>

section \<open>Definitions\<close>

record ext4File =
  f_inline :: "byte list option"
  f_extents :: "extentLeaf list"
  f_size :: int
  f_blockSize :: int
  f_inodeNum :: u32
  f_closed :: bool
  f_readOnly :: bool

definition newFile :: "'v safeio \<Rightarrow> device \<Rightarrow> int \<Rightarrow> superblock \<Rightarrow> inode \<Rightarrow> ext4File result" where
  "newFile S f fsOffset sb i =
    (if isInline i then
       res_bind (inlineData f fsOffset sb i) (\<lambda>d.
         Inr \<lparr>f_inline = Some d, f_extents = [], f_size = int (length d), f_blockSize = int (BlockSize sb),
              f_inodeNum = in_num i, f_closed = False, f_readOnly = True\<rparr>)
     else res_bind (readExtents S f fsOffset sb i) (\<lambda>ext.
       let (mx0, known) = declaredBytes sb;
           mx = (if known then mx0 else ext_end_max sb ext mx0);
           sz = i64 (int (in_size i))
       in if mx < 0 \<or> int (in_size i) > mx then Inl ErrTooLarge
          else if sz > 0 \<and> ext = [] \<and> has_flag (inode_flags i) InodeFlagExtents then Inl ErrNoExtents
          else Inr \<lparr>f_inline = None, f_extents = sort_key LogBlock ext, f_size = sz,
                    f_blockSize = int (BlockSize sb), f_inodeNum = in_num i, f_closed = False,
                    f_readOnly = \<not> has_flag (inode_flags i) InodeFlagExtents\<rparr>))"

definition file_Size :: "ext4File \<Rightarrow> int" where
  "file_Size fl = f_size fl"

definition file_Close :: "ext4File \<Rightarrow> ext4File" where
  "file_Close fl = fl\<lparr>f_closed := True\<rparr>"

text \<open>\<open>sort.Search\<close> on \<open>[i, j)\<close>.\<close>

function sort_search :: "(nat \<Rightarrow> bool) \<Rightarrow> nat \<Rightarrow> nat \<Rightarrow> nat" where
  "sort_search p i j =
    (if i < j then
       let h = (i + j) div 2
       in if \<not> p h then sort_search p (h + 1) j else sort_search p i h
     else i)"
  by pat_completeness auto
termination
  by (relation "measure (\<lambda>(p, i, j). j - i)") auto

declare sort_search.simps [simp del]

definition find_leaf :: "extentLeaf list \<Rightarrow> u64 \<Rightarrow> nat" where
  "find_leaf exts logBlock = sort_search (\<lambda>i. LogBlock (exts ! i) + Count (exts ! i) > logBlock) 0 (length exts)"

text \<open>
  The loop of \<open>ReadAt\<close>: what has been read so far, and the error that ends it (\<open>io.EOF\<close> at the
  end of the file).  Every round reads at least one byte, so \<open>len(p) + 1\<close> rounds suffice;
  \<open>None\<close> is running out of rounds.  The bytes a failing device read may have delivered are
  not counted.
\<close>

primrec read_loop :: "nat \<Rightarrow> device \<Rightarrow> int \<Rightarrow> superblock \<Rightarrow> ext4File \<Rightarrow> int \<Rightarrow> nat \<Rightarrow> byte list
    \<Rightarrow> (byte list \<times> err option) option" where
  "read_loop 0 f fsOffset sb fl off len acc = None"
| "read_loop (Suc k) f fsOffset sb fl off len acc =
    (if length acc \<ge> len then Some (acc, None)
     else
       let cur = i64 (off + int (length acc))
       in if cur \<ge> f_size fl then Some (acc, Some ErrEOF)
          else if f_blockSize fl = 0 then Some (acc, Some Panic)
          else
            let want = (if int (len - length acc) > f_size fl - cur then f_size fl - cur else int (len - length acc));
                logBlock = nat (cur div f_blockSize fl);
                within = cur mod f_blockSize fl;
                exts = f_extents fl;
                i = find_leaf exts logBlock
            in if i = length exts \<or> LogBlock (exts ! i) > logBlock then
                 let lim = i64 (i64 (int (LogBlock (exts ! i)) * f_blockSize fl) - cur);
                     chunk = (if i < length exts \<and> lim < want then lim else want)
                 in read_loop k f fsOffset sb fl off len (acc @ zeros (nat chunk))
               else
                 let e = exts ! i;
                     skip = logBlock - LogBlock e;
                     physBlock = w64 (PhysBlock e + skip);
                     avail = i64 (i64 ((int (Count e) - int skip) * f_blockSize fl) - within);
                     chunk = (if avail < want then avail else want);
                     lastBlock = w64 (physBlock + nat ((within + chunk - 1) div f_blockSize fl))
                 in if BlocksCount sb \<noteq> 0 \<and> lastBlock \<ge> BlocksCount sb then Some (acc, Some ErrDataBlockRange)
                    else
                      case ReadAt f (i64 (i64 (fsOffset + i64 (i64 (int physBlock) * f_blockSize fl)) + within)) (nat chunk) of
                        Inl e' \<Rightarrow> Some (acc, Some e')
                      | Inr d \<Rightarrow> read_loop k f fsOffset sb fl off len (acc @ d))"

definition file_ReadAt :: "device \<Rightarrow> int \<Rightarrow> superblock \<Rightarrow> ext4File \<Rightarrow> int \<Rightarrow> nat \<Rightarrow> (byte list \<times> err option) option" where
  "file_ReadAt f fsOffset sb fl off len =
    (if f_closed fl then Some ([], Some ErrClosed)
     else if off < 0 then Some ([], Some ErrNegOffset)
     else if off \<ge> f_size fl then Some ([], Some ErrEOF)
     else case f_inline fl of
       Some d \<Rightarrow>
         let got = take len (drop (nat off) d)
         in Some (got, if length got < len then Some ErrEOF else None)
     | None \<Rightarrow> read_loop (len + 1) f fsOffset sb fl off len [])"

section \<open>Binary search\<close>

lemma sort_search_spec:
  assumes "i \<le> j" "\<And>a b. i \<le> a \<Longrightarrow> a \<le> b \<Longrightarrow> b < j \<Longrightarrow> p a \<Longrightarrow> p b"
  shows "i \<le> sort_search p i j \<and> sort_search p i j \<le> j
    \<and> (\<forall>k. i \<le> k \<and> k < sort_search p i j \<longrightarrow> \<not> p k)
    \<and> (\<forall>k. sort_search p i j \<le> k \<and> k < j \<longrightarrow> p k)"
  using assms
proof (induction p i j rule: sort_search.induct)
  case (1 p i j)
  define h where "h = (i + j) div 2"
  show ?case
  proof (cases "i < j")
    case True
    then have h: "i \<le> h" "h < j"
      by (simp_all add: h_def)
    show ?thesis
    proof (cases "p h")
      case False
      have eq: "sort_search p i j = sort_search p (h + 1) j"
        using True False by (subst sort_search.simps) (simp add: Let_def h_def)
      have ih: "h + 1 \<le> sort_search p (h + 1) j \<and> sort_search p (h + 1) j \<le> j
        \<and> (\<forall>k. h + 1 \<le> k \<and> k < sort_search p (h + 1) j \<longrightarrow> \<not> p k)
        \<and> (\<forall>k. sort_search p (h + 1) j \<le> k \<and> k < j \<longrightarrow> p k)"
      proof (rule 1(1) [OF True h_def False])
        show "h + 1 \<le> j"
          using h by simp
        show "p b" if "h + 1 \<le> a" "a \<le> b" "b < j" "p a" for a b
          by (rule 1(4) [of a b]) (use that h in simp_all)
      qed
      have low: "\<not> p k" if "i \<le> k" "k \<le> h" for k
        using 1(4) [of k h] that h False by blast
      have "\<not> p k" if "i \<le> k" "k < sort_search p (h + 1) j" for k
        using low [of k] ih that by (cases "k \<le> h") simp_all
      moreover have "i \<le> sort_search p (h + 1) j"
        using ih h(1) by linarith
      ultimately show ?thesis
        unfolding eq using ih by blast
    next
      case p: True
      have eq: "sort_search p i j = sort_search p i h"
        using True p by (subst sort_search.simps) (simp add: Let_def h_def)
      have ih: "i \<le> sort_search p i h \<and> sort_search p i h \<le> h
        \<and> (\<forall>k. i \<le> k \<and> k < sort_search p i h \<longrightarrow> \<not> p k)
        \<and> (\<forall>k. sort_search p i h \<le> k \<and> k < h \<longrightarrow> p k)"
      proof (rule 1(2) [OF True h_def])
        show "\<not> \<not> p h"
          using p by blast
        show "i \<le> h"
          by (rule h(1))
        show "p b" if "i \<le> a" "a \<le> b" "b < h" "p a" for a b
          by (rule 1(4) [of a b]) (use that h in simp_all)
      qed
      have high: "p k" if "h \<le> k" "k < j" for k
        using 1(4) [of h k] that h p by blast
      have "p k" if "sort_search p i h \<le> k" "k < j" for k
        using high [of k] ih that by (cases "h \<le> k") simp_all
      moreover have "sort_search p i h \<le> j"
        using ih h(2) by linarith
      ultimately show ?thesis
        unfolding eq using ih by blast
    qed
  next
    case False
    show ?thesis
    proof -
      have "sort_search p i j = i"
        using False by (subst sort_search.simps) simp
      with False 1(3) show ?thesis
        by auto
    qed
  qed
qed

section \<open>Runs of a sorted leaf list\<close>

definition runs_ok :: "extentLeaf list \<Rightarrow> bool" where
  "runs_ok exts \<longleftrightarrow> sorted_wrt (\<lambda>a b. LogBlock a + Count a \<le> LogBlock b) exts \<and> (\<forall>e\<in>set exts. 0 < Count e)"

lemma fst_leaf_map: "fst ` set (leaf_map e) = {LogBlock e..<LogBlock e + Count e}"
proof -
  have "(\<lambda>k. LogBlock e + k) ` {0..<Count e} = {LogBlock e..<LogBlock e + Count e}"
    by (simp add: image_add_atLeastLessThan add.commute)
  then show ?thesis
    by (simp add: leaf_map_def image_image)
qed

lemma runs_ok_sorted:
  assumes "sorted (map LogBlock exts)" "distinct (map fst (ext_map exts))" "\<forall>e\<in>set exts. 0 < Count e"
  shows "runs_ok exts"
  using assms
proof (induction exts)
  case (Cons e es)
  have "LogBlock e + Count e \<le> LogBlock e'" if e': "e' \<in> set es" for e'
  proof -
    have "0 < Count e'"
      using Cons.prems(3) e' by simp
    then have "LogBlock e' \<in> fst ` set (leaf_map e')"
      unfolding fst_leaf_map by simp
    then have "LogBlock e' \<in> fst ` set (ext_map es)"
      using e' by (auto simp: ext_map_def)
    then have "LogBlock e' \<notin> fst ` set (leaf_map e)"
      using Cons.prems(2) by auto
    then have "\<not> (LogBlock e \<le> LogBlock e' \<and> LogBlock e' < LogBlock e + Count e)"
      unfolding fst_leaf_map by simp
    moreover have "LogBlock e \<le> LogBlock e'"
      using Cons.prems(1) e' by simp
    ultimately show ?thesis
      by linarith
  qed
  with Cons show ?case
    by (simp add: runs_ok_def)
qed (simp add: runs_ok_def)

lemma find_leaf_spec:
  assumes "runs_ok exts"
  shows "find_leaf exts b \<le> length exts"
    "k < find_leaf exts b \<Longrightarrow> LogBlock (exts ! k) + Count (exts ! k) \<le> b"
    "find_leaf exts b \<le> k \<Longrightarrow> k < length exts \<Longrightarrow> b < LogBlock (exts ! k) + Count (exts ! k)"
proof -
  define p where "p = (\<lambda>i. LogBlock (exts ! i) + Count (exts ! i) > b)"
  have mono: "p j" if "0 \<le> i" "i \<le> j" "j < length exts" "p i" for i j
  proof (cases "i = j")
    case False
    then have "LogBlock (exts ! i) + Count (exts ! i) \<le> LogBlock (exts ! j)"
      using assms that by (auto simp: runs_ok_def sorted_wrt_iff_nth_less)
    with that(4) show ?thesis
      by (simp add: p_def)
  qed (use that in simp)
  have f: "find_leaf exts b = sort_search p 0 (length exts)"
    by (simp add: find_leaf_def p_def)
  have s: "0 \<le> find_leaf exts b \<and> find_leaf exts b \<le> length exts
    \<and> (\<forall>k. 0 \<le> k \<and> k < find_leaf exts b \<longrightarrow> \<not> p k)
    \<and> (\<forall>k. find_leaf exts b \<le> k \<and> k < length exts \<longrightarrow> p k)"
    unfolding f by (rule sort_search_spec [OF le0]) (rule mono)
  show "find_leaf exts b \<le> length exts"
    using s by blast
  show "LogBlock (exts ! k) + Count (exts ! k) \<le> b" if "k < find_leaf exts b"
    using s that unfolding p_def not_less by blast
  show "b < LogBlock (exts ! k) + Count (exts ! k)" if "find_leaf exts b \<le> k" "k < length exts"
    using s that unfolding p_def by blast
qed

lemma ext_map_hit:
  assumes "distinct (map fst (ext_map exts))" "e \<in> set exts" "LogBlock e \<le> b" "b < LogBlock e + Count e"
  shows "map_of (ext_map exts) b = Some (PhysBlock e + (b - LogBlock e))"
proof -
  have "(b, PhysBlock e + (b - LogBlock e)) \<in> set (leaf_map e)"
    using assms(3,4) by (auto simp: leaf_map_def image_iff intro!: bexI [of _ "b - LogBlock e"])
  then have "(b, PhysBlock e + (b - LogBlock e)) \<in> set (ext_map exts)"
    using assms(2) by (auto simp: ext_map_def)
  with assms(1) show ?thesis
    by (rule map_of_is_SomeI)
qed

lemma ext_map_miss:
  assumes "\<And>e. e \<in> set exts \<Longrightarrow> \<not> (LogBlock e \<le> b \<and> b < LogBlock e + Count e)"
  shows "map_of (ext_map exts) b = None"
proof -
  have "fst ` set (ext_map exts) = (\<Union>e\<in>set exts. {LogBlock e..<LogBlock e + Count e})"
    by (simp add: ext_map_def image_UN fst_leaf_map)
  then have "b \<notin> fst ` set (ext_map exts)"
    using assms by auto
  then show ?thesis
    by (simp add: map_of_eq_None_iff)
qed

text \<open>What the search tells: a leaf that maps the block, or a hole up to the next leaf.\<close>

lemma find_leaf_hit:
  assumes "runs_ok exts" "distinct (map fst (ext_map exts))"
    and "find_leaf exts b < length exts" "LogBlock (exts ! find_leaf exts b) \<le> b"
    and "b \<le> b'" "b' < LogBlock (exts ! find_leaf exts b) + Count (exts ! find_leaf exts b)"
  shows "map_of (ext_map exts) b' = Some (PhysBlock (exts ! find_leaf exts b) + (b' - LogBlock (exts ! find_leaf exts b)))"
  using assms by (intro ext_map_hit) simp_all

lemma find_leaf_hole:
  assumes ok: "runs_ok exts" and b': "b \<le> b'"
    and up: "find_leaf exts b < length exts \<Longrightarrow> b' < LogBlock (exts ! find_leaf exts b)"
  shows "map_of (ext_map exts) b' = None"
proof (rule ext_map_miss)
  fix e assume "e \<in> set exts"
  then obtain k where k: "k < length exts" "e = exts ! k"
    by (auto simp: in_set_conv_nth)
  show "\<not> (LogBlock e \<le> b' \<and> b' < LogBlock e + Count e)"
  proof (cases "k < find_leaf exts b")
    case True
    then show ?thesis
      using find_leaf_spec(2) [OF ok True] b' k by simp
  next
    case False
    define i where "i = find_leaf exts b"
    have "LogBlock (exts ! i) \<le> LogBlock (exts ! k)"
    proof (cases "i = k")
      case False
      then have "LogBlock (exts ! i) + Count (exts ! i) \<le> LogBlock (exts ! k)"
        using ok k \<open>\<not> k < find_leaf exts b\<close> by (auto simp: runs_ok_def sorted_wrt_iff_nth_less i_def)
      then show ?thesis
        by simp
    qed simp
    moreover have "b' < LogBlock (exts ! i)"
      using up k False by (simp add: i_def)
    ultimately show ?thesis
      using k by simp
  qed
qed

section \<open>The read loop\<close>

lemma bytes_at_add: "bytes_at xs off (n + c) = bytes_at xs off n @ bytes_at xs (off + n) c"
  by (simp only: bytes_at_def take_add drop_drop add.commute [of n off])

lemma content_hole:
  assumes "cur + c \<le> sz" "\<And>k. k < c \<Longrightarrow> m ((cur + k) div BlockSize sb) = None"
  shows "bytes_at (content f fsOffset sb m sz) cur c = zeros c"
  by (rule nth_equalityI) (use assms in \<open>simp_all add: nth_content zeros_def\<close>)

lemma div_mod_step:
  fixes bs :: nat
  assumes "0 < bs"
  shows "((cur + k) div bs - cur div bs) * bs + (cur + k) mod bs = cur mod bs + k"
proof -
  have "cur div bs * bs \<le> (cur + k) div bs * bs"
    by (intro mult_le_mono1 div_le_mono) simp
  moreover have "(cur + k) div bs * bs + (cur + k) mod bs = cur + k" "cur div bs * bs + cur mod bs = cur"
    by simp_all
  ultimately show ?thesis
    by (simp only: diff_mult_distrib)
qed

lemma content_run:
  assumes bs: "0 < BlockSize sb" and sz: "cur + c \<le> sz"
    and m: "\<And>k. k < c \<Longrightarrow> m ((cur + k) div BlockSize sb) = Some (P + ((cur + k) div BlockSize sb - cur div BlockSize sb))"
  shows "bytes_at (content f fsOffset sb m sz) cur c
    = map (dev_byte f) [nat fsOffset + P * BlockSize sb + cur mod BlockSize sb
        ..<nat fsOffset + P * BlockSize sb + cur mod BlockSize sb + c]"
proof (rule nth_equalityI)
  fix k assume "k < length (bytes_at (content f fsOffset sb m sz) cur c)"
  then have k: "k < c"
    by simp
  have "(P + ((cur + k) div BlockSize sb - cur div BlockSize sb)) * BlockSize sb + (cur + k) mod BlockSize sb
    = P * BlockSize sb + (cur mod BlockSize sb + k)"
    using div_mod_step [OF bs, of cur k] by (simp add: add_mult_distrib)
  with k sz m [OF k] show "bytes_at (content f fsOffset sb m sz) cur c ! k
    = map (dev_byte f) [nat fsOffset + P * BlockSize sb + cur mod BlockSize sb
        ..<nat fsOffset + P * BlockSize sb + cur mod BlockSize sb + c] ! k"
    by (simp add: nth_content add.assoc)
qed (use sz in simp)

text \<open>
  What the loop relies on: sorted runs of positive length with 48-bit blocks, every mapped
  block of the file inside the file system and on the device.
\<close>

definition file_ok :: "device \<Rightarrow> int \<Rightarrow> superblock \<Rightarrow> extentLeaf list \<Rightarrow> nat \<Rightarrow> bool" where
  "file_ok f fsOffset sb exts sz \<longleftrightarrow>
     geom_ok fsOffset sb \<and> runs_ok exts \<and> distinct (map fst (ext_map exts))
   \<and> (\<forall>e\<in>set exts. LogBlock e < 4294967296 \<and> PhysBlock e < 281474976710656 \<and> Count e \<le> 65535)
   \<and> int sz < 9223372036854775807
   \<and> (\<forall>b p. map_of (ext_map exts) b = Some p \<longrightarrow> b * BlockSize sb < sz \<longrightarrow>
        p < BlocksCount sb \<and> nat fsOffset + p * BlockSize sb + min (BlockSize sb) (sz - b * BlockSize sb) \<le> dev_size f)"

lemma run_on_device:
  assumes bs: "0 < bs" and c: "0 < c" "cur + c \<le> sz"
    and last: "nat fsOffset + (P + ((cur + (c - 1)) div bs - cur div bs)) * bs
      + min bs (sz - (cur + (c - 1)) div bs * bs) \<le> dsize"
  shows "nat fsOffset + P * bs + cur mod bs + c \<le> dsize"
proof -
  define q where "q = (cur + (c - 1)) div bs"
  define r where "r = (cur + (c - 1)) mod bs"
  have qr: "q * bs + r = cur + (c - 1)" "r < bs"
    using bs by (simp_all add: q_def r_def)
  have "r + 1 \<le> min bs (sz - q * bs)"
    using qr c by auto
  moreover have "(P + (q - cur div bs)) * bs + r = P * bs + (cur mod bs + (c - 1))"
    using div_mod_step [OF bs, of cur "c - 1"] by (simp add: add_mult_distrib q_def r_def)
  ultimately show ?thesis
    using last c unfolding q_def [symmetric] by linarith
qed

lemma read_hole_step:
  assumes ok: "file_ok f fsOffset sb exts sz"
    and fl: "f_extents fl = exts" "f_size fl = int sz" "f_blockSize fl = int (BlockSize sb)"
    and cur: "cur = off + length acc" "cur < sz" "length acc < len"
    and i: "i = find_leaf exts (cur div BlockSize sb)"
    and hole: "i = length exts \<or> LogBlock (exts ! i) > cur div BlockSize sb"
  shows "\<exists>c. 0 < c \<and> c \<le> len - length acc \<and> cur + c \<le> sz
    \<and> read_loop (Suc k) f fsOffset sb fl (int off) len acc
      = read_loop k f fsOffset sb fl (int off) len (acc @ bytes_at (content f fsOffset sb (map_of (ext_map exts)) sz) cur c)"
proof -
  note g = ok [unfolded file_ok_def geom_ok_def]
  define bs where "bs = BlockSize sb"
  define lb where "lb = cur div bs"
  define L where "L = LogBlock (exts ! i)"
  define want where "want = min (len - length acc) (sz - cur)"
  define c where "c = (if i < length exts then min (L * bs - cur) want else want)"
  have bs: "0 < bs" "bs \<le> 65536"
    using g by (simp_all add: bs_def)
  have i': "find_leaf exts lb = i"
    by (simp add: i lb_def bs_def)
  have c1: "i64 (int off + int (length acc)) = int cur"
    using g cur by simp
  have c2: "nat (int cur div int bs) = lb" "int cur mod int bs = int (cur mod bs)"
    by (simp_all add: lb_def nat_div_distrib zmod_int)
  have c3: "(if int (len - length acc) > int sz - int cur then int sz - int cur else int (len - length acc)) = int want"
    using cur by (auto simp: want_def)
  have up: "cur < L * bs" "L < 4294967296" if "i < length exts"
  proof -
    have "lb < L"
      using hole that by (auto simp: L_def lb_def bs_def)
    then show "cur < L * bs"
      using bs by (simp add: lb_def div_less_iff_less_mult)
    show "L < 4294967296"
      using g that by (simp add: L_def)
  qed
  have c4: "nat (if i < length exts \<and> i64 (i64 (int L * int bs) - int cur) < int want
      then i64 (i64 (int L * int bs) - int cur) else int want) = c"
  proof (cases "i < length exts")
    case True
    have "L * bs \<le> 4294967296 * 65536"
      using up(2) [OF True] bs by (intro mult_le_mono) simp_all
    then have "i64 (int L * int bs) = int (L * bs)" "i64 (int (L * bs) - int cur) = int (L * bs - cur)"
      using up(1) [OF True] by (simp_all flip: of_nat_mult)
    with True show ?thesis
      by (auto simp: c_def min_def)
  qed (simp add: c_def)
  have pos: "0 < c" "c \<le> len - length acc" "cur + c \<le> sz"
    using cur up(1) by (auto simp: c_def want_def)
  have "bytes_at (content f fsOffset sb (map_of (ext_map exts)) sz) cur c = zeros c"
  proof (rule content_hole [OF pos(3)])
    fix k assume k: "k < c"
    show "map_of (ext_map exts) ((cur + k) div BlockSize sb) = None"
    proof (rule find_leaf_hole)
      show "runs_ok exts"
        using g by simp
      show "lb \<le> (cur + k) div BlockSize sb"
        by (simp add: lb_def bs_def div_le_mono)
      assume "find_leaf exts lb < length exts"
      then have "i < length exts" "cur + k < L * bs"
        using k by (auto simp: i lb_def bs_def c_def)
      then show "(cur + k) div BlockSize sb < LogBlock (exts ! find_leaf exts lb)"
        using bs by (simp add: L_def i lb_def bs_def div_less_iff_less_mult)
    qed
  qed
  moreover have "read_loop (Suc k) f fsOffset sb fl (int off) len acc = read_loop k f fsOffset sb fl (int off) len (acc @ zeros c)"
    using hole cur(2,3) bs(1)
    unfolding read_loop.simps Let_def fl c1 bs_def [symmetric] c2 lb_def [symmetric] i' c3
      L_def [symmetric] c4 by simp
  ultimately show ?thesis
    using pos by metis
qed

lemma read_run_step:
  assumes ok: "file_ok f fsOffset sb exts sz"
    and fl: "f_extents fl = exts" "f_size fl = int sz" "f_blockSize fl = int (BlockSize sb)"
    and cur: "cur = off + length acc" "cur < sz" "length acc < len"
    and i: "i = find_leaf exts (cur div BlockSize sb)"
    and hit: "i < length exts" "LogBlock (exts ! i) \<le> cur div BlockSize sb"
  shows "\<exists>c. 0 < c \<and> c \<le> len - length acc \<and> cur + c \<le> sz
    \<and> read_loop (Suc k) f fsOffset sb fl (int off) len acc
      = read_loop k f fsOffset sb fl (int off) len (acc @ bytes_at (content f fsOffset sb (map_of (ext_map exts)) sz) cur c)"
proof -
  note g = ok [unfolded file_ok_def geom_ok_def]
  define bs lb wi where "bs = BlockSize sb" and "lb = cur div bs" and "wi = cur mod bs"
  define L P C where "L = LogBlock (exts ! i)" and "P = PhysBlock (exts ! i)" and "C = Count (exts ! i)"
  define want where "want = min (len - length acc) (sz - cur)"
  define av where "av = (C - (lb - L)) * bs - wi"
  define c where "c = min av want"
  define ph where "ph = P + (lb - L)"
  have bs: "0 < bs" "bs \<le> 65536"
    using g by (simp_all add: bs_def)
  have le: "L < 4294967296" "P < 281474976710656" "C \<le> 65535"
    using g hit(1) by (simp_all add: L_def P_def C_def)
  have lbL: "L \<le> lb" "lb < L + C"
    using hit find_leaf_spec(3) [of exts lb i] g i by (simp_all add: lb_def L_def C_def bs_def)
  then have sk: "lb - L < C"
    by linarith
  have wi: "wi < bs" "cur = lb * bs + wi"
    using bs by (simp_all add: wi_def lb_def)
  define run where "run = (C - (lb - L)) * bs"
  have "1 * bs \<le> run"
    unfolding run_def using sk by (intro mult_le_mono1) simp
  then have "wi < run"
    using wi(1) by linarith
  then have av: "0 < av" "(C - (lb - L)) * bs = av + wi"
    by (simp_all add: av_def run_def)
  have pos: "0 < c" "c \<le> len - length acc" "cur + c \<le> sz" "c \<le> av"
    using cur av(1) by (auto simp: c_def want_def)
  have inrun: "(cur + k) div bs < L + C" if "k < c" for k
  proof -
    have "cur + k < lb * bs + (C - (lb - L)) * bs"
      using that pos(4) av(2) wi(2) by linarith
    also have "\<dots> = (lb + (C - (lb - L))) * bs"
      by (simp add: add_mult_distrib)
    also have "\<dots> = (L + C) * bs"
      using lbL by (intro arg_cong2 [where f = "(*)"]) linarith+
    finally show ?thesis
      using bs by (simp add: div_less_iff_less_mult)
  qed
  have m: "map_of (ext_map exts) ((cur + k) div bs) = Some (ph + ((cur + k) div bs - cur div bs))" if "k < c" for k
  proof -
    have "lb \<le> (cur + k) div bs"
      by (simp add: lb_def div_le_mono)
    moreover have "map_of (ext_map exts) ((cur + k) div bs) = Some (P + ((cur + k) div bs - L))"
      using find_leaf_hit [of exts lb "(cur + k) div bs"] inrun [OF that] hit g i \<open>lb \<le> (cur + k) div bs\<close>
      by (simp add: L_def P_def C_def lb_def bs_def)
    ultimately show ?thesis
      using lbL(1) by (simp add: ph_def lb_def)
  qed
  have last_c: "c - 1 < c"
    using pos(1) by simp
  define lp where "lp = ph + ((cur + (c - 1)) div bs - cur div bs)"
  have "(cur + (c - 1)) div bs * bs < sz"
    using pos by (meson add_less_cancel_left div_times_less_eq_dividend last_c le_less_trans less_le_trans)
  then have lp: "lp < BlocksCount sb" "nat fsOffset + lp * bs + min bs (sz - (cur + (c - 1)) div bs * bs) \<le> dev_size f"
    using g m [OF last_c] unfolding lp_def bs_def by blast+
  have on_dev: "nat fsOffset + ph * bs + wi + c \<le> dev_size f"
    using run_on_device [OF bs(1) pos(1,3)] lp(2) unfolding lp_def wi_def by blast
  have phb: "ph < BlocksCount sb"
    using lp(1) by (simp add: lp_def)
  have lpd: "lp = ph + (wi + c - 1) div bs"
  proof -
    have "(cur + (c - 1)) div bs = lb + (wi + (c - 1)) div bs"
      using wi(2) bs(1) by (simp add: add.assoc)
    moreover have "wi + (c - 1) = wi + c - 1"
      using pos(1) by simp
    ultimately show ?thesis
      by (simp add: lp_def lb_def)
  qed
  have i': "find_leaf exts lb = i"
    by (simp add: i lb_def bs_def)
  have c1: "i64 (int off + int (length acc)) = int cur"
    using g cur by simp
  have c2: "nat (int cur div int bs) = lb" "int cur mod int bs = int wi"
    by (simp_all add: lb_def wi_def nat_div_distrib zmod_int)
  have c3: "(if int (len - length acc) > int sz - int cur then int sz - int cur else int (len - length acc)) = int want"
    using cur by (auto simp: want_def)
  have c4: "w64 (P + (lb - L)) = ph"
    using le sk by (simp add: ph_def)
  have c5: "i64 (i64 ((int C - int (lb - L)) * int bs) - int wi) = int av"
  proof -
    have e: "(int C - int (lb - L)) * int bs = int ((C - (lb - L)) * bs)"
      using sk by (simp add: of_nat_diff)
    have "(C - (lb - L)) * bs \<le> 65535 * 65536"
      using le bs by (intro mult_le_mono) simp_all
    then show ?thesis
      unfolding e using av(2) by simp
  qed
  have c6: "(if int av < int want then int av else int want) = int c"
    by (simp add: c_def)
  have c7: "w64 (ph + nat ((int wi + int c - 1) div int bs)) = lp"
  proof -
    have e: "int wi + int c - 1 = int (wi + c - 1)"
      using pos(1) by simp
    have "nat ((int wi + int c - 1) div int bs) = (wi + c - 1) div bs"
      unfolding e zdiv_int [symmetric] by (rule nat_int)
    moreover have "lp < 18446744073709551616"
      using lp(1) blocks_bound [of fsOffset sb] ok by (simp add: file_ok_def)
    ultimately show ?thesis
      by (simp only: lpd w64_id)
  qed
  have c8: "i64 (i64 (fsOffset + i64 (i64 (int ph) * int bs)) + int wi) = fsOffset + int (ph * bs + wi)"
    using geom_off [of fsOffset sb ph] ok phb wi(1) g
    by (simp add: file_ok_def bs_def add.assoc del: of_nat_mult)
  have rd: "ReadAt f (fsOffset + int (ph * bs + wi)) c
      = Inr (bytes_at (content f fsOffset sb (map_of (ext_map exts)) sz) cur c)"
  proof -
    have "bytes_at (content f fsOffset sb (map_of (ext_map exts)) sz) cur c
      = map (dev_byte f) [nat fsOffset + ph * bs + wi..<nat fsOffset + ph * bs + wi + c]"
      unfolding bs_def wi_def
      by (rule content_run) (use bs(1) pos(3) m in \<open>simp_all add: bs_def\<close>)
    moreover have "nat (fsOffset + int (ph * bs + wi)) = nat fsOffset + ph * bs + wi"
      using g by (simp add: nat_add_distrib del: of_nat_mult of_nat_add)
    ultimately show ?thesis
      using on_dev g by (simp add: ReadAt_Inr_iff)
  qed
  have "read_loop (Suc k) f fsOffset sb fl (int off) len acc
      = read_loop k f fsOffset sb fl (int off) len (acc @ bytes_at (content f fsOffset sb (map_of (ext_map exts)) sz) cur c)"
    using cur(2,3) bs(1) hit lp(1)
    unfolding read_loop.simps Let_def fl c1 bs_def [symmetric] c2 lb_def [symmetric] i' c3
      L_def [symmetric] P_def [symmetric] C_def [symmetric] c4 c5 c6 c7 c8 nat_int rd by simp
  with pos show ?thesis
    by blast
qed

lemma read_loop_correct:
  assumes ok: "file_ok f fsOffset sb exts sz"
    and fl: "f_extents fl = exts" "f_size fl = int sz" "f_blockSize fl = int (BlockSize sb)"
    and D: "D = content f fsOffset sb (map_of (ext_map exts)) sz"
  shows "acc = bytes_at D off (length acc) \<Longrightarrow> length acc \<le> len \<Longrightarrow> off + length acc \<le> sz \<Longrightarrow> len - length acc < k
    \<Longrightarrow> read_loop k f fsOffset sb fl (int off) len acc
      = Some (take len (drop off D), if off + len \<le> sz then None else Some ErrEOF)"
proof (induction k arbitrary: acc)
  case (Suc k)
  have lenD: "length D = sz"
    by (simp add: D)
  have c1: "i64 (int off + int (length acc)) = int (off + length acc)"
    using ok Suc.prems(3) by (simp add: file_ok_def)
  consider (full) "length acc = len" | (eof) "length acc < len" "off + length acc = sz"
    | (more) "length acc < len" "off + length acc < sz"
    using Suc.prems(2,3) by linarith
  then show ?case
  proof cases
    case full
    then have "take len (drop off D) = acc"
      using Suc.prems(1) by (simp add: bytes_at_def)
    with full Suc.prems(3) show ?thesis
      by simp
  next
    case eof
    then have "take len (drop off D) = acc"
      using Suc.prems(1) lenD by (simp add: bytes_at_def)
    with eof c1 fl(2) show ?thesis
      by (simp add: Let_def)
  next
    case more
    define cur i where "cur = off + length acc" and "i = find_leaf exts (cur div BlockSize sb)"
    have cur: "cur < sz"
      using more by (simp add: cur_def)
    have "i \<le> length exts"
      unfolding i_def using ok by (intro find_leaf_spec(1)) (simp add: file_ok_def)
    then consider (hole) "i = length exts \<or> LogBlock (exts ! i) > cur div BlockSize sb"
      | (run) "i < length exts" "LogBlock (exts ! i) \<le> cur div BlockSize sb"
      by linarith
    then obtain c where c: "0 < c" "c \<le> len - length acc" "cur + c \<le> sz"
      "read_loop (Suc k) f fsOffset sb fl (int off) len acc
        = read_loop k f fsOffset sb fl (int off) len (acc @ bytes_at D cur c)"
    proof cases
      case hole
      show ?thesis
        using read_hole_step [OF ok fl cur_def cur more(1) i_def hole] that unfolding D by blast
    next
      case run
      show ?thesis
        using read_run_step [OF ok fl cur_def cur more(1) i_def run] that unfolding D by blast
    qed
    have l: "length (bytes_at D cur c) = c"
      using c(3) lenD by simp
    have "acc @ bytes_at D cur c = bytes_at D off (length acc + c)"
      using Suc.prems(1) bytes_at_add [of D off "length acc" c] by (simp add: cur_def)
    with l c more Suc.prems(4) show ?thesis
      unfolding c(4) by (intro Suc.IH) (simp_all add: cur_def)
  qed
qed simp

section \<open>Open files agree with whole files\<close>

lemma copy_blocks_readable:
  assumes geom: "geom_ok fsOffset sb" and sz: "int sz < 9223372036854775807"
  shows "copy_blocks f fsOffset sb (int sz) ps out0 = Inr out \<Longrightarrow> \<forall>(l, p)\<in>set ps. l < 8589934592
    \<Longrightarrow> (l, p) \<in> set ps \<Longrightarrow> l * BlockSize sb < sz
    \<Longrightarrow> p < BlocksCount sb \<and> nat fsOffset + p * BlockSize sb + min (BlockSize sb) (sz - l * BlockSize sb) \<le> dev_size f"
proof (induction ps arbitrary: out0)
  case (Cons lp ps)
  obtain l' p' where lp: "lp = (l', p')"
    by (rule prod.exhaust)
  note g = geom [unfolded geom_ok_def]
  define bs where "bs = BlockSize sb"
  have l': "l' < 8589934592" and rest: "\<forall>(l, p)\<in>set ps. l < 8589934592"
    using Cons.prems(2) lp by auto
  have "l' * bs \<le> 8589934592 * 65536"
    using l' g unfolding bs_def by (intro mult_le_mono) simp_all
  then have lo: "i64 (int l' * int bs) = int (l' * bs)" "int (l' * bs) + int bs < 9223372036854775808"
    using g by (simp_all add: bs_def flip: of_nat_mult)
  have pb: "p' < BlocksCount sb"
    using Cons.prems(1) g by (auto simp: lp split: if_splits)
  note off = geom_off(2) [OF geom pb, folded bs_def]
  show ?case
  proof (cases "l' * bs \<ge> sz")
    case True
    then have "copy_blocks f fsOffset sb (int sz) ps out0 = Inr out"
      using Cons.prems(1) pb lo by (simp add: lp Let_def bs_def [symmetric] flip: of_nat_mult)
    moreover have "(l, p) \<in> set ps"
      using Cons.prems(3,4) True by (auto simp: lp bs_def)
    ultimately show ?thesis
      using Cons.IH rest Cons.prems(4) by blast
  next
    case False
    define n where "n = min bs (sz - l' * bs)"
    have nn: "nat (if i64 (int (l' * bs) + int bs) > int sz then i64 (int sz - int (l' * bs)) else int bs) = n"
    proof -
      have "i64 (int (l' * bs) + int bs) = int (l' * bs) + int bs" "i64 (int sz - int (l' * bs)) = int sz - int (l' * bs)"
        using False sz lo(2) by (intro i64_id; linarith)+
      then show ?thesis
        using False by (auto simp: n_def min_def simp del: of_nat_mult)
    qed
    have "copy_blocks f fsOffset sb (int sz) (lp # ps) out0
        = res_bind (ReadAt f (fsOffset + int (p' * bs)) n)
            (\<lambda>d. copy_blocks f fsOffset sb (int sz) ps (put_bytes out0 (l' * bs) d))"
      using False pb unfolding lp copy_blocks.simps Let_def bs_def [symmetric] lo(1) off nn by (simp del: of_nat_mult)
    with Cons.prems(1) obtain d where d: "ReadAt f (fsOffset + int (p' * bs)) n = Inr d"
      and run: "copy_blocks f fsOffset sb (int sz) ps (put_bytes out0 (l' * bs) d) = Inr out"
      by (simp only: res_bind_Inr_iff) blast
    show ?thesis
    proof (cases "(l, p) \<in> set ps")
      case True
      then show ?thesis
        using Cons.IH [OF run rest] Cons.prems(4) by blast
    next
      case out: False
      then have eq: "l = l'" "p = p'"
        using Cons.prems(3) lp by auto
      have "0 < n"
        using False g by (simp add: n_def bs_def)
      with d g have "nat fsOffset + p' * bs + n \<le> dev_size f"
        by (simp add: ReadAt_Inr_iff nat_add_distrib del: of_nat_mult)
      with pb show ?thesis
        by (simp add: eq n_def bs_def)
    qed
  qed
qed simp

lemma validate_no_overlap:
  assumes "validateExtents ls = Inr ()" "\<forall>e\<in>set ls. leaf_ok e"
  shows "no_overlap LogBlock ls"
proof (cases "length ls < 2")
  case True
  then have "length (filter (\<lambda>l. Count l \<noteq> 0) ls) < 2"
    by (metis le_less_trans length_filter_le)
  then show ?thesis
    unfolding no_overlap_def
    by (cases "filter (\<lambda>l. Count l \<noteq> 0) ls") (auto simp: length_Suc_conv less_Suc_eq numeral_2_eq_2)
next
  case False
  then have "checkRuns ls LogBlock = Inr ()"
    using assms(1) by (auto simp: validateExtents_def res_bind_Inr_iff)
  moreover have "run_bounded LogBlock ls"
    using assms(2) by (auto simp: run_bounded_def leaf_ok_def)
  ultimately show ?thesis
    using checkRuns_iff by blast
qed

lemma no_overlap_distinct:
  assumes "no_overlap LogBlock ls"
  shows "distinct (map fst (ext_map ls))"
  using assms
proof (induction ls)
  case (Cons e es)
  have ih: "distinct (map fst (ext_map es))"
    using Cons by (simp add: no_overlap_def split: if_splits)
  have "x \<notin> fst ` set (leaf_map e')" if "x \<in> fst ` set (leaf_map e)" "e' \<in> set es" for x e'
  proof
    assume x: "x \<in> fst ` set (leaf_map e')"
    have c: "Count e \<noteq> 0" "Count e' \<noteq> 0"
      using that(1) x unfolding fst_leaf_map by auto
    then have "run_apart LogBlock e e'"
      using Cons.prems that(2) by (simp add: no_overlap_def)
    with that(1) x show False
      unfolding fst_leaf_map run_apart_def by auto
  qed
  moreover have "fst ` set (ext_map es) = (\<Union>e'\<in>set es. fst ` set (leaf_map e'))"
    by (simp add: ext_map_def image_UN)
  ultimately have "fst ` set (leaf_map e) \<inter> fst ` set (ext_map es) = {}"
    by blast
  moreover have "distinct (map fst (leaf_map e))"
    by (simp add: leaf_map_def distinct_map o_def inj_on_def)
  ultimately show ?case
    using ih by simp
qed simp

lemma map_of_rev_distinct:
  assumes "distinct (map fst xs)"
  shows "map_of (rev xs) = map_of xs"
  using assms by (subst map_of_inject_set) (auto simp flip: rev_map)

lemma mset_ext_map_sort: "mset (ext_map (sort_key k ls)) = mset (ext_map ls)"
proof -
  have "mset (ext_map ls) = sum_mset (image_mset (\<lambda>e. mset (leaf_map e)) (mset ls))" for ls
    by (induction ls) simp_all
  then show ?thesis
    by simp
qed

lemma ext_map_sort:
  assumes "distinct (map fst (ext_map ls))"
  shows "distinct (map fst (ext_map (sort_key k ls)))" "map_of (ext_map (sort_key k ls)) = map_of (ext_map ls)"
proof -
  have "mset (map fst (ext_map (sort_key k ls))) = mset (map fst (ext_map ls))"
    by (simp add: mset_ext_map_sort)
  then show d: "distinct (map fst (ext_map (sort_key k ls)))"
    using assms mset_eq_imp_distinct_iff by blast
  have "set (ext_map (sort_key k ls)) = set (ext_map ls)"
    using mset_ext_map_sort mset_eq_setD by blast
  with d assms show "map_of (ext_map (sort_key k ls)) = map_of (ext_map ls)"
    by (simp add: map_of_inject_set)
qed

lemma readInode_refresh:
  assumes "readInode f fsOffset sb num = Inr i" "num < 4294967296"
  shows "refresh f fsOffset sb i = i"
proof -
  obtain d raw where num: "num \<noteq> 0" "InodesPerGroup sb \<noteq> 0"
    and d: "readBGD f fsOffset sb (inode_group sb num) = Inr d"
    and raw: "ReadAt f (i64 (fsOffset + inode_off_in sb d num)) (InodeSize sb) = Inr raw"
    and i: "i = decode_inode num raw"
    using assms(1) by (auto simp: readInode_eq res_bind_Inr_iff split: if_splits)
  have "sub32 num 1 = num - 1"
    using num assms(2) by (intro sub32_ge) simp_all
  moreover have "in_num i = num"
    by (simp add: i decode_inode_def)
  ultimately have "refresh_loop (Suc n) 0 (\<lambda>_. f) fsOffset sb i = i" for n
    using d raw i by (simp add: Let_def inode_group_def inode_off_in_def inode_index_def)
  then have "refresh_loop maxAttempts 0 (\<lambda>_. f) fsOffset sb i = i"
    unfolding maxAttempts_Suc .
  then show ?thesis
    by (simp add: refresh_def)
qed

lemma newFile_extents:
  assumes geom: "geom_ok fsOffset sb" and S: "makeBytes_ok S"
    and run: "readFileData S f fsOffset sb i = Inr data" "refresh f fsOffset sb i = i"
    and nf: "newFile S f fsOffset sb i = Inr fl"
    and ext: "has_flag (inode_flags i) InodeFlagExtents" "\<not> isInline i"
    and pos: "\<forall>e\<in>set (f_extents fl). 0 < Count e"
  shows "file_ok f fsOffset sb (f_extents fl) (length data)
    \<and> data = content f fsOffset sb (map_of (ext_map (f_extents fl))) (length data)
    \<and> f_inline fl = None \<and> f_size fl = int (length data) \<and> f_blockSize fl = int (BlockSize sb) \<and> \<not> f_closed fl"
proof -
  obtain ls where ls: "readExtents S f fsOffset sb i = Inr ls" and fl: "f_inline fl = None"
    "f_extents fl = sort_key LogBlock ls" "f_size fl = i64 (int (in_size i))" "f_blockSize fl = int (BlockSize sb)"
    "\<not> f_closed fl"
    using nf ext(2) declared_geom [OF geom] by (auto simp: newFile_def res_bind_Inr_iff Let_def split: if_splits)
  have root: "parseExtentRoot S f fsOffset sb (iblock i) = Inr ls"
    using ls ext by (simp add: readExtents_def isInline_def)
  note ok = parseExtentRoot_ok [OF root]
  note cont = readFileData_is_content [OF geom S run(2) [symmetric] run(1) ext(2) ls]
  have len: "length data = in_size i"
    using cont by simp
  have dist: "distinct (map fst (ext_map ls))"
    using ok validate_no_overlap no_overlap_distinct by blast
  note srt = ext_map_sort [OF dist, of LogBlock, folded fl(2)]
  have "runs_ok (f_extents fl)"
    using srt(1) pos by (intro runs_ok_sorted) (simp_all add: fl(2))
  moreover have "\<forall>e\<in>set (f_extents fl). LogBlock e < 4294967296 \<and> PhysBlock e < 281474976710656 \<and> Count e \<le> 65535"
    using ok by (auto simp: fl(2) leaf_ok_def)
  moreover have "p < BlocksCount sb \<and> nat fsOffset + p * BlockSize sb + min (BlockSize sb) (in_size i - b * BlockSize sb) \<le> dev_size f"
    if "map_of (ext_map (f_extents fl)) b = Some p" "b * BlockSize sb < in_size i" for b p
  proof -
    have ex: "extents S f fsOffset sb i = Inr ls"
      using root ext by (simp add: extents_def isInline_def)
    have sz: "i64 (int (in_size i)) = int (in_size i)"
      using cont by simp
    obtain out0 where "copy_blocks f fsOffset sb (int (in_size i)) (ext_map ls) out0 = Inr data"
      using run(1) ext ok unfolding readFileData_def Let_def run(2) ex res_bind_simps sz
      by (auto simp: res_bind_Inr_iff ext_blocks_eq split: if_splits)
    moreover have "\<forall>(l, p)\<in>set (ext_map ls). l < 8589934592"
      using ok by (fastforce simp: ext_map_def leaf_map_def leaf_ok_def)
    moreover have "(b, p) \<in> set (ext_map ls)"
      using that(1) unfolding srt(2) by (rule map_of_SomeD)
    ultimately show ?thesis
      using copy_blocks_readable [OF geom] cont that(2) by blast
  qed
  ultimately have "file_ok f fsOffset sb (f_extents fl) (length data)"
    using geom srt(1) cont unfolding file_ok_def len by blast
  moreover have "data = content f fsOffset sb (map_of (ext_map (f_extents fl))) (length data)"
    using cont unfolding len srt(2) map_of_rev_distinct [OF dist] by blast
  ultimately show ?thesis
    using fl cont len by simp
qed

section \<open>Properties\<close>

text \<open>C17: an extent-mapped file read at an offset through \<open>OpenFile\<close> gives exactly the bytes
  \<open>ReadFile\<close> returns for that range, holes included: whenever both succeed on the inode
  \<open>readInode\<close> returns and no leaf is empty, \<open>ReadAt\<close> ends, returns the slice of the file, and
  reports \<open>io.EOF\<close> exactly when the range starts at the end or runs past it.\<close>

theorem ReadAt_agrees_ReadFile:
  assumes "geom_ok fsOffset sb" "makeBytes_ok S"
    and "readInode f fsOffset sb num = Inr i" "num < 4294967296"
    and "has_flag (inode_flags i) InodeFlagExtents" "\<not> isInline i"
    and "readFileData S f fsOffset sb i = Inr data" "newFile S f fsOffset sb i = Inr fl"
    and "\<forall>e\<in>set (f_extents fl). 0 < Count e"
  shows "file_ReadAt f fsOffset sb fl (int off) len =
    Some (take len (drop off data),
          if off < length data \<and> off + len \<le> length data then None else Some ErrEOF)"
proof -
  have fl: "file_ok f fsOffset sb (f_extents fl) (length data)"
    "data = content f fsOffset sb (map_of (ext_map (f_extents fl))) (length data)"
    "f_inline fl = None" "f_size fl = int (length data)" "f_blockSize fl = int (BlockSize sb)" "\<not> f_closed fl"
    using newFile_extents [OF assms(1,2,7) readInode_refresh [OF assms(3,4)] assms(8,5,6,9)] by blast+
  show ?thesis
  proof (cases "off < length data")
    case True
    have "read_loop (len + 1) f fsOffset sb fl (int off) len []
      = Some (take len (drop off data), if off + len \<le> length data then None else Some ErrEOF)"
      by (rule read_loop_correct [OF fl(1) refl fl(4,5,2)]) (use True in \<open>simp_all add: bytes_at_def\<close>)
    with True fl show ?thesis
      by (simp add: file_ReadAt_def)
  next
    case False
    with fl show ?thesis
      by (simp add: file_ReadAt_def)
  qed
qed

text \<open>A file of 140 bytes in inode 3: two blocks of data, then a hole.\<close>

definition rd_byte :: "nat \<Rightarrow> byte" where
  "rd_byte i =
    (if i = 576 then 0xA4 else if i = 577 then 0x81 else if i = 580 then 140 else if i = 610 then 8
     else if i = 616 then 0x0A else if i = 617 then 0xF3 else if i = 618 then 1 else if i = 620 then 4
     else if i = 632 then 2 else if i = 636 then 40
     else if i = 2560 then 65 else if i = 2624 then 66 else if i = 2687 then 67 else mini_byte i)"

definition rd_dev :: device where
  "rd_dev = \<lparr>dev_size = 4096, dev_byte = rd_byte, dev_side = OsFile\<rparr>"

definition rd_inode :: inode where
  "rd_inode = decode_inode 3 (map rd_byte [576..<576 + 128])"

definition rd_exts :: "extentLeaf list" where
  "rd_exts = [\<lparr>LogBlock = 0, PhysBlock = 40, Count = 2\<rparr>]"

lemma rd_desc: "readBGD rd_dev 0 mini_sb 0 = Inr mini_bgd"
proof -
  have "map rd_byte [128..<128 + 32] = map mini_byte [128..<128 + 32]"
    by (rule map_cong) (auto simp: rd_byte_def)
  then have "ReadAt rd_dev 128 32 = Inr (map mini_byte [128..<128 + 32])"
    unfolding ReadAt_Inr_iff by (simp add: rd_dev_def)
  then show ?thesis
    using decode_mini by (simp add: readBGD_def)
qed

lemma rd_readInode: "readInode rd_dev 0 mini_sb 3 = Inr rd_inode"
proof -
  have "ReadAt rd_dev 576 128 = Inr (map rd_byte [576..<576 + 128])"
    unfolding ReadAt_Inr_iff by (simp add: rd_dev_def)
  then show ?thesis
    using rd_desc
    by (simp add: readInode_eq inode_group_def inode_index_def inode_off_in_def rd_inode_def mini_bgd_def)
qed

lemma rd_fields:
  "inode_flags rd_inode = 0x80000" "in_size rd_inode = 140" "in_num rd_inode = 3"
  "iblock rd_inode = map rd_byte [616..<616 + 60]"
  unfolding inode_flags_def rd_inode_def decode_inode_def u32_at_def iblock_def
  by (simp_all only: inode.simps bytes_at_map_upt) (simp_all add: rd_byte_def mini_byte_def join32_def)

lemma rd_root: "parseExtentRoot safeio_ref rd_dev 0 mini_sb (iblock rd_inode) = Inr rd_exts"
proof -
  have h: "u16_at (iblock rd_inode) 0 = ExtentMagic" "u16_at (iblock rd_inode) 2 = 1" "u16_at (iblock rd_inode) 6 = 0"
    "length (iblock rd_inode) = 60"
    unfolding rd_fields u16_at_def
    by (simp_all only: bytes_at_map_upt) (simp_all add: rd_byte_def mini_byte_def)
  have "get_leaf (iblock rd_inode) 12 = \<lparr>LogBlock = 0, PhysBlock = 40, Count = 2\<rparr>"
    unfolding rd_fields get_leaf_def u16_at_def u32_at_def
    by (simp only: bytes_at_map_upt) (simp add: rd_byte_def mini_byte_def join32_def)
  moreover have "node_entries (iblock rd_inode) = [12]"
    using node_entries_eq [OF h(2)] h(4) by simp
  ultimately show ?thesis
    using h by (simp add: parseExtentRoot_def check_header_def maxExtentDepth_def rd_exts_def validateExtents_def)
qed

definition rd_file :: ext4File where
  "rd_file = \<lparr>f_inline = None, f_extents = rd_exts, f_size = 140,
     f_blockSize = 64, f_inodeNum = 3, f_closed = False, f_readOnly = False\<rparr>"

lemma rd_layout: "has_flag (inode_flags rd_inode) InodeFlagExtents" "\<not> isInline rd_inode"
  by (simp_all add: rd_fields has_flag_def isInline_def)

lemma rd_newFile: "newFile safeio_ref rd_dev 0 mini_sb rd_inode = Inr rd_file"
  using rd_root rd_layout
  by (simp add: newFile_def readExtents_def isInline_def rd_fields declaredBytes_def rd_file_def rd_exts_def)

lemma rd_readFileData: "\<exists>data. readFileData safeio_ref rd_dev 0 mini_sb rd_inode = Inr data \<and> length data = 140"
proof -
  have r: "refresh rd_dev 0 mini_sb rd_inode = rd_inode"
    by (rule readInode_refresh [OF rd_readInode]) simp
  have e: "extents safeio_ref rd_dev 0 mini_sb rd_inode = Inr rd_exts"
    using rd_root rd_layout by (simp add: extents_def isInline_def)
  have b: "ext_blocks rd_exts = [(0, 40), (1, 41)]"
    by (simp add: ext_blocks_def rd_exts_def upt_rec)
  have d: "ReadAt rd_dev 2560 64 = Inr (map rd_byte [2560..<2560 + 64])" "ReadAt rd_dev 2624 64 = Inr (map rd_byte [2624..<2624 + 64])"
    unfolding ReadAt_Inr_iff by (simp_all add: rd_dev_def)
  show ?thesis
    unfolding readFileData_def Let_def r e res_bind_simps b
    using rd_layout d
    by (simp add: isInline_def rd_fields safeio_ref_def clampInt64_def fileSizeCeiling_def declaredBytes_def
        maxReadLimit_def Let_def rd_exts_def del: map_append)
qed

theorem ReadAt_agrees_ReadFile_witness:
  "\<exists>data. readFileData safeio_ref rd_dev 0 mini_sb rd_inode = Inr data
     \<and> file_ReadAt rd_dev 0 mini_sb rd_file (int 127) 3 = Some (take 3 (drop 127 data), None)"
proof -
  obtain data where r: "readFileData safeio_ref rd_dev 0 mini_sb rd_inode = Inr data" "length data = 140"
    using rd_readFileData by blast
  have g: "geom_ok 0 mini_sb"
    by (simp add: geom_ok_def)
  have c: "\<forall>e\<in>set (f_extents rd_file). 0 < Count e"
    by (simp add: rd_file_def rd_exts_def)
  have "(3 :: nat) < 4294967296"
    by simp
  from ReadAt_agrees_ReadFile [OF g safeio_ref_ok(1) rd_readInode this rd_layout r(1) rd_newFile c, of 127 3] r
  show ?thesis
    by simp
qed

text \<open>
  The hypothesis on empty leaves is needed: \<open>validateExtents\<close> ignores a leaf of zero length, but
  it breaks the order the binary search relies on.  The list below passes validation and maps
  block 7, which \<open>readFileData\<close> copies, while \<open>ReadAt\<close> finds no leaf and returns zeros.
\<close>

lemma empty_leaf_misread:
  defines "exts \<equiv> [\<lparr>LogBlock = 0, PhysBlock = 40, Count = 10\<rparr>, \<lparr>LogBlock = 5, PhysBlock = 33, Count = 0\<rparr>]"
  shows "validateExtents exts = Inr ()" "sort_key LogBlock exts = exts"
    "map_of (ext_map exts) 7 = Some 47" "find_leaf exts 7 = length exts"
  unfolding exts_def by code_simp+

end
