(* ===== verification/Paths.thy ===== *)
theory Paths
  imports SampleTree
begin

text \<open>
  What path lookup promises: paths of any depth resolve by walking the listed directories,
  cycles of symbolic links are reported, the parent lookup agrees with the full lookup.
\<close>

section \<open>Splitting and joining\<close>

definition component :: "gostring \<Rightarrow> bool" where
  "component c \<longleftrightarrow> c \<noteq> [] \<and> 47 \<notin> set c"

lemma component_hd: "component c \<Longrightarrow> TrimPrefix (c @ xs) = c @ xs"
  by (cases c) (auto simp: component_def)

lemma takeWhile_component: "47 \<notin> set c \<Longrightarrow> takeWhile (\<lambda>x. x \<noteq> 47) c = c"
  "47 \<notin> set c \<Longrightarrow> dropWhile (\<lambda>x. x \<noteq> 47) c = []"
  unfolding takeWhile_eq_all_conv dropWhile_eq_Nil_conv by auto

lemma SplitN2_simps:
  assumes "component c"
  shows "SplitN2 c = (c, None)" "SplitN2 (c @ 47 # r) = (c, Some r)"
proof -
  have c: "\<And>x. x \<in> set c \<Longrightarrow> x \<noteq> 47"
    using assms by (auto simp: component_def)
  show "SplitN2 c = (c, None)"
    using assms by (simp add: SplitN2_def takeWhile_component component_def)
  show "SplitN2 (c @ 47 # r) = (c, Some r)"
    using c by (simp add: SplitN2_def takeWhile_append2 dropWhile_append2)
qed

lemma Split_nonempty: "Split p \<noteq> []"
  by (induction p) (auto split: list.splits)

lemma Split_component: "47 \<notin> set c \<Longrightarrow> Split c = [c]"
  by (induction c) auto

lemma Split_append: "47 \<notin> set c \<Longrightarrow> Split (c @ 47 # r) = c # Split r"
  by (induction c) auto

lemma Split_Join: "cs \<noteq> [] \<Longrightarrow> \<forall>c\<in>set cs. 47 \<notin> set c \<Longrightarrow> Split (Join cs) = cs"
  by (induction cs rule: Join.induct) (auto simp: Split_component Split_append)

lemma Join_TrimPrefix: "component c \<Longrightarrow> TrimPrefix (Join (c # cs)) = Join (c # cs)"
  by (cases cs) (use component_hd [of c "[]"] component_hd [of c] in simp_all)

lemma Join_neq_Nil: "component c \<Longrightarrow> Join (c # cs) \<noteq> []"
  by (cases cs) (auto simp: component_def)

section \<open>One step of the lookup\<close>

text \<open>The directory \<open>ino\<close> lists \<open>c\<close>, and its entry leads to the inode \<open>child\<close>.\<close>

definition names :: "'v safeio \<Rightarrow> device \<Rightarrow> int \<Rightarrow> superblock \<Rightarrow> u32 \<Rightarrow> gostring \<Rightarrow> DirEntry \<Rightarrow> inode \<Rightarrow> bool" where
  "names S f fsOffset sb ino c e child \<longleftrightarrow>
    (\<exists>cur es. readInode f fsOffset sb ino = Inr cur \<and> isDir cur \<and> readDir S f fsOffset sb cur = Inr es
      \<and> find (\<lambda>e. de_Name e = c) es = Some e \<and> readInode f fsOffset sb (de_Inode e) = Inr child)"

lemma namesI:
  "readInode f fsOffset sb ino = Inr cur \<Longrightarrow> isDir cur \<Longrightarrow> readDir S f fsOffset sb cur = Inr es \<Longrightarrow>
    find (\<lambda>e. de_Name e = c) es = Some e \<Longrightarrow> readInode f fsOffset sb (de_Inode e) = Inr child \<Longrightarrow>
    names S f fsOffset sb ino c e child"
  unfolding names_def by blast

lemma lookup_trim:
  assumes "TrimPrefix p = TrimPrefix q"
  shows "lookupPathFrom S f fsOffset sb ino p h = lookupPathFrom S f fsOffset sb ino q h"
  unfolding lookupPathFrom.simps [of S f fsOffset sb ino p h] lookupPathFrom.simps [of S f fsOffset sb ino q h] assms
  by (rule refl)

lemma lookup_names:
  assumes "names S f fsOffset sb ino c e child" "h \<le> maxSymlinks" "TrimPrefix p \<noteq> []" "SplitN2 (TrimPrefix p) = (c, rst)"
  shows "lookupPathFrom S f fsOffset sb ino p h =
    (if isSymlink child then
       case readSymlink S f fsOffset sb child of
         Inl err \<Rightarrow> Inl err
       | Inr target \<Rightarrow>
           let nextPath = (case rst of None \<Rightarrow> target | Some rest \<Rightarrow> target @ 47 # rest)
           in lookupPathFrom S f fsOffset sb (if HasSlash nextPath then RootIno else ino) nextPath (Suc h)
     else case rst of None \<Rightarrow> Inr child | Some rest \<Rightarrow> lookupPathFrom S f fsOffset sb (de_Inode e) rest h)"
proof -
  obtain cur es where
    "readInode f fsOffset sb ino = Inr cur" "isDir cur" "readDir S f fsOffset sb cur = Inr es"
    "find (\<lambda>e. de_Name e = c) es = Some e" "readInode f fsOffset sb (de_Inode e) = Inr child"
    using assms(1) by (auto simp: names_def)
  then show ?thesis
    unfolding lookupPathFrom.simps [of S f fsOffset sb ino p h] assms(4) fst_conv snd_conv prod.case
    using assms(2,3) by simp
qed

lemma lookup_step:
  assumes "names S f fsOffset sb ino c e child" "component c" "\<not> isSymlink child" "h \<le> maxSymlinks"
  shows "lookupPathFrom S f fsOffset sb ino c h = Inr child"
    "lookupPathFrom S f fsOffset sb ino (c @ 47 # r) h = lookupPathFrom S f fsOffset sb (de_Inode e) r h"
proof -
  note t = component_hd [OF assms(2), of "[]", simplified] component_hd [OF assms(2), of "47 # r"]
  have c: "c \<noteq> []"
    using assms(2) by (simp add: component_def)
  show "lookupPathFrom S f fsOffset sb ino c h = Inr child"
    using lookup_names [OF assms(1,4), of c] t(1) c SplitN2_simps(1) [OF assms(2)] assms(3) by simp
  show "lookupPathFrom S f fsOffset sb ino (c @ 47 # r) h = lookupPathFrom S f fsOffset sb (de_Inode e) r h"
    using lookup_names [OF assms(1,4), of "c @ 47 # r"] t(2) SplitN2_simps(2) [OF assms(2)] assms(3) by simp
qed

section \<open>Symlink-free paths\<close>

inductive resolves :: "'v safeio \<Rightarrow> device \<Rightarrow> int \<Rightarrow> superblock \<Rightarrow> u32 \<Rightarrow> gostring list \<Rightarrow> u32 \<Rightarrow> bool"
  for S f fsOffset sb where
    here: "resolves S f fsOffset sb ino [] ino"
  | into: "names S f fsOffset sb ino c e child \<Longrightarrow> \<not> isSymlink child \<Longrightarrow> resolves S f fsOffset sb (de_Inode e) cs k
      \<Longrightarrow> resolves S f fsOffset sb ino (c # cs) k"

inductive_cases resolves_NilE: "resolves S f fsOffset sb ino [] k"

lemma resolves_lookup:
  assumes "resolves S f fsOffset sb ino cs k" "\<forall>c\<in>set cs. component c" "h \<le> maxSymlinks"
  shows "lookupPathFrom S f fsOffset sb ino (Join cs) h = readInode f fsOffset sb k"
  using assms
proof (induction rule: resolves.induct)
  case (here ino)
  then show ?case
    by (subst lookupPathFrom.simps) simp
next
  case (into ino c e child cs k)
  have c: "component c"
    using into.prems by simp
  show ?case
  proof (cases cs)
    case Nil
    with into.hyps(3) have "k = de_Inode e"
      by (auto elim: resolves_NilE)
    with Nil show ?thesis
      using lookup_step(1) [OF into.hyps(1) c into.hyps(2) into.prems(2)] into.hyps(1) by (auto simp: names_def)
  next
    case (Cons d ds)
    then show ?thesis
      using lookup_step(2) [OF into.hyps(1) c into.hyps(2) into.prems(2)] into.IH into.prems by simp
  qed
qed

lemma lookup_slash:
  "\<forall>c\<in>set cs. component c \<Longrightarrow> lookupPath S f fsOffset sb (47 # Join cs) = lookupPathFrom S f fsOffset sb RootIno (Join cs) 0"
proof -
  assume "\<forall>c\<in>set cs. component c"
  then have "TrimPrefix (47 # Join cs) = TrimPrefix (Join cs)"
    by (cases cs) (simp_all add: Join_TrimPrefix)
  then show ?thesis
    unfolding lookupPath_def by (rule lookup_trim)
qed

lemma resolves_prefix:
  assumes "resolves S f fsOffset sb ino cs k" "\<forall>c\<in>set cs. component c" "h \<le> maxSymlinks"
  shows "lookupPathFrom S f fsOffset sb ino (Join (cs @ [name])) h = lookupPathFrom S f fsOffset sb k name h"
  using assms
proof (induction rule: resolves.induct)
  case (into ino c e child cs k)
  have "component c"
    using into.prems by simp
  moreover have "Join (c # cs @ [name]) = c @ 47 # Join (cs @ [name])"
    by (cases cs) simp_all
  ultimately show ?case
    using lookup_step(2) [OF into.hyps(1) _ into.hyps(2) into.prems(2)] into.IH into.prems by simp
qed simp

section \<open>Paths that never end\<close>

text \<open>
  One step of resolving a path from a directory: into an entry that is not a symbolic link and has
  more of the path behind it, or through a symbolic link, whose target replaces the component and is
  taken from the root when it is absolute and from the same directory otherwise.
\<close>

inductive goes :: "'v safeio \<Rightarrow> device \<Rightarrow> int \<Rightarrow> superblock \<Rightarrow> u32 \<times> gostring \<Rightarrow> u32 \<times> gostring \<Rightarrow> bool"
  for S f fsOffset sb where
    walk: "names S f fsOffset sb ino c e child \<Longrightarrow> component c \<Longrightarrow> \<not> isSymlink child \<Longrightarrow> TrimPrefix p = c @ 47 # r
      \<Longrightarrow> goes S f fsOffset sb (ino, p) (de_Inode e, r)"
  | follow: "names S f fsOffset sb ino c e child \<Longrightarrow> component c \<Longrightarrow> isSymlink child \<Longrightarrow> readSymlink S f fsOffset sb child = Inr t
      \<Longrightarrow> TrimPrefix p = c @ rest \<Longrightarrow> rest = [] \<or> (\<exists>r. rest = 47 # r)
      \<Longrightarrow> goes S f fsOffset sb (ino, p) (if HasSlash (t @ rest) then RootIno else ino, t @ rest)"

lemma lookup_goes:
  assumes "goes S f fsOffset sb (ino, p) (ino', p')" "h \<le> maxSymlinks"
  shows "(lookupPathFrom S f fsOffset sb ino p h = lookupPathFrom S f fsOffset sb ino' p' h \<and> length p' < length p)
    \<or> lookupPathFrom S f fsOffset sb ino p h = lookupPathFrom S f fsOffset sb ino' p' (Suc h)"
  using assms(1)
proof (cases rule: goes.cases)
  case (walk c e child)
  have "length p' < length p"
    using walk(5) TrimPrefix_length [of p] by simp
  then show ?thesis
    using lookup_names [OF walk(2) assms(2), of p] walk SplitN2_simps(2) [OF walk(3)] by simp
next
  case (follow c e child t rest)
  have ne: "TrimPrefix p \<noteq> []"
    using follow(4,7) by (simp add: component_def)
  from follow(8) show ?thesis
  proof (elim disjE exE)
    assume "rest = []"
    then show ?thesis
      using lookup_names [OF follow(3) assms(2) ne] follow SplitN2_simps(1) [OF follow(4)] by simp
  next
    fix r assume "rest = 47 # r"
    then show ?thesis
      using lookup_names [OF follow(3) assms(2) ne] follow SplitN2_simps(2) [OF follow(4)] by simp
  qed
qed

lemma goes_forever:
  assumes ever: "\<And>x. x \<in> X \<Longrightarrow> \<exists>y\<in>X. goes S f fsOffset sb x y"
  shows "(ino, p) \<in> X \<Longrightarrow> lookupPathFrom S f fsOffset sb ino p h = Inl ErrSymlinkLoop"
proof (induction "Suc maxSymlinks - h" arbitrary: h ino p)
  case 0
  then show ?case
    by (subst lookupPathFrom.simps) simp
next
  case (Suc n)
  have h: "h \<le> maxSymlinks"
    using Suc.hyps(2) by simp
  from Suc.prems show ?case
  proof (induction "length p" arbitrary: ino p rule: less_induct)
    case less
    obtain ino' p' where y: "(ino', p') \<in> X" "goes S f fsOffset sb (ino, p) (ino', p')"
      using ever [OF less.prems] by auto
    from lookup_goes [OF y(2) h] show ?case
    proof (elim disjE conjE)
      assume "lookupPathFrom S f fsOffset sb ino p h = lookupPathFrom S f fsOffset sb ino' p' h" "length p' < length p"
      then show ?thesis
        using less.hyps y(1) by simp
    next
      assume "lookupPathFrom S f fsOffset sb ino p h = lookupPathFrom S f fsOffset sb ino' p' (Suc h)"
      then show ?thesis
        using Suc.hyps(1) [of "Suc h" ino' p'] Suc.hyps(2) y(1) by simp
    qed
  qed
qed

section \<open>The sample tree\<close>

lemma readDir_one_block:
  assumes "extents S f fsOffset sb i = Inr [\<lparr>LogBlock = 0, PhysBlock = b, Count = 1\<rparr>]" "inode_flags i = 0x80000"
    "readRawBlock f fsOffset sb b = Inr buf" "b < 18446744073709551616"
  shows "readDir S f fsOffset sb i = Inr (parseDirBlock S buf)"
proof -
  have "readExtents S f fsOffset sb i = Inr [\<lparr>LogBlock = 0, PhysBlock = b, Count = 1\<rparr>]" "\<not> isInline i"
    using assms(1,2) by (simp_all add: readExtents_def extents_def isInline_def has_flag_def)
  then show ?thesis
    using assms(3,4) by (simp add: readDir_def ext_blocks_def)
qed

lemma tree_readDir:
  "readDir safeio_ref tree_dev 0 mini_sb (tree_inode 2) = Inr root_entries"
  "readDir safeio_ref tree_dev 0 mini_sb (tree_inode 3) = Inr sub_entries"
  using readDir_one_block [OF tree_exts(1) tree_fields(8) tree_blocks(1)]
    readDir_one_block [OF tree_exts(2) tree_fields(9) tree_blocks(2)] tree_parse by simp_all

lemma tree_inodes:
  "readInode tree_dev 0 mini_sb 1 = Inr (tree_inode 1)" "readInode tree_dev 0 mini_sb 2 = Inr (tree_inode 2)"
  "readInode tree_dev 0 mini_sb 3 = Inr (tree_inode 3)" "readInode tree_dev 0 mini_sb 4 = Inr (tree_inode 4)"
  by (simp_all only: tree_readInode insert_iff simp_thms)

lemma tree_names:
  "names safeio_ref tree_dev 0 mini_sb 2 [100] \<lparr>de_Inode = 3, de_Name = [100], de_FileType = 2\<rparr> (tree_inode 3)"
  "names safeio_ref tree_dev 0 mini_sb 2 [108] \<lparr>de_Inode = 1, de_Name = [108], de_FileType = 7\<rparr> (tree_inode 1)"
  "names safeio_ref tree_dev 0 mini_sb 3 [102] \<lparr>de_Inode = 4, de_Name = [102], de_FileType = 1\<rparr> (tree_inode 4)"
  using namesI [OF tree_inodes(2) tree_fields(3) tree_readDir(1)] namesI [OF tree_inodes(3) tree_fields(4) tree_readDir(2)]
  by (simp_all add: root_entries_def sub_entries_def tree_inodes del: One_nat_def)

lemma tree_resolves:
  "resolves safeio_ref tree_dev 0 mini_sb RootIno [[100], [102]] 4" "resolves safeio_ref tree_dev 0 mini_sb RootIno [[100]] 3"
proof -
  have "resolves safeio_ref tree_dev 0 mini_sb 3 [[102]] 4"
    using into [OF tree_names(3) tree_fields(7)] here [of safeio_ref tree_dev 0 mini_sb 4] by simp
  then show "resolves safeio_ref tree_dev 0 mini_sb RootIno [[100], [102]] 4"
    using into [OF tree_names(1) tree_fields(5)] by simp
  show "resolves safeio_ref tree_dev 0 mini_sb RootIno [[100]] 3"
    using into [OF tree_names(1) tree_fields(5)] here [of safeio_ref tree_dev 0 mini_sb 3] by simp
qed

section \<open>Properties\<close>

text \<open>C20: a path without symbolic links resolves to the inode that walking the listed directories
  component by component reaches, however deep the path is: the symlink budget never limits the
  depth of the tree.
\<close>

theorem lookupPath_resolves:
  assumes "resolves S f fsOffset sb RootIno cs k" "\<forall>c\<in>set cs. component c"
  shows "lookupPath S f fsOffset sb (47 # Join cs) = readInode f fsOffset sb k"
  using resolves_lookup [OF assms, of 0] lookup_slash [where S = S, OF assms(2)] by simp

theorem lookupPath_resolves_witness:
  "lookupPath safeio_ref tree_dev 0 mini_sb (47 # Join [[100], [102]]) = readInode tree_dev 0 mini_sb 4"
  using lookupPath_resolves [OF tree_resolves(1)] by (simp add: component_def)

text \<open>C21: a resolution that never ends is reported.  Take any set \<open>X\<close> of pairs of a directory and a path
  to resolve from it such that the next step of the resolution, be it into a directory or through
  a relative or an absolute symbolic link with a target of any number of components, always leads
  to a pair of \<open>X\<close> again; the links may form a cycle, within one directory or across directories,
  or make the path longer and longer.  Every lookup of a path of \<open>X\<close>, with any number of links
  already followed, then returns the symlink-loop error: it does not run for ever and does not
  return an inode.
\<close>

theorem lookup_cycle_error:
  assumes "\<And>x. x \<in> X \<Longrightarrow> \<exists>y\<in>X. goes S f fsOffset sb x y" and "(ino, p) \<in> X"
  shows "lookupPathFrom S f fsOffset sb ino p symlinkHops = Inl ErrSymlinkLoop"
  using goes_forever [OF assms] .

lemma tree_link: "readSymlink safeio_ref tree_dev 0 mini_sb (tree_inode 1) = Inr [108]"
proof -
  have raw: "in_raw (tree_inode 1) = map tree_byte [320..<320 + 128]"
    unfolding tree_raw decode_inode_def inode.simps by (rule refl)
  have "bytes_at (in_raw (tree_inode 1)) inodeOffBlock 1 = [108]"
    unfolding raw by (simp only: bytes_at_map_upt) (simp add: tree_byte_def)
  moreover have "length (in_raw (tree_inode 1)) = 128"
    unfolding raw by (simp only: length_map length_upt)
  ultimately show ?thesis
    by (simp add: readSymlink_def tree_fields(2) del: One_nat_def)
qed

lemma tree_up: "names safeio_ref tree_dev 0 mini_sb 3 [46, 46] \<lparr>de_Inode = 2, de_Name = [46, 46], de_FileType = 2\<rparr> (tree_inode 2)"
  "\<not> isSymlink (tree_inode 2)"
proof -
  show "names safeio_ref tree_dev 0 mini_sb 3 [46, 46] \<lparr>de_Inode = 2, de_Name = [46, 46], de_FileType = 2\<rparr> (tree_inode 2)"
    using namesI [OF tree_inodes(3) tree_fields(4) tree_readDir(2)] by (simp add: sub_entries_def tree_inodes del: One_nat_def)
  show "\<not> isSymlink (tree_inode 2)"
    using tree_fields(3) by (simp add: isDir_def isSymlink_def)
qed

text \<open>The path \<open>/d/../l\<close> of the sample tree, through two directories into the link that leads to itself.\<close>

theorem lookup_cycle_error_witness:
  "lookupPathFrom safeio_ref tree_dev 0 mini_sb RootIno [47, 100, 47, 46, 46, 47, 108] 0 = Inl ErrSymlinkLoop"
proof (rule lookup_cycle_error [of "{(2, [47, 100, 47, 46, 46, 47, 108]), (3, [46, 46, 47, 108]), (2, [108])}"])
  have 1: "goes safeio_ref tree_dev 0 mini_sb (2, [47, 100, 47, 46, 46, 47, 108]) (3, [46, 46, 47, 108])"
    using walk [OF tree_names(1) _ tree_fields(5), of "[47, 100, 47, 46, 46, 47, 108]" "[46, 46, 47, 108]"] by (simp add: component_def)
  have 2: "goes safeio_ref tree_dev 0 mini_sb (3, [46, 46, 47, 108]) (2, [108])"
    using walk [OF tree_up(1) _ tree_up(2), of "[46, 46, 47, 108]" "[108]"] by (simp add: component_def)
  have 3: "goes safeio_ref tree_dev 0 mini_sb (2, [108]) (2, [108])"
    using follow [OF tree_names(2) _ tree_fields(1) tree_link, of "[108]" "[]"] by (simp add: component_def HasSlash_def)
  show "\<exists>y\<in>{(2, [47, 100, 47, 46, 46, 47, 108]), (3, [46, 46, 47, 108]), (2, [108])}. goes safeio_ref tree_dev 0 mini_sb x y"
    if "x \<in> {(2, [47, 100, 47, 46, 46, 47, 108]), (3, [46, 46, 47, 108]), (2, [108])}" for x
    using that 1 2 3 by blast
qed simp

text \<open>C22: the parent lookup of an absolute path whose leading components are not symbolic links returns
  the directory \<open>dir\<close> these lead to, together with the last component, and the full lookup of the
  path agrees with it: it is the lookup of the last component in that directory.  So it returns the
  inode of the entry with this name when that is not a symbolic link, it continues with the target
  when it is one (from the root for an absolute target, from \<open>dir\<close> otherwise), and it fails with
  \<open>ErrNotExist\<close> when \<open>dir\<close> lists no such entry.
\<close>

theorem lookupParent_agrees:
  assumes "resolves S f fsOffset sb RootIno cs k" "readInode f fsOffset sb k = Inr dir" "isDir dir"
    and "\<forall>c\<in>set cs. component c" "component name"
  shows "lookupParent S f fsOffset sb (47 # Join (cs @ [name])) = Inr (dir, name)
    \<and> lookupPath S f fsOffset sb (47 # Join (cs @ [name])) = lookupPathFrom S f fsOffset sb k name 0
    \<and> (\<forall>e child. names S f fsOffset sb k name e child \<and> \<not> isSymlink child
         \<longrightarrow> lookupPath S f fsOffset sb (47 # Join (cs @ [name])) = Inr child)
    \<and> (\<forall>e child t. names S f fsOffset sb k name e child \<and> isSymlink child \<and> readSymlink S f fsOffset sb child = Inr t
         \<longrightarrow> lookupPath S f fsOffset sb (47 # Join (cs @ [name])) = lookupPathFrom S f fsOffset sb (if HasSlash t then RootIno else k) t 1)
    \<and> (\<forall>es. readDir S f fsOffset sb dir = Inr es \<and> name \<notin> de_Name ` set es
         \<longrightarrow> lookupPath S f fsOffset sb (47 # Join (cs @ [name])) = Inl ErrNotExist)"
proof -
  have comps: "\<forall>c\<in>set (cs @ [name]). component c"
    using assms(4,5) by simp
  have "cs @ [name] \<noteq> []"
    by simp
  then have sp: "Split (Join (cs @ [name])) = cs @ [name]"
    using comps by (intro Split_Join) (auto simp: component_def)
  have ne: "Join (cs @ [name]) \<noteq> []"
    using comps by (cases cs) (simp_all add: Join_neq_Nil, simp add: component_def)
  have dir: "(if Join cs = [] then readInode f fsOffset sb RootIno else lookupPath S f fsOffset sb (47 # Join cs)) = Inr dir"
  proof (cases cs)
    case Nil
    then show ?thesis
      using assms(1,2) by (auto elim: resolves_NilE)
  next
    case (Cons c cs')
    then have "Join cs \<noteq> []"
      using assms(4) by (simp add: Join_neq_Nil)
    then show ?thesis
      using resolves_lookup [OF assms(1,4), of 0] lookup_slash [where S = S, OF assms(4)] assms(2) by simp
  qed
  have parent: "lookupParent S f fsOffset sb (47 # Join (cs @ [name])) = Inr (dir, name)"
    unfolding lookupParent_def Let_def TrimPrefix.simps if_P [OF refl] sp butlast_snoc last_snoc dir
    using ne assms(3,5) by (simp add: component_def)
  have full: "lookupPath S f fsOffset sb (47 # Join (cs @ [name])) = lookupPathFrom S f fsOffset sb k name 0"
    using resolves_prefix [OF assms(1,4), of 0 name] lookup_slash [where S = S, OF comps] by simp
  have nm: "TrimPrefix name = name" "name \<noteq> []" "SplitN2 name = (name, None)"
    using component_hd [OF assms(5), of "[]"] SplitN2_simps(1) [OF assms(5)] assms(5) by (simp_all add: component_def)
  have plain: "lookupPathFrom S f fsOffset sb k name 0 = Inr child" if "names S f fsOffset sb k name e child" "\<not> isSymlink child" for e child
    using lookup_step(1) [OF that(1) assms(5) that(2)] by simp
  have link: "lookupPathFrom S f fsOffset sb k name 0 = lookupPathFrom S f fsOffset sb (if HasSlash t then RootIno else k) t 1"
    if "names S f fsOffset sb k name e child" "isSymlink child" "readSymlink S f fsOffset sb child = Inr t" for e child t
    using lookup_names [OF that(1), of 0 name None] that(2,3) nm by simp
  have absent: "lookupPathFrom S f fsOffset sb k name 0 = Inl ErrNotExist" if "readDir S f fsOffset sb dir = Inr es" "name \<notin> de_Name ` set es" for es
  proof -
    have "find (\<lambda>e. de_Name e = name) es = None"
      using that(2) by (auto simp: find_None_iff)
    then show ?thesis
      using assms(2,3) that(1) nm by (subst lookupPathFrom.simps) (simp add: maxSymlinks_def)
  qed
  show ?thesis
    unfolding full using parent plain link absent by blast
qed

theorem lookupParent_agrees_witness:
  "lookupParent safeio_ref tree_dev 0 mini_sb (47 # Join ([[100]] @ [[102]])) = Inr (tree_inode 3, [102])
   \<and> lookupPath safeio_ref tree_dev 0 mini_sb (47 # Join ([[100]] @ [[102]])) = Inr (tree_inode 4)"
  using lookupParent_agrees [OF tree_resolves(2) tree_inodes(3) tree_fields(4), of "[102]"]
    tree_names(3) tree_fields(7) by (auto simp: component_def)

text \<open>
  A second leading slash is not trimmed: the lookup then searches the root for an entry with the
  empty name.  The parent lookup of the same path does find the root, so the two disagree.
\<close>

lemma double_slash_not_found:
  assumes "readInode f fsOffset sb RootIno = Inr cur" "isDir cur" "readDir S f fsOffset sb cur = Inr es"
    "\<forall>e\<in>set es. de_Name e \<noteq> []" "component c"
  shows "lookupPath S f fsOffset sb (47 # 47 # c) = Inl ErrNotExist"
    "lookupParent S f fsOffset sb (47 # 47 # c) = Inr (cur, c)"
proof -
  have "find (\<lambda>e. de_Name e = []) es = None"
    using assms(4) by (simp add: find_None_iff)
  then show "lookupPath S f fsOffset sb (47 # 47 # c) = Inl ErrNotExist"
    using assms(1-3) unfolding lookupPath_def by (subst lookupPathFrom.simps) (simp add: SplitN2_def maxSymlinks_def)
  show "lookupParent S f fsOffset sb (47 # 47 # c) = Inr (cur, c)"
    using assms by (simp add: lookupParent_def Split_component component_def)
qed

end
