(* ===== verification/Spec2Isabelle.thy ===== *)
theory Spec2Isabelle
  imports AllocInodes AllocInv JournalCrash JournalWrite NewDir OpenFile Paths
begin

text \<open>
  A verification development for the Go package \<open>filesystem_ext4\<close> (the sources under
  \<open>src/\<close>): an ext4 driver that reads and writes images without the kernel.

  \<^bold>\<open>The program and its parts.\<close>  Everything the driver does ends in reads and writes of a block
  device.  Opening an image decodes the superblock; a path is resolved through directory blocks,
  an inode is found through the block group descriptor of its group, and its content through an
  extent tree, an indirect block map or the inline area.  Operations that change the tree take
  inodes and blocks from the allocators, which write bitmap, descriptor and superblock through
  the commit dispatcher, and update inodes and directory blocks in place.  With a sidecar journal
  byte ranges are staged as whole blocks in a transaction, logged, and then applied.

  \<^bold>\<open>Theories\<close>, in import order, with the sources they model and what their lemmas show:

  \<^item> \<open>Prelude\<close>: integers with explicit wrap-around, byte slices, the little-endian codec, errors as
    values, state-passing operations.
  \<^item> \<open>Device\<close>: \<open>blockdevice.go\<close>, \<open>openreader.go\<close>.  The locale \<open>block_store\<close> (reads after a write,
    frame of a write, sequences of writes) is interpreted on \<open>ReadAt\<close> and \<open>WriteAt\<close>; every
    property about bytes on the device rests on it.
  \<^item> \<open>Superblock\<close>: \<open>checksum.go\<close>, \<open>superblock.go\<close> (\<open>readSuperblock\<close>, \<open>encodeRaw\<close>, the group geometry),
    the label codec of \<open>label.go\<close>, the feature bits of \<open>ext4.go\<close>.  The table-free CRC-32C is the
    remainder of polynomial division, and a superblock that is accepted is well formed.
  \<^item> \<open>Bgd\<close>: \<open>bgd.go\<close> (\<open>decodeBGD\<close>, \<open>encode\<close>, \<open>readBGD\<close>), with round trips in both layouts.
  \<^item> \<open>Bitmap\<close>: bits and free-bit searches of \<open>alloc.go\<close> (\<open>setBit\<close>, \<open>clearBit\<close>, \<open>findFreeBit\<close>,
    \<open>findFreeRun\<close>).  The locale \<open>bit_set\<close> is interpreted on the bitmap operations.
  \<^item> \<open>Rawio\<close>: \<open>readRawBlock\<close>, \<open>writeRawBlock\<close> and \<open>writeAtWithTrace\<close> of \<open>fs.go\<close>: the write equals a
    plain device write, and its locks are taken and released in order around it.
  \<^item> \<open>Limits\<close>: \<open>limits.go\<close>; \<open>validateExtents\<close> decides exactly the quadratic no-overlap condition.
  \<^item> \<open>Inode\<close>: \<open>inode.go\<close> (\<open>readInode\<close>, \<open>writeInode\<close>, setters, \<open>computeInodeCsum\<close>): round trip and
    checksum.
  \<^item> \<open>Extents\<close>, \<open>Blockmap\<close>, \<open>Inline\<close>: the three layouts of file content (\<open>inode.go\<close>, \<open>write.go\<close>,
    \<open>writeat.go\<close>, \<open>blockmap.go\<close>, \<open>inline.go\<close>): encoders against parsers, builders against the map
    from logical to physical blocks, the block-map walk against the per-block lookup, the
    attribute scan against an independent encoding.
  \<^item> \<open>FileData\<close>, \<open>OpenFile\<close>: \<open>readFileData\<close> of \<open>inode.go\<close> and the random-access reader of \<open>open.go\<close>;
    both return slices of one specification of the content.
  \<^item> \<open>DirBlock\<close>, \<open>Directory\<close>, \<open>Paths\<close>: \<open>dir.go\<close> and the block loops of \<open>delete.go\<close> and \<open>rename.go\<close>:
    one record is added or freed, lookup follows an inductive specification at any depth, cycles of
    symbolic links are errors, \<open>lookupParent\<close> agrees with \<open>lookupPath\<close>.
  \<^item> \<open>Dispatch\<close>: what a task of \<open>commit_dispatch.go\<close> does to the device on each route, \<open>writeBGD\<close>,
    \<open>writeSuperblock\<close>.
  \<^item> \<open>Alloc\<close>, \<open>AllocInodes\<close>, \<open>AllocBlocks\<close>, \<open>AllocInv\<close>: the allocators of \<open>alloc.go\<close> and
    \<open>freeInodeSlot\<close> of \<open>delete.go\<close>: what a successful call has done, when one succeeds, and the
    agreement of bitmaps and counts under every sequence of calls (the relation \<open>alloc_step\<close>).
  \<^item> \<open>Metadata\<close>: \<open>metadata.go\<close>, \<open>ioctl.go\<close>, \<open>label.go\<close>.
  \<^item> \<open>Ops\<close>, \<open>DirOps\<close>, \<open>TreeOps\<close>, \<open>NewDir\<close>: the operations on the tree (\<open>dir.go\<close>, \<open>delete.go\<close>,
    \<open>write.go\<close>, \<open>mkdir.go\<close>, \<open>symlink.go\<close>, \<open>link.go\<close>, \<open>rename.go\<close>) without a journal; proved are the
    effects of \<open>addDirEntry\<close>, \<open>zeroDirEntry\<close> and the writes of \<open>makeDir\<close> on listings.
  \<^item> \<open>Journal\<close>, \<open>JournalReplay\<close>, \<open>JournalWrite\<close>, \<open>JournalSteps\<close>, \<open>JournalCrash\<close>: \<open>journal.go\<close>:
    staging, the record format, commit, replay and open; commits followed by a replay on a device
    that has any prefix of their writes; the journalled write against the direct one; concurrent
    commits as interleaved steps with their invariant, progress and the blocking after a failure;
    atomicity of a commit under a crash in any state these steps reach.
  \<^item> \<open>Sample\<close>, \<open>SampleTree\<close>, \<open>AllocSample\<close>: small images on which the theorems are evaluated.

  \<^bold>\<open>State.\<close>  A device is a \<open>device\<close> record, an open file system is \<open>fsys\<close> (device and in-memory
  superblock), the journal with its device is \<open>jsys\<close>, a committing goroutine is a \<open>committer\<close>.  What other
  goroutines decide (the cursor of the allocators, groups that cannot be locked, reserved bits,
  the dispatcher's route, the descriptors a retry loop sees) is a parameter, so a property holds
  for every choice.  The package \<open>go-volumes/safeio\<close> is the parameter \<open>safeio\<close> with its documented behaviour as
  hypotheses, the clock a parameter of \<open>Metadata\<close>.

  \<^bold>\<open>Bounds.\<close>  The bounds are the program's own: 40 symbolic links (\<open>maxSymlinks\<close>), extent trees of
  depth 5 (\<open>maxExtentDepth\<close>), 8 rounds of the lock protocols (\<open>maxAttempts\<close>,
  \<open>addRangeMaxAttempts\<close>; with no other writer the first is stable), the block budget
  of \<open>limits.go\<close>.  Loops over buffers terminate by measure.  \<open>pow_loop\<close> of \<open>groupIsSparseBackup\<close> is a
  partial function, with a proof of when it returns.  The only fuel is the depth argument of
  \<open>removeDir\<close>, which stands for the stack; no property depends on it.

  \<^bold>\<open>Assumptions.\<close>  A writable device performs every write at a non-negative offset completely; a
  write error in the middle of a batch is not represented (\<open>interrupted_batch\<close> in \<open>AllocInv\<close> shows
  that the counts would then disagree with the bitmap).  Torn and failed writes are
  modelled for the journal: on the sidecar in \<open>JournalSteps\<close>, on the device in \<open>JournalCrash\<close>.
  Flushing never fails.  \<open>sort.Slice\<close> is a stable sort.

  \<^bold>\<open>Not modelled.\<close>  Formatting, resizing, checking and repairing of images, the partition table
  scan, writing of file content (\<open>writeFile\<close>, the writable handle of \<open>writeat.go\<close>), the branches of
  the operations that stage into a transaction (\<open>allocInodeWithTx\<close>, \<open>allocBlocksWithTx\<close>,
  the journal path of \<open>freeBlock\<close>, \<open>addDirEntryWithTx\<close>), the lock tables and owners (the sequences of lock events
  of \<open>writeAtWithTrace\<close> excepted), acknowledgements and idle timers of the dispatcher, tracing,
  debugging and test support.
\<close>

end
